(* ===== verification/Prelude.thy ===== *)
theory Prelude
  imports Main "HOL-Library.Word" "HOL-Library.Char_ord" "HOL-Library.List_Lexorder"
    "HOL-Library.Product_Lexorder"
begin

text \<open>
  What the components share: the machine integers of the Rust sources, the parts of the Rust
  standard library they call (saturating addition, decimal formatting and parsing, the ASCII
  classes, positional edits of a vector), JSON values, and ordered tables. A redb table and a
  \<^verbatim>\<open>BTreeMap\<close> are both an association list kept strictly sorted by key, so that iteration order is
  part of the model and two tables with the same contents are equal.
\<close>

type_synonym u8 = "8 word"
type_synonym u16 = "16 word"
type_synonym u32 = "32 word"
type_synonym u64 = "64 word"

text \<open>\<^verbatim>\<open>Result<T, String>\<close>: the refusals of the control plane are text.\<close>

type_synonym 'a result = "string + 'a"

text \<open>The errors openraft's storage traits return, with the text of their source.\<close>

datatype storage_error = StorageRead string | StorageWrite string | StorageReadSnapshot string

named_theorems table_simps "lookups in ordered tables"

section \<open>Integers\<close>

definition sat_add :: "u64 \<Rightarrow> u64 \<Rightarrow> u64" where
  "sat_add a b = (if a + b < a then - 1 else a + b)"

lemma mod_once: "k \<le> x \<Longrightarrow> x < 2 * k \<Longrightarrow> x mod k = x - k" for k x :: nat
  by (simp add: le_mod_geq)

lemma unat_sat_add: "unat (sat_add a b) = min (unat a + unat b) (2 ^ 64 - 1)"
proof (cases "unat a + unat b < 2 ^ 64")
  case True
  then have "unat (a + b) = unat a + unat b" by (simp add: unat_word_ariths)
  with True show ?thesis by (simp add: sat_add_def word_less_nat_alt)
next
  case False
  have bounds: "unat a < 2 ^ 64" "unat b < 2 ^ 64" using unsigned_less [of a] unsigned_less [of b] by simp_all
  have "unat (a + b) = (unat a + unat b) mod 2 ^ 64" by (simp add: unat_word_ariths)
  also have "\<dots> = unat a + unat b - 2 ^ 64" using False bounds by (intro mod_once) linarith+
  finally have "unat (a + b) < unat a" using False bounds by linarith
  then show ?thesis using False by (simp add: sat_add_def word_less_nat_alt unsigned_minus_1_eq_mask mask_eq_exp_minus_1)
qed

lemma sat_add_ge: "a \<le> sat_add a b"
proof -
  have "unat a < 2 ^ 64" using unsigned_less [of a] by simp
  then show ?thesis by (simp add: word_le_nat_alt unat_sat_add)
qed

lemma sat_add_mono: "a \<le> a' \<Longrightarrow> sat_add a b \<le> sat_add a' b"
  by (simp add: word_le_nat_alt unat_sat_add min_def)

section \<open>Decimal text\<close>

definition digit_char :: "nat \<Rightarrow> char" where
  "digit_char d = char_of (48 + d)"

fun show_nat :: "nat \<Rightarrow> string" where
  "show_nat n = (if n < 10 then [digit_char n] else show_nat (n div 10) @ [digit_char (n mod 10)])"

declare show_nat.simps [simp del]

abbreviation show_word :: "'a::len word \<Rightarrow> string" where
  "show_word w \<equiv> show_nat (unat w)"

definition is_ascii_digit :: "char \<Rightarrow> bool" where
  "is_ascii_digit c \<longleftrightarrow> CHR ''0'' \<le> c \<and> c \<le> CHR ''9''"

definition digit_val :: "char \<Rightarrow> nat" where
  "digit_val c = of_char c - 48"

text \<open>\<^verbatim>\<open>str::parse::<u64>\<close> on text already known to be ASCII digits: the only failure left is
  overflow.\<close>

definition dec_val :: "string \<Rightarrow> nat" where
  "dec_val s = foldl (\<lambda>acc c. acc * 10 + digit_val c) 0 s"

definition parse_u64 :: "string \<Rightarrow> u64 option" where
  "parse_u64 s = (if dec_val s < 2 ^ 64 then Some (of_nat (dec_val s)) else None)"

lemma digit_char_facts:
  assumes "d < 10"
  shows "is_ascii_digit (digit_char d)" "digit_val (digit_char d) = d"
proof -
  have "d \<in> {0..<10}" using assms by simp
  also have "{0..<10} = {0, 1, 2, 3, 4, 5, 6, 7, 8, 9 :: nat}" by auto
  finally have "is_ascii_digit (digit_char d) \<and> digit_val (digit_char d) = d"
    by (auto simp: is_ascii_digit_def digit_char_def digit_val_def less_eq_char_def)
  then show "is_ascii_digit (digit_char d)" "digit_val (digit_char d) = d" by simp_all
qed

lemma show_nat_nonempty [simp]: "show_nat n \<noteq> []"
  by (subst show_nat.simps) simp

lemma show_nat_digits: "list_all is_ascii_digit (show_nat n)"
proof (induction n rule: show_nat.induct)
  case (1 n)
  show ?case
  proof (cases "n < 10")
    case True
    then show ?thesis by (subst show_nat.simps) (simp add: digit_char_facts)
  next
    case False
    with 1 have "list_all is_ascii_digit (show_nat (n div 10))" by simp
    with False show ?thesis by (subst show_nat.simps) (simp add: digit_char_facts)
  qed
qed

lemma dec_val_snoc: "dec_val (s @ [c]) = dec_val s * 10 + digit_val c"
  by (simp add: dec_val_def)

lemma dec_val_show_nat [simp]: "dec_val (show_nat n) = n"
proof (induction n rule: show_nat.induct)
  case (1 n)
  show ?case
  proof (cases "n < 10")
    case True
    then show ?thesis by (subst show_nat.simps) (simp add: dec_val_def digit_char_facts)
  next
    case False
    with 1 have "dec_val (show_nat (n div 10)) = n div 10" by simp
    with False show ?thesis
      by (subst show_nat.simps) (simp add: dec_val_snoc digit_char_facts)
  qed
qed

lemma show_nat_inject [simp]: "show_nat m = show_nat n \<longleftrightarrow> m = n"
  by (metis dec_val_show_nat)

lemma parse_u64_show [simp]: "parse_u64 (show_word (w :: u64)) = Some w"
  using unsigned_less [of w] by (simp add: parse_u64_def)

section \<open>Character classes\<close>

definition is_ascii_hexdigit :: "char \<Rightarrow> bool" where
  "is_ascii_hexdigit c \<longleftrightarrow> is_ascii_digit c \<or> CHR ''a'' \<le> c \<and> c \<le> CHR ''f'' \<or> CHR ''A'' \<le> c \<and> c \<le> CHR ''F''"

definition char_between :: "char \<Rightarrow> char \<Rightarrow> char \<Rightarrow> bool" where
  "char_between lo hi c \<longleftrightarrow> lo \<le> c \<and> c \<le> hi"

definition is_ascii_alphanumeric :: "char \<Rightarrow> bool" where
  "is_ascii_alphanumeric c \<longleftrightarrow>
     is_ascii_digit c \<or> char_between (CHR ''A'') (CHR ''Z'') c \<or> char_between (CHR ''a'') (CHR ''z'') c"

text \<open>
  A Rust \<^verbatim>\<open>String\<close> is UTF-8, and a HOL \<^typ>\<open>string\<close> is its bytes. \<open>utf8_chars\<close> is
  \<^verbatim>\<open>str::chars\<close>: the code points of valid UTF-8.
\<close>

fun utf8_chars :: "string \<Rightarrow> nat list" where
  "utf8_chars [] = []"
| "utf8_chars (c # s) =
     (let b = of_char c :: nat; tail = (\<lambda>k. foldl (\<lambda>acc d. acc * 64 + of_char d mod 64) 0 (take k s)) in
      if b < 128 then b # utf8_chars s
      else if b < 224 then ((b - 192) * 64 + tail 1) # utf8_chars (drop 1 s)
      else if b < 240 then ((b - 224) * 4096 + tail 2) # utf8_chars (drop 2 s)
      else ((b - 240) * 262144 + tail 3) # utf8_chars (drop 3 s))"

text \<open>\<^verbatim>\<open>char::is_whitespace\<close> (the Unicode \<^verbatim>\<open>White_Space\<close> property) and
  \<^verbatim>\<open>char::is_control\<close> (the general category \<^verbatim>\<open>Cc\<close>).\<close>

definition is_whitespace :: "nat \<Rightarrow> bool" where
  "is_whitespace c \<longleftrightarrow>
     9 \<le> c \<and> c \<le> 13 \<or> c \<in> set [32, 133, 160, 5760, 8232, 8233, 8239, 8287, 12288] \<or> 8192 \<le> c \<and> c \<le> 8202"

definition is_control :: "nat \<Rightarrow> bool" where
  "is_control c \<longleftrightarrow> c < 32 \<or> 127 \<le> c \<and> c < 160"

definition hex_digit_lower :: "nat \<Rightarrow> char" where
  "hex_digit_lower d = (if d < 10 then char_of (48 + d) else char_of (87 + d))"

text \<open>The \<^verbatim>\<open>{:?}\<close> rendering of a string; bytes outside ASCII are printable and left as they are.\<close>

definition debug_char :: "char \<Rightarrow> string" where
  "debug_char c =
     (if c = CHR 0x22 then [CHR 0x5C, CHR 0x22]
      else if c = CHR 0x5C then [CHR 0x5C, CHR 0x5C]
      else if c = CHR 0x0A then [CHR 0x5C, CHR ''n'']
      else if c = CHR 0x0D then [CHR 0x5C, CHR ''r'']
      else if c = CHR 0x09 then [CHR 0x5C, CHR ''t'']
      else if c = CHR 0x00 then [CHR 0x5C, CHR ''0'']
      else if is_control (of_char c) \<and> of_char c < (128 :: nat)
        then CHR 0x5C # ''u{'' @
             (if of_char c < (16 :: nat) then [] else [hex_digit_lower (of_char c div 16)]) @
             [hex_digit_lower (of_char c mod 16)] @ ''}''
      else [c])"

definition debug_str :: "string \<Rightarrow> string" where
  "debug_str s = [CHR 0x22] @ concat (map debug_char s) @ [CHR 0x22]"

definition starts_with :: "string \<Rightarrow> string \<Rightarrow> bool" where
  "starts_with p s \<longleftrightarrow> take (length p) s = p"

definition strip_prefix :: "string \<Rightarrow> string \<Rightarrow> string option" where
  "strip_prefix p s = (if starts_with p s then Some (drop (length p) s) else None)"

text \<open>\<^verbatim>\<open>str::split_once\<close>: the text around the first occurrence of a separator.\<close>

fun split_once :: "string \<Rightarrow> string \<Rightarrow> (string \<times> string) option" where
  "split_once p [] = (if p = [] then Some ([], []) else None)"
| "split_once p (c # s) =
     (if starts_with p (c # s) then Some ([], drop (length p) (c # s))
      else map_option (\<lambda>(a, b). (c # a, b)) (split_once p s))"

lemma starts_with_append [simp]: "starts_with p (p @ s)"
  by (simp add: starts_with_def)

lemma starts_with_iff: "starts_with p s \<longleftrightarrow> (\<exists>r. s = p @ r)"
  by (metis append_eq_conv_conj append_take_drop_id starts_with_def)

lemma strip_prefix_append [simp]: "strip_prefix p (p @ s) = Some s"
  by (simp add: strip_prefix_def)

lemma strip_prefix_Some: "strip_prefix p s = Some r \<longleftrightarrow> s = p @ r"
  by (auto simp: strip_prefix_def starts_with_iff)

lemma split_once_Some: "split_once p s = Some (a, b) \<Longrightarrow> s = a @ p @ b"
proof (induction s arbitrary: a)
  case Nil
  then show ?case by (auto split: if_splits)
next
  case (Cons c s)
  show ?case
  proof (cases "starts_with p (c # s)")
    case True
    with Cons.prems have "a = []" "b = drop (length p) (c # s)" by auto
    with True show ?thesis by (metis append_Nil append_take_drop_id starts_with_def)
  next
    case False
    with Cons.prems obtain a' where "split_once p s = Some (a', b)" "a = c # a'" by auto
    with Cons.IH show ?thesis by auto
  qed
qed

section \<open>Vectors\<close>

text \<open>\<^verbatim>\<open>Vec::insert\<close>, \<^verbatim>\<open>Vec::remove\<close>, \<^verbatim>\<open>Iterator::position\<close>, and the first match at or after an
  index (\<^verbatim>\<open>enumerate().skip(n).find(..)\<close>).\<close>

definition insert_at :: "nat \<Rightarrow> 'a \<Rightarrow> 'a list \<Rightarrow> 'a list" where
  "insert_at i x xs = take i xs @ x # drop i xs"

definition remove_at :: "nat \<Rightarrow> 'a list \<Rightarrow> 'a list" where
  "remove_at i xs = take i xs @ drop (Suc i) xs"

fun position :: "('a \<Rightarrow> bool) \<Rightarrow> 'a list \<Rightarrow> nat option" where
  "position P [] = None"
| "position P (x # xs) = (if P x then Some 0 else map_option Suc (position P xs))"

definition position_from :: "('a \<Rightarrow> bool) \<Rightarrow> nat \<Rightarrow> 'a list \<Rightarrow> nat option" where
  "position_from P n xs = map_option (\<lambda>i. n + i) (position P (drop n xs))"

lemma position_None: "position P xs = None \<longleftrightarrow> (\<forall>x \<in> set xs. \<not> P x)"
  by (induction xs) auto

lemma position_Some:
  "position P xs = Some i \<longleftrightarrow> i < length xs \<and> P (xs ! i) \<and> (\<forall>j < i. \<not> P (xs ! j))"
proof (induction xs arbitrary: i)
  case Nil
  then show ?case by simp
next
  case (Cons x xs)
  show ?case
  proof (cases i)
    case 0
    then show ?thesis by (cases "position P xs") auto
  next
    case (Suc k)
    have "position P (x # xs) = Some (Suc k) \<longleftrightarrow> \<not> P x \<and> position P xs = Some k"
      by (cases "position P xs") auto
    also have "\<dots> \<longleftrightarrow> \<not> P x \<and> k < length xs \<and> P (xs ! k) \<and> (\<forall>j < k. \<not> P (xs ! j))"
      by (simp add: Cons.IH)
    also have "\<dots> \<longleftrightarrow> Suc k < length (x # xs) \<and> P ((x # xs) ! Suc k) \<and>
        (\<forall>j < Suc k. \<not> P ((x # xs) ! j))"
      by (auto simp: All_less_Suc2)
    finally show ?thesis using Suc by simp
  qed
qed

lemma all_shift_nat: "(\<forall>j < i - n. Q (n + j)) \<longleftrightarrow> (\<forall>j. n \<le> j \<and> j < i \<longrightarrow> Q j)" for n :: nat
proof
  assume L: "\<forall>j < i - n. Q (n + j)"
  show "\<forall>j. n \<le> j \<and> j < i \<longrightarrow> Q j"
  proof (intro allI impI)
    fix j assume "n \<le> j \<and> j < i"
    then show "Q j" using L [rule_format, of "j - n"] by auto
  qed
qed auto

lemma position_from_Some:
  "position_from P n xs = Some i \<longleftrightarrow>
     n \<le> i \<and> i < length xs \<and> P (xs ! i) \<and> (\<forall>j. n \<le> j \<and> j < i \<longrightarrow> \<not> P (xs ! j))"
proof -
  have "position_from P n xs = Some i \<longleftrightarrow> n \<le> i \<and> position P (drop n xs) = Some (i - n)"
    by (auto simp: position_from_def)
  also have "\<dots> \<longleftrightarrow> n \<le> i \<and> i < length xs \<and> P (xs ! i) \<and> (\<forall>j < i - n. \<not> P (xs ! (n + j)))"
    by (auto simp: position_Some)
  also have "\<dots> \<longleftrightarrow> n \<le> i \<and> i < length xs \<and> P (xs ! i) \<and>
      (\<forall>j. n \<le> j \<and> j < i \<longrightarrow> \<not> P (xs ! j))"
    by (simp only: all_shift_nat [where Q = "\<lambda>j. \<not> P (xs ! j)"])
  finally show ?thesis .
qed

lemma set_insert_at [simp]: "set (insert_at i x xs) = insert x (set xs)"
  by (metis append_take_drop_id insert_at_def list.simps(15) set_append Un_insert_right)

lemma length_insert_at [simp]: "length (insert_at i x xs) = Suc (length xs)"
  by (simp add: insert_at_def)

lemma nth_insert_at: "i \<le> length xs \<Longrightarrow> insert_at i x xs ! i = x"
  by (simp add: insert_at_def nth_append)

lemma set_remove_at: "set (remove_at i xs) \<subseteq> set xs"
  by (auto simp: remove_at_def dest: in_set_takeD in_set_dropD)

lemma map_insert_at: "map f (insert_at i x xs) = insert_at i (f x) (map f xs)"
  by (simp add: insert_at_def take_map drop_map)

lemma map_remove_at: "map f (remove_at i xs) = remove_at i (map f xs)"
  by (simp add: remove_at_def take_map drop_map)

lemma remove_insert_at: "i \<le> length xs \<Longrightarrow> remove_at i (insert_at i x xs) = xs"
  by (simp add: insert_at_def remove_at_def min_def)

lemma insert_remove_at: "i < length xs \<Longrightarrow> insert_at i (xs ! i) (remove_at i xs) = xs"
  by (simp add: insert_at_def remove_at_def min_def id_take_nth_drop [symmetric])

section \<open>JSON values\<close>

text \<open>\<^verbatim>\<open>serde_json::Value\<close>. A number outside the integers keeps its literal.\<close>

datatype json =
    JNull
  | JBool bool
  | JInt int
  | JFloat string
  | JStr string
  | JArr "json list"
  | JObj "(string \<times> json) list"

definition as_str :: "json \<Rightarrow> string option" where
  "as_str v = (case v of JStr s \<Rightarrow> Some s | _ \<Rightarrow> None)"

end
