(* ===== verification/Tables.thy ===== *)
theory Tables
  imports Prelude
begin

text \<open>
  Ordered tables: the contract a key-value table offers its clients, stated once as the locale
  \<open>kv_table\<close> with what follows from it, and the sorted association list that meets it. The redb
  tables of the Raft store and the \<^verbatim>\<open>BTreeMap\<close>s of the node status are instances; redb iterates a
  table in key order, which the representation makes explicit.
\<close>

lemma ext_map_of_rev: "distinct (map fst rows) \<Longrightarrow> map_of (rev rows) = map_of rows"
  by (rule map_of_eqI) (auto simp: rev_map [symmetric] distinct_rev)

section \<open>The contract\<close>

locale kv_table =
  fixes get :: "'t \<Rightarrow> 'k \<Rightarrow> 'v option"
    and put :: "'k \<Rightarrow> 'v \<Rightarrow> 't \<Rightarrow> 't"
    and del :: "'k \<Rightarrow> 't \<Rightarrow> 't"
    and none :: "'t"
    and inv :: "'t \<Rightarrow> bool"
  assumes get_none: "get none k = None"
    and get_put: "get (put k v t) j = (if j = k then Some v else get t j)"
    and get_del: "inv t \<Longrightarrow> get (del k t) j = (if j = k then None else get t j)"
    and inv_none: "inv none"
    and inv_put: "inv t \<Longrightarrow> inv (put k v t)"
    and inv_del: "inv t \<Longrightarrow> inv (del k t)"
    and ext: "inv s \<Longrightarrow> inv t \<Longrightarrow> (\<And>k. get s k = get t k) \<Longrightarrow> s = t"
begin

lemma put_put: "inv t \<Longrightarrow> put k v (put k w t) = put k v t"
  by (rule ext) (auto simp: inv_put get_put)

lemma put_commute: "inv t \<Longrightarrow> j \<noteq> k \<Longrightarrow> put j v (put k w t) = put k w (put j v t)"
  by (rule ext) (auto simp: inv_put get_put)

lemma put_same: "inv t \<Longrightarrow> get t k = Some v \<Longrightarrow> put k v t = t"
  by (rule ext) (auto simp: inv_put get_put)

lemma del_put: "inv t \<Longrightarrow> del k (put k v t) = del k t"
  by (rule ext) (auto simp: inv_put inv_del get_put get_del)

lemma del_absent: "inv t \<Longrightarrow> get t k = None \<Longrightarrow> del k t = t"
  by (rule ext) (auto simp: inv_del get_del)

lemma inv_put_rows: "inv t \<Longrightarrow> inv (fold (\<lambda>(k, v). put k v) rows t)"
  by (induction rows arbitrary: t) (auto simp: inv_put)

lemma get_put_rows:
  "get (fold (\<lambda>(k, v). put k v) rows t) j =
     (case map_of (rev rows) j of None \<Rightarrow> get t j | Some v \<Rightarrow> Some v)"
  by (induction rows arbitrary: t) (auto simp: get_put map_add_def split: option.splits)

lemma put_rows_of_map:
  assumes "inv t" and "distinct (map fst rows)" and "\<And>k. get t k = map_of rows k"
  shows "fold (\<lambda>(k, v). put k v) rows none = t"
proof (rule ext)
  show "inv (fold (\<lambda>(k, v). put k v) rows none)" by (simp add: inv_put_rows inv_none)
  show "inv t" by fact
  fix k
  have "map_of (rev rows) = map_of rows"
    using assms(2) by (intro ext_map_of_rev)
  then show "get (fold (\<lambda>(k, v). put k v) rows none) k = get t k"
    by (auto simp: get_put_rows get_none assms(3) split: option.splits)
qed

end

section \<open>Sorted association lists\<close>

type_synonym ('k, 'v) table = "('k \<times> 'v) list"

abbreviation tget :: "('k, 'v) table \<Rightarrow> 'k \<Rightarrow> 'v option" where
  "tget t k \<equiv> map_of t k"

fun tput :: "'k::linorder \<Rightarrow> 'v \<Rightarrow> ('k, 'v) table \<Rightarrow> ('k, 'v) table" where
  "tput k v [] = [(k, v)]"
| "tput k v (row # t) =
     (if fst row = k then (k, v) # t
      else if fst row < k then row # tput k v t
      else (k, v) # row # t)"

definition tretain :: "('k \<Rightarrow> 'v \<Rightarrow> bool) \<Rightarrow> ('k, 'v) table \<Rightarrow> ('k, 'v) table" where
  "tretain P t = filter (\<lambda>(k, v). P k v) t"

definition tdel :: "'k \<Rightarrow> ('k, 'v) table \<Rightarrow> ('k, 'v) table" where
  "tdel k t = filter (\<lambda>row. fst row \<noteq> k) t"

abbreviation tkeys :: "('k, 'v) table \<Rightarrow> 'k list" where
  "tkeys t \<equiv> map fst t"

definition twf :: "('k::linorder, 'v) table \<Rightarrow> bool" where
  "twf t \<longleftrightarrow> sorted_wrt (<) (tkeys t)"

lemma twf_Nil [simp]: "twf []"
  by (simp add: twf_def)

lemma twf_Cons: "twf (row # t) \<longleftrightarrow> (\<forall>k \<in> fst ` set t. fst row < k) \<and> twf t"
  by (simp add: twf_def)

lemma twf_distinct: "twf t \<Longrightarrow> distinct (tkeys t)"
  by (simp add: twf_def strict_sorted_iff)

lemma tget_tput [simp]: "tget (tput k v t) j = (if j = k then Some v else tget t j)"
  by (induction t) auto

lemma tkeys_tput [simp]: "fst ` set (tput k v t) = insert k (fst ` set t)"
  by (induction t) auto

lemma twf_tput [simp]: "twf t \<Longrightarrow> twf (tput k v t)"
  by (induction t) (auto simp: twf_Cons simp del: image_iff)

lemma twf_filter: "twf t \<Longrightarrow> twf (filter P t)"
proof (induction t)
  case (Cons row t)
  then show ?case by (auto simp: twf_Cons)
qed simp

lemma twf_tretain [simp]: "twf t \<Longrightarrow> twf (tretain P t)"
  by (simp add: tretain_def twf_filter)

lemma twf_tdel [simp]: "twf t \<Longrightarrow> twf (tdel k t)"
  by (simp add: tdel_def twf_filter)

lemma tget_notin: "k \<notin> fst ` set t \<Longrightarrow> tget t k = None"
  by (simp add: map_of_eq_None_iff)

lemma tget_filter:
  assumes "distinct (tkeys t)"
  shows "tget (filter P t) k = (case tget t k of None \<Rightarrow> None | Some v \<Rightarrow> if P (k, v) then Some v else None)"
  using assms
proof (induction t)
  case (Cons row t)
  have "map_of (filter P t) (fst row) = None" if "fst row \<notin> set (tkeys t)"
    using that by (auto simp: map_of_eq_None_iff)
  with Cons show ?case
    by (cases row) (auto split: option.splits simp: map_of_eq_None_iff dest: map_of_SomeD)
qed simp

lemma tget_tretain:
  "twf t \<Longrightarrow> tget (tretain P t) k = (case tget t k of None \<Rightarrow> None | Some v \<Rightarrow> if P k v then Some v else None)"
  by (simp add: tretain_def tget_filter twf_distinct split: option.split)

lemma tget_tdel [simp]: "tget (tdel k t) j = (if j = k then None else tget t j)"
  by (induction t) (auto simp: tdel_def)

lemma tkeys_tdel [simp]: "fst ` set (tdel k t) = fst ` set t - {k}"
  by (auto simp: tdel_def)

lemma tkeys_tretain: "fst ` set (tretain P t) \<subseteq> fst ` set t"
  by (auto simp: tretain_def)

lemma tretain_False [simp]: "tretain (\<lambda>_ _. False) t = []"
  by (simp add: tretain_def)

lemma tkeys_tget: "k \<in> fst ` set t \<longleftrightarrow> tget t k \<noteq> None"
  by (simp add: map_of_eq_None_iff)

lemma twf_row: "twf t \<Longrightarrow> (k, v) \<in> set t \<longleftrightarrow> tget t k = Some v"
  by (simp add: twf_distinct)

lemma twf_set_eq:
  assumes "twf s" and "twf t" and "\<And>k. tget s k = tget t k"
  shows "s = t"
proof (rule map_sorted_distinct_set_unique [where f = fst])
  show same: "set s = set t"
    using assms by (auto simp: twf_row)
  show "inj_on fst (set s \<union> set t)"
    using twf_distinct [OF assms(2)] by (simp add: same distinct_map)
qed (use assms in \<open>simp_all add: twf_def strict_sorted_iff\<close>)

interpretation tbl: kv_table "\<lambda>t. tget t" tput tdel "[] :: ('k::linorder, 'v) table" twf
proof unfold_locales
  fix s t :: "('k, 'v) table"
  assume "twf s" "twf t" "\<And>k. tget s k = tget t k"
  then show "s = t" by (rule twf_set_eq)
qed auto

text \<open>Writing a table's own rows into an empty table, in any order, gives the table back.\<close>

lemma put_own_rows: "twf t \<Longrightarrow> fold (\<lambda>(k, v). tput k v) t [] = t"
  by (rule tbl.put_rows_of_map) (auto simp: twf_distinct)

lemma tretain_all: "(\<And>k v. (k, v) \<in> set t \<Longrightarrow> P k v) \<Longrightarrow> tretain P t = t"
  by (auto simp: tretain_def filter_id_conv)

lemma tretain_tretain: "tretain P (tretain Q t) = tretain (\<lambda>k v. P k v \<and> Q k v) t"
  by (auto simp: tretain_def intro: filter_cong)

lemma tretain_tput:
  assumes "twf t"
  shows "tretain P (tput k v t) = (if P k v then tput k v (tretain P t) else tdel k (tretain P t))"
  using assms by (intro twf_set_eq) (auto simp: tget_tretain split: option.splits)

lemma set_tput: "set (tput k v t) \<subseteq> insert (k, v) (set t)"
  by (induction t) auto

lemma list_all_tput: "list_all P t \<Longrightarrow> P (k, v) \<Longrightarrow> list_all P (tput k v t)"
  using set_tput [of k v t] by (auto simp: list_all_iff)

lemma list_all_tdel: "list_all P t \<Longrightarrow> list_all P (tdel k t)"
  by (auto simp: list_all_iff tdel_def)

lemma list_all_tretain: "list_all P t \<Longrightarrow> list_all P (tretain Q t)"
  by (auto simp: list_all_iff tretain_def)

lemma length_table: "twf t \<Longrightarrow> length t = card (fst ` set t)"
  using twf_distinct by (metis distinct_card length_map set_map)

text \<open>Deleting many rows.\<close>

lemma tget_fold_tdel: "tget (fold (\<lambda>h. tdel (f h)) hs t) x = (if x \<in> f ` set hs then None else tget t x)"
  by (induction hs arbitrary: t) auto

lemma fold_tdel_wf: "twf t \<Longrightarrow> twf (fold (\<lambda>h. tdel (f h)) hs t)"
  by (induction hs arbitrary: t) auto

lemma fold_tdel_set: "set (fold (\<lambda>h. tdel (f h)) hs t) \<subseteq> set t"
proof (induction hs arbitrary: t)
  case (Cons h hs)
  have "set (tdel (f h) t) \<subseteq> set t" by (auto simp: tdel_def)
  with Cons [of "tdel (f h) t"] show ?case by auto
qed simp

end
