(* ===== verification/Seams.thy ===== *)
theory Seams
  imports Tables
begin

text \<open>
  What the cluster crates see of the Rift core, which is vendored outside this repository and
  reached only through \<^verbatim>\<open>rift_cluster_base::seams\<close>: the fields of its types that the sources under
  \<^verbatim>\<open>crates/rift-cluster\<close> read or write, everything else of a value kept whole as one opaque JSON
  field. The core's functions are not defined here: they are the fields of the record
  \<open>upstream\<close>, an argument of every definition that calls them.
\<close>

text \<open>\<^verbatim>\<open>StubResponse::Proxy\<close> carries the target \<^verbatim>\<open>proxy.to\<close> and an optional client key; the other
  kinds of response are opaque.\<close>

datatype stub_response =
    Proxy (proxy_to: string) (proxy_key: "string option") (proxy_rest: json)
  | OtherResponse json

record stub =
  stub_id :: "string option"
  stub_space :: "string option"
  stub_predicates :: "json list"
  stub_responses :: "stub_response list"
  stub_recorded_from :: "string option"
  stub_rest :: json

record flow_state_config =
  fs_ttl_seconds :: int
  fs_flow_id_source :: "string option"
  fs_extra :: "(string, json) table"

record rift_config =
  rift_flow_state :: "flow_state_config option"
  rift_sequencing_mode :: "string option option"  \<comment> \<open>\<^verbatim>\<open>sequencing: Option<_>\<close> with \<^verbatim>\<open>mode: Option<String>\<close>\<close>

record imposter_config =
  ic_port :: "u16 option"
  ic_protocol :: string
  ic_stubs :: "stub list"
  ic_enabled :: bool
  ic_rift :: "rift_config option"
  ic_rest :: json

text \<open>A route of the front door's table; \<^verbatim>\<open>RouteTable\<close> is the list of them.\<close>

record route =
  route_id :: string
  route_rest :: json

record recorded_response =
  resp_status :: u16
  resp_headers :: "(string \<times> string) list"
  resp_body :: "u8 list"
  resp_latency_ms :: "u64 option"
  resp_timestamp_secs :: u64

text \<open>
  The functions of the core and of \<^verbatim>\<open>serde_json\<close> the control plane calls: the engine's admission
  check on a config, whether a response is a saved proxy response
  (\<^verbatim>\<open>StubResponse::is_recorded\<close>), the route table's own validation, a stub as a JSON value and the
  text of a JSON value.
\<close>

record upstream =
  admission_check :: "imposter_config \<Rightarrow> unit result"
  is_recorded :: "stub_response \<Rightarrow> bool"
  validate_routes :: "route list \<Rightarrow> unit result"
  stub_to_value :: "stub \<Rightarrow> json"
  show_json :: "json \<Rightarrow> string"

end
