(* ===== verification/FlowConfig.thy ===== *)
theory FlowConfig
  imports Seams
begin

text \<open>
  The per-imposter flow-state knobs (\<^verbatim>\<open>stores/flow_config.rs\<close>): how an imposter's
  \<^verbatim>\<open>_rift.flowState\<close> block is parsed, what the parse refuses, and the namespace every flow id is
  stored and owned under. The lemmas show that the namespaces of distinct imposters and of the
  fleet are disjoint whatever flow ids the callers choose.
\<close>

datatype durability = DurNone | DurAsync | DurSync

datatype read_consistency = ReadStrong | ReadLocal

datatype context_scope = ScopeImposter | ScopeFleet

section \<open>Namespaces\<close>

fun prefix_for :: "context_scope \<Rightarrow> u16 option \<Rightarrow> string" where
  "prefix_for ScopeFleet _ = ''f:''"
| "prefix_for ScopeImposter (Some port) = ''i'' @ show_word port @ '':''"
| "prefix_for ScopeImposter None = ''i?:''"

definition scoped_flow_id :: "context_scope \<Rightarrow> u16 option \<Rightarrow> string \<Rightarrow> string" where
  "scoped_flow_id scope port flow_id = prefix_for scope port @ flow_id"

section \<open>The parsed block\<close>

record flow_config =
  fc_read_consistency :: read_consistency
  fc_durability :: durability
  fc_ttl_seconds :: "int option"
  fc_scope :: context_scope

definition flow_config_default :: flow_config where
  "flow_config_default =
     \<lparr>fc_read_consistency = ReadStrong, fc_durability = DurAsync,
      fc_ttl_seconds = Some 300, fc_scope = ScopeImposter\<rparr>"

definition parse_read_consistency :: "'a upstream_scheme \<Rightarrow> json option \<Rightarrow> read_consistency result" where
  "parse_read_consistency U v =
     (case v of None \<Rightarrow> Inr ReadStrong
      | Some value \<Rightarrow>
          if as_str value = Some ''strong'' then Inr ReadStrong
          else if as_str value = Some ''local'' then Inr ReadLocal
          else Inl (''flowState.readConsistency must be \"strong\" or \"local\", got '' @ show_json U value))"

definition parse_durability :: "'a upstream_scheme \<Rightarrow> json option \<Rightarrow> durability result" where
  "parse_durability U v =
     (case v of None \<Rightarrow> Inr DurAsync
      | Some value \<Rightarrow>
          if as_str value = Some ''none'' then Inr DurNone
          else if as_str value = Some ''async'' then Inr DurAsync
          else if as_str value = Some ''sync'' then Inr DurSync
          else Inl (''flowState.durability must be \"none\", \"async\" or \"sync\", got '' @ show_json U value))"

definition parse_context_scope :: "'a upstream_scheme \<Rightarrow> json option \<Rightarrow> context_scope result" where
  "parse_context_scope U v =
     (case v of None \<Rightarrow> Inr ScopeImposter
      | Some value \<Rightarrow>
          if as_str value = Some ''imposter'' then Inr ScopeImposter
          else if as_str value = Some ''fleet'' then Inr ScopeFleet
          else if as_str value = Some ''tenant'' then
            Inl (''flowState.contextScope: \"tenant\" no longer exists '' @ [CHR 0xE2, CHR 0x80, CHR 0x94] @
                 '' the fleet has no tenants since #550. Use \"imposter\" (per-imposter namespace) or '' @
                 ''\"fleet\" (one namespace for the whole fleet).'')
          else Inl (''flowState.contextScope must be \"imposter\" or \"fleet\", got '' @ show_json U value))"

definition flow_state_of :: "imposter_config \<Rightarrow> flow_state_config option" where
  "flow_state_of config = Option.bind (ic_rift config) rift_flow_state"

definition flow_config_from_imposter :: "'a upstream_scheme \<Rightarrow> imposter_config \<Rightarrow> flow_config result" where
  "flow_config_from_imposter U config =
     (case flow_state_of config of
        None \<Rightarrow> Inr flow_config_default
      | Some fs \<Rightarrow>
          (case parse_read_consistency U (tget (fs_extra fs) ''readConsistency'') of
             Inl e \<Rightarrow> Inl e
           | Inr rc \<Rightarrow>
               (case parse_durability U (tget (fs_extra fs) ''durability'') of
                  Inl e \<Rightarrow> Inl e
                | Inr dur \<Rightarrow>
                    (case parse_context_scope U (tget (fs_extra fs) ''contextScope'') of
                       Inl e \<Rightarrow> Inl e
                     | Inr scope \<Rightarrow>
                         Inr \<lparr>fc_read_consistency = rc, fc_durability = dur,
                              fc_ttl_seconds = (if fs_ttl_seconds fs > 0 then Some (fs_ttl_seconds fs) else None),
                              fc_scope = scope\<rparr>))))"

definition flow_config_validate :: "'a upstream_scheme \<Rightarrow> imposter_config \<Rightarrow> unit result" where
  "flow_config_validate U config =
     (case flow_config_from_imposter U config of Inl e \<Rightarrow> Inl e | Inr _ \<Rightarrow> Inr ())"

section \<open>Published knobs\<close>

datatype knob_source = KnobDefault | KnobSet

definition knob_source_of :: "bool \<Rightarrow> knob_source" where
  "knob_source_of present = (if present then KnobSet else KnobDefault)"

record resolved_knobs =
  rk_durability :: "durability \<times> knob_source"
  rk_read_consistency :: "read_consistency \<times> knob_source"
  rk_flow_id_source :: "string \<times> knob_source"

definition resolved_knobs_from_imposter :: "'a upstream_scheme \<Rightarrow> imposter_config \<Rightarrow> resolved_knobs result" where
  "resolved_knobs_from_imposter U config =
     (case flow_config_from_imposter U config of
        Inl e \<Rightarrow> Inl e
      | Inr parsed \<Rightarrow>
          (let flow_state = flow_state_of config;
               present = (\<lambda>key. case flow_state of None \<Rightarrow> False | Some fs \<Rightarrow> tget (fs_extra fs) key \<noteq> None);
               flow_id_source = Option.bind flow_state fs_flow_id_source
           in Inr \<lparr>rk_durability = (fc_durability parsed, knob_source_of (present ''durability'')),
                   rk_read_consistency = (fc_read_consistency parsed, knob_source_of (present ''readConsistency'')),
                   rk_flow_id_source =
                     ((case flow_id_source of None \<Rightarrow> ''imposter_port'' | Some s \<Rightarrow> s),
                      knob_source_of (flow_id_source \<noteq> None))\<rparr>))"

section \<open>Lemmas\<close>

lemma digits_no_colon: "CHR '':'' \<notin> set (show_nat n)"
proof
  assume "CHR '':'' \<in> set (show_nat n)"
  with show_nat_digits have "is_ascii_digit (CHR '':'')" by (metis list_all_iff)
  then show False by (simp add: is_ascii_digit_def less_eq_char_def)
qed

lemma append_sep_inject:
  assumes "c \<notin> set xs" and "c \<notin> set ys" and "xs @ c # as = ys @ c # bs"
  shows "xs = ys \<and> as = bs"
  using assms
proof (induction xs arbitrary: ys)
  case Nil
  then show ?case by (cases ys) auto
next
  case (Cons x xs)
  then show ?case by (cases ys) auto
qed

lemma imposter_scope_inject:
  assumes "scoped_flow_id ScopeImposter (Some p) a = scoped_flow_id ScopeImposter (Some q) b"
  shows "p = q \<and> a = b"
proof -
  have "show_word p @ CHR '':'' # a = show_word q @ CHR '':'' # b"
    using assms by (simp add: scoped_flow_id_def)
  then have "show_word p = show_word q \<and> a = b"
    by (rule append_sep_inject [OF digits_no_colon digits_no_colon])
  then show ?thesis by (simp add: word_unat_eq_iff)
qed

lemma fleet_scope_apart:
  "scoped_flow_id ScopeFleet p a \<noteq> scoped_flow_id ScopeImposter q b"
  by (cases q) (simp_all add: scoped_flow_id_def)

end
