(* ===== verification/Control.thy ===== *)
theory Control
  imports FlowConfig
begin

text \<open>
  The control-plane op set (\<^verbatim>\<open>crates/rift-cluster/src/control.rs\<close>): what an admin mutation becomes
  in the Raft log, the validation every op passes before it touches a table, and the edits of a
  stub list. Every refusal is a value: the text recorded in the committed \<^verbatim>\<open>Failed\<close> outcome.
\<close>

section \<open>Ops, requests and responses\<close>

datatype restart = RestartStubAt nat | RestartAllStubs | RestartImposter | RestartUnknown

datatype recorded_stub_placement = BeforeProxy | AfterProxyMerging

record recorded_stub =
  rs_stub :: stub
  rs_placement :: recorded_stub_placement
  rs_proxy_to :: string
  rs_anchor_index :: "nat option"

datatype stub_edit =
    AddStub stub "nat option"
  | ReplaceById string stub
  | DeleteById string
  | DeleteBySpace string
  | MoveStub nat nat

type_synonym stub_edit_script = "stub_edit list"

datatype control_op =
    PutImposter imposter_config "restart option"
  | PatchStubs u16 stub_edit_script
  | DeleteImposter u16
  | DeleteAll
  | SetEnabled u16 bool
  | PutRoutes "route list"
  | DeleteRoute string
  | SessionKeyPut string
  | FleetNamePut string
  | ProxyRecorded u16 string recorded_response "recorded_stub option"
  | ProxyRecordedClear u16

text \<open>\<^verbatim>\<open>op_id\<close> is a UUID; the store uses it only in its text form.\<close>

record control_request =
  op_id :: string
  principal :: "string option"
  issued_at_secs :: u64
  expected_revision :: "u64 option"
  expect_absent :: bool
  op :: control_op

datatype control_outcome = Applied | Failed string

record control_response =
  revision :: u64
  outcome :: control_outcome

definition response_applied :: "u64 \<Rightarrow> control_response" where
  "response_applied r = \<lparr>revision = r, outcome = Applied\<rparr>"

definition response_failed :: "u64 \<Rightarrow> string \<Rightarrow> control_response" where
  "response_failed r reason = \<lparr>revision = r, outcome = Failed reason\<rparr>"

record session_key =
  sk_key :: string
  sk_revision :: u64

definition SESSION_KEY_BYTES :: nat where "SESSION_KEY_BYTES = 32"
definition MAX_LOG_PAYLOAD_BYTES :: nat where "MAX_LOG_PAYLOAD_BYTES = 10 * 1024 * 1024"
definition MAX_ENTRY_BYTES :: nat where "MAX_ENTRY_BYTES = 8 * 1024 * 1024"
definition MAX_FLEET_NAME_CHARS :: nat where "MAX_FLEET_NAME_CHARS = 128"

fun op_kind :: "control_op \<Rightarrow> string" where
  "op_kind (PutImposter _ _) = ''PutImposter''"
| "op_kind (PatchStubs _ _) = ''PatchStubs''"
| "op_kind (DeleteImposter _) = ''DeleteImposter''"
| "op_kind DeleteAll = ''DeleteAll''"
| "op_kind (SetEnabled _ _) = ''SetEnabled''"
| "op_kind (PutRoutes _) = ''PutRoutes''"
| "op_kind (DeleteRoute _) = ''DeleteRoute''"
| "op_kind (SessionKeyPut _) = ''SessionKeyPut''"
| "op_kind (FleetNamePut _) = ''FleetNamePut''"
| "op_kind (ProxyRecorded _ _ _ _) = ''ProxyRecorded''"
| "op_kind (ProxyRecordedClear _) = ''ProxyRecordedClear''"

section \<open>Clearing saved proxy responses\<close>

text \<open>One pass of the \<^verbatim>\<open>retain_mut\<close> closure over a stub: whether it is kept, what it becomes, and
  whether the pass stripped a response from it.\<close>

definition strip_stub :: "'a upstream_scheme \<Rightarrow> stub \<Rightarrow> bool \<times> stub \<times> bool" where
  "strip_stub U s =
     (if \<not> list_ex (is_recorded U) (stub_responses s)
      then (stub_recorded_from s = None, s, False)
      else (let s' = s\<lparr>stub_responses := filter (\<lambda>r. \<not> is_recorded U r) (stub_responses s)\<rparr>
            in (stub_responses s' \<noteq> [], s', True)))"

definition strip_proxy_responses :: "'a upstream_scheme \<Rightarrow> stub list \<Rightarrow> stub list \<times> bool" where
  "strip_proxy_responses U stubs =
     (let passes = map (strip_stub U) stubs;
          kept = map (\<lambda>p. fst (snd p)) (filter fst passes)
      in (kept, list_ex (\<lambda>p. snd (snd p)) passes \<or> length kept \<noteq> length stubs))"

section \<open>The admission verdict and its cache\<close>

definition VERDICT_CACHE_ENTRIES :: nat where "VERDICT_CACHE_ENTRIES = 256"

definition carries_key :: "imposter_config \<Rightarrow> bool" where
  "carries_key config =
     list_ex (\<lambda>s. list_ex (\<lambda>r. case r of Proxy _ key _ \<Rightarrow> key \<noteq> None | OtherResponse _ \<Rightarrow> False)
                          (stub_responses s))
             (ic_stubs config)"

text \<open>
  \<open>to_vec\<close> is the config's serialization, which may fail, and \<open>xxh64\<close> the hash of its bytes. The
  cache is the process-wide map; it is returned updated.
\<close>

definition admission_verdict ::
  "'a upstream_scheme \<Rightarrow> (imposter_config \<Rightarrow> 'b option) \<Rightarrow> ('b \<Rightarrow> u64) \<Rightarrow>
   (u64, unit result) table \<Rightarrow> imposter_config \<Rightarrow> unit result \<times> (u64, unit result) table" where
  "admission_verdict U to_vec xxh64 cache config =
     (if \<not> carries_key config then (admission_check U config, cache)
      else case to_vec config of
        None \<Rightarrow> (admission_check U config, cache)
      | Some bytes \<Rightarrow>
          (let key = xxh64 bytes in
           case tget cache key of
             Some verdict \<Rightarrow> (verdict, cache)
           | None \<Rightarrow>
               (let verdict = admission_check U config;
                    cache' = (if VERDICT_CACHE_ENTRIES \<le> length cache then [] else cache)
                in (verdict, tput key verdict cache'))))"

section \<open>The wire form of a recorded response\<close>

text \<open>\<^verbatim>\<open>recorded_response_wire\<close>: the body travels as base64 text; a reader also accepts the
  integer array written before that form.\<close>

datatype wire_body = EncodedBody string | BytesBody "u8 list"

record wire_response =
  wr_status :: u16
  wr_headers :: "(string \<times> string) list"
  wr_body :: wire_body
  wr_latency_ms :: "u64 option"
  wr_timestamp_secs :: u64

definition wire_serialize :: "(u8 list \<Rightarrow> string) \<Rightarrow> recorded_response \<Rightarrow> wire_response" where
  "wire_serialize b64_encode r =
     \<lparr>wr_status = resp_status r, wr_headers = resp_headers r,
      wr_body = EncodedBody (b64_encode (resp_body r)),
      wr_latency_ms = resp_latency_ms r, wr_timestamp_secs = resp_timestamp_secs r\<rparr>"

fun wire_body_decode :: "(string \<Rightarrow> u8 list result) \<Rightarrow> wire_body \<Rightarrow> u8 list result" where
  "wire_body_decode b64_decode (EncodedBody text) = b64_decode text"
| "wire_body_decode b64_decode (BytesBody bytes) = Inr bytes"

definition wire_deserialize :: "(string \<Rightarrow> u8 list result) \<Rightarrow> wire_response \<Rightarrow> recorded_response result" where
  "wire_deserialize b64_decode w =
     (case wire_body_decode b64_decode (wr_body w) of
        Inl e \<Rightarrow> Inl e
      | Inr body \<Rightarrow>
          Inr \<lparr>resp_status = wr_status w, resp_headers = wr_headers w, resp_body = body,
               resp_latency_ms = wr_latency_ms w, resp_timestamp_secs = wr_timestamp_secs w\<rparr>)"

section \<open>Admission by serialized size\<close>

record entry_too_large =
  etl_size :: nat
  etl_limit :: nat

text \<open>\<open>serialized_size\<close> is what the counting writer reads, \<open>None\<close> when serde refuses the value;
  \<^verbatim>\<open>usize::MAX\<close> stands for the unmeasurable size.\<close>

definition admit_entry_size :: "(control_request \<Rightarrow> nat option) \<Rightarrow> control_request \<Rightarrow> entry_too_large + nat" where
  "admit_entry_size serialized_size request =
     (case serialized_size request of
        None \<Rightarrow> Inl \<lparr>etl_size = 2 ^ 64 - 1, etl_limit = MAX_ENTRY_BYTES\<rparr>
      | Some n \<Rightarrow>
          if n > MAX_ENTRY_BYTES then Inl \<lparr>etl_size = n, etl_limit = MAX_ENTRY_BYTES\<rparr> else Inr n)"

section \<open>Hexadecimal\<close>

definition hex_val :: "char \<Rightarrow> nat option" where
  "hex_val c =
     (if is_ascii_digit c then Some (of_char c - 48)
      else if CHR ''a'' \<le> c \<and> c \<le> CHR ''f'' then Some (of_char c - 87)
      else if CHR ''A'' \<le> c \<and> c \<le> CHR ''F'' then Some (of_char c - 55)
      else None)"

text \<open>\<^verbatim>\<open>u8::from_str_radix(_, 16)\<close>, which takes a leading plus sign.\<close>

fun hex_digits_val :: "nat \<Rightarrow> string \<Rightarrow> nat option" where
  "hex_digits_val acc [] = Some acc"
| "hex_digits_val acc (c # s) =
     (case hex_val c of None \<Rightarrow> None
      | Some d \<Rightarrow> if acc * 16 + d < 256 then hex_digits_val (acc * 16 + d) s else None)"

definition from_str_radix_16 :: "string \<Rightarrow> u8 option" where
  "from_str_radix_16 s =
     (case s of [] \<Rightarrow> None
      | c # rest \<Rightarrow>
          if rest = [] \<and> (c = CHR ''+'' \<or> c = CHR ''-'') then None
          else map_option of_nat (hex_digits_val 0 (if c = CHR ''+'' then rest else s)))"

fun hex_pairs :: "string \<Rightarrow> u8 list option" where
  "hex_pairs [] = Some []"
| "hex_pairs [c] = None"
| "hex_pairs (c # d # s) =
     (case from_str_radix_16 [c, d] of None \<Rightarrow> None
      | Some b \<Rightarrow> map_option (\<lambda>bs. b # bs) (hex_pairs s))"

definition hex_decode :: "string \<Rightarrow> u8 list option" where
  "hex_decode s =
     (if odd (length s) then None
      else if \<not> list_all is_ascii_hexdigit s then None
      else hex_pairs s)"

section \<open>Validation\<close>

fun duplicate_id :: "string list \<Rightarrow> stub list \<Rightarrow> string option" where
  "duplicate_id seen [] = None"
| "duplicate_id seen (s # stubs) =
     (case stub_id s of
        None \<Rightarrow> duplicate_id seen stubs
      | Some i \<Rightarrow> if i \<in> set seen then Some i else duplicate_id (i # seen) stubs)"

definition validate_replicable_config :: "'a upstream_scheme \<Rightarrow> imposter_config \<Rightarrow> unit result" where
  "validate_replicable_config U config =
     (if ic_port config = None \<or> ic_port config = Some 0
      then Inl ''config must carry an explicit port: an auto-assigned port cannot replicate''
      else if ic_protocol config \<noteq> ''http'' \<and> ic_protocol config \<noteq> ''https''
      then Inl (''unsupported protocol '' @ debug_str (ic_protocol config))
      else case duplicate_id [] (ic_stubs config) of
        Some i \<Rightarrow> Inl (''duplicate stub id '' @ debug_str i)
      | None \<Rightarrow> flow_config_validate U config)"

definition validate_session_key :: "string \<Rightarrow> unit result" where
  "validate_session_key key =
     (case hex_decode key of
        None \<Rightarrow> Inl ''session key must be hex-encoded''
      | Some decoded \<Rightarrow>
          if length decoded \<noteq> SESSION_KEY_BYTES
          then Inl (''session key must be exactly 32 bytes, got '' @ show_nat (length decoded))
          else Inr ())"

definition validate_fleet_name :: "string \<Rightarrow> unit result" where
  "validate_fleet_name name =
     (if list_all is_whitespace (utf8_chars name)
      then Inl (''fleet name must not be empty or whitespace-only: a name a human cannot '' @
                ''read is the same confusion as no name at all'')
      else if length (utf8_chars name) > MAX_FLEET_NAME_CHARS
      then Inl (''fleet name is '' @ show_nat (length (utf8_chars name)) @ '' characters, over the 128 '' @
                ''character cap'')
      else if list_ex is_control (utf8_chars name)
      then Inl (''fleet name must not contain control characters: one could corrupt a log '' @
                ''line, a terminal, or the console's own chrome'')
      else Inr ())"

definition validate_proxy_recorded ::
  "u16 \<Rightarrow> string \<Rightarrow> recorded_response \<Rightarrow> recorded_stub option \<Rightarrow> unit result" where
  "validate_proxy_recorded port sig_hash resp rstub =
     (if port = 0 then Inl ''port must be non-zero: 0 addresses no imposter''
      else if sig_hash = [] \<or> hex_decode sig_hash = None
      then Inl ''sigHash must be a non-empty hex string''
      else if length (resp_body resp) > MAX_LOG_PAYLOAD_BYTES
      then Inl ''recorded response body exceeds the 10485760-byte log entry bound''
      else case rstub of
        Some recorded \<Rightarrow>
          if rs_proxy_to recorded = []
          then Inl (''proxyTo must not be empty: placement is resolved against the proxy '' @ ''stub it names'')
          else Inr ()
      | None \<Rightarrow> Inr ())"

fun validate :: "'a upstream_scheme \<Rightarrow> control_op \<Rightarrow> unit result" where
  "validate U (PutImposter config _) = validate_replicable_config U config"
| "validate U (PatchStubs _ _) = Inr ()"
| "validate U (DeleteImposter _) = Inr ()"
| "validate U DeleteAll = Inr ()"
| "validate U (SetEnabled _ _) = Inr ()"
| "validate U (DeleteRoute _) = Inr ()"
| "validate U (PutRoutes table) = validate_routes U table"
| "validate U (SessionKeyPut key) = validate_session_key key"
| "validate U (FleetNamePut name) = validate_fleet_name name"
| "validate U (ProxyRecorded port sig_hash resp rstub) = validate_proxy_recorded port sig_hash resp rstub"
| "validate U (ProxyRecordedClear port) =
     (if port = 0 then Inl ''port must be non-zero: 0 addresses no imposter to clear'' else Inr ())"

section \<open>Preconditions\<close>

datatype precond_target = TargetImposter u16 | TargetRouteTable

fun precondition_target :: "control_op \<Rightarrow> precond_target option" where
  "precondition_target (PutImposter config _) = map_option TargetImposter (ic_port config)"
| "precondition_target (PatchStubs port _) = Some (TargetImposter port)"
| "precondition_target (DeleteImposter port) = Some (TargetImposter port)"
| "precondition_target (SetEnabled port _) = Some (TargetImposter port)"
| "precondition_target (PutRoutes _) = Some TargetRouteTable"
| "precondition_target (DeleteRoute _) = Some TargetRouteTable"
| "precondition_target DeleteAll = None"
| "precondition_target (SessionKeyPut _) = None"
| "precondition_target (FleetNamePut _) = None"
| "precondition_target (ProxyRecorded _ _ _ _) = None"
| "precondition_target (ProxyRecordedClear _) = None"

section \<open>Stub edits\<close>

fun adds_content :: "stub_edit \<Rightarrow> bool" where
  "adds_content (AddStub _ _) = True"
| "adds_content (ReplaceById _ _) = True"
| "adds_content _ = False"

definition has_id :: "string \<Rightarrow> stub \<Rightarrow> bool" where
  "has_id i s \<longleftrightarrow> stub_id s = Some i"

definition bounds_text :: "nat \<Rightarrow> nat \<Rightarrow> string" where
  "bounds_text i len = ''move: index '' @ show_nat i @ '' out of bounds (len '' @ show_nat len @ '')''"

fun apply_edit_step :: "stub_edit \<Rightarrow> stub list \<Rightarrow> stub list result" where
  "apply_edit_step (AddStub s index) next =
     (case stub_id s of
        Some i \<Rightarrow>
          if list_ex (has_id i) next then Inl (''add: duplicate stub id '' @ debug_str i)
          else Inr (insert_at (min (case index of None \<Rightarrow> length next | Some n \<Rightarrow> n) (length next)) s next)
      | None \<Rightarrow> Inr (insert_at (min (case index of None \<Rightarrow> length next | Some n \<Rightarrow> n) (length next)) s next))"
| "apply_edit_step (ReplaceById i s) next =
     (case position (has_id i) next of
        None \<Rightarrow> Inl (''replace: no stub with id '' @ debug_str i)
      | Some n \<Rightarrow> Inr (next[n := s\<lparr>stub_id := Some i\<rparr>]))"
| "apply_edit_step (DeleteById i) next =
     (case position (has_id i) next of
        None \<Rightarrow> Inl (''delete: no stub with id '' @ debug_str i)
      | Some n \<Rightarrow> Inr (remove_at n next))"
| "apply_edit_step (DeleteBySpace space) next =
     Inr (filter (\<lambda>s. stub_space s \<noteq> Some space) next)"
| "apply_edit_step (MoveStub from to) next =
     (if length next \<le> from then Inl (bounds_text from (length next))
      else if length next \<le> to then Inl (bounds_text to (length next))
      else Inr (insert_at to (next ! from) (remove_at from next)))"

fun apply_steps :: "stub_edit list \<Rightarrow> stub list \<Rightarrow> stub list result" where
  "apply_steps [] next = Inr next"
| "apply_steps (step # steps) next =
     (case apply_edit_step step next of Inl e \<Rightarrow> Inl e | Inr next' \<Rightarrow> apply_steps steps next')"

text \<open>\<^verbatim>\<open>apply_edit(&mut stubs, script)\<close>: the steps run on a scratch copy, written back only when all
  of them succeeded; the caller's list is returned either way.\<close>

definition apply_edit :: "stub list \<Rightarrow> stub_edit_script \<Rightarrow> stub list \<times> unit result" where
  "apply_edit stubs script =
     (case apply_steps script stubs of Inl e \<Rightarrow> (stubs, Inl e) | Inr next \<Rightarrow> (next, Inr ()))"

definition edited_stubs :: "stub list \<Rightarrow> stub_edit_script \<Rightarrow> stub list result" where
  "edited_stubs stubs script =
     (case apply_edit stubs script of (_, Inl e) \<Rightarrow> Inl e | (next, Inr _) \<Rightarrow> Inr next)"

section \<open>Predicates of the specification\<close>

definition stub_ids :: "stub list \<Rightarrow> string list" where
  "stub_ids stubs = List.map_filter stub_id stubs"

definition distinct_ids :: "stub list \<Rightarrow> bool" where
  "distinct_ids stubs \<longleftrightarrow> distinct (stub_ids stubs)"

text \<open>Every entry is the verdict on some config that serializes to bytes of that hash.\<close>

definition cache_ok ::
  "'a upstream_scheme \<Rightarrow> (imposter_config \<Rightarrow> 'b option) \<Rightarrow> ('b \<Rightarrow> u64) \<Rightarrow> (u64, unit result) table \<Rightarrow> bool" where
  "cache_ok U to_vec xxh64 cache \<longleftrightarrow>
     (\<forall>key verdict. tget cache key = Some verdict \<longrightarrow>
        (\<exists>c bytes. to_vec c = Some bytes \<and> xxh64 bytes = key \<and> verdict = admission_check U c))"

section \<open>Lemmas: hexadecimal\<close>

lemma hex_val_bound:
  assumes "hex_val c = Some d" shows "d < 16"
proof -
  have "of_char c \<le> (57::nat) \<or> of_char c \<le> (102::nat) \<and> (87::nat) \<le> of_char c \<or> of_char c \<le> (70::nat)"
    if "hex_val c \<noteq> None"
    using that by (auto simp: hex_val_def is_ascii_digit_def less_eq_char_def split: if_splits)
  then show ?thesis using assms
    by (auto simp: hex_val_def is_ascii_digit_def less_eq_char_def split: if_splits)
qed

lemma hex_val_hexdigit: "hex_val c \<noteq> None \<longleftrightarrow> is_ascii_hexdigit c"
  by (auto simp: hex_val_def is_ascii_hexdigit_def)

lemma hexdigit_no_sign: "is_ascii_hexdigit c \<Longrightarrow> c \<noteq> CHR ''+'' \<and> c \<noteq> CHR ''-''"
  by (auto simp: is_ascii_hexdigit_def is_ascii_digit_def less_eq_char_def)

lemma from_str_radix_16_pair:
  assumes "is_ascii_hexdigit c" and "is_ascii_hexdigit d"
  shows "\<exists>b. from_str_radix_16 [c, d] = Some b"
proof -
  from assms obtain x y where xy: "hex_val c = Some x" "hex_val d = Some y"
    by (metis hex_val_hexdigit not_None_eq)
  then have "x < 16" "y < 16" by (auto dest: hex_val_bound)
  then have "x * 16 + y < 256" by simp
  with xy \<open>x < 16\<close> show ?thesis
    using hexdigit_no_sign [OF assms(1)] by (simp add: from_str_radix_16_def)
qed

lemma hex_pairs_total:
  "even (length s) \<Longrightarrow> list_all is_ascii_hexdigit s \<Longrightarrow>
     \<exists>bs. hex_pairs s = Some bs \<and> length s = 2 * length bs"
proof (induction s rule: hex_pairs.induct)
  case (3 c d s)
  then obtain b where "from_str_radix_16 [c, d] = Some b"
    using from_str_radix_16_pair by force
  moreover from this 3 obtain bs where "hex_pairs s = Some bs \<and> length s = 2 * length bs" by auto
  ultimately show ?case by simp
qed auto

lemma hex_decode_iff: "(\<exists>bs. hex_decode s = Some bs) \<longleftrightarrow> even (length s) \<and> list_all is_ascii_hexdigit s"
  using hex_pairs_total [of s] by (auto simp: hex_decode_def)

lemma hex_decode_length: "hex_decode s = Some bs \<Longrightarrow> length s = 2 * length bs"
  using hex_pairs_total [of s] by (auto simp: hex_decode_def split: if_splits)

lemma validate_session_key_iff:
  "validate_session_key key = Inr () \<longleftrightarrow> length key = 64 \<and> list_all is_ascii_hexdigit key"
proof (cases "hex_decode key")
  case None
  then have "\<not> (even (length key) \<and> list_all is_ascii_hexdigit key)"
    by (metis hex_decode_iff option.distinct(1))
  moreover have "even (length key)" if "length key = 64" using that by simp
  ultimately show ?thesis using None by (auto simp: validate_session_key_def)
next
  case (Some bs)
  then have "length key = 2 * length bs" "list_all is_ascii_hexdigit key"
    using hex_decode_length hex_decode_iff by blast+
  with Some show ?thesis by (auto simp: validate_session_key_def SESSION_KEY_BYTES_def)
qed

section \<open>Lemmas: explicit stub ids\<close>

lemma stub_ids_simps [simp]:
  "stub_ids [] = []"
  "stub_ids (s # stubs) = (case stub_id s of None \<Rightarrow> stub_ids stubs | Some i \<Rightarrow> i # stub_ids stubs)"
  "stub_ids (xs @ ys) = stub_ids xs @ stub_ids ys"
  by (auto simp: stub_ids_def List.map_filter_def split: option.splits)

lemma set_stub_ids: "i \<in> set (stub_ids stubs) \<longleftrightarrow> list_ex (has_id i) stubs"
  by (induction stubs) (auto simp: has_id_def split: option.splits)

lemma duplicate_id_None:
  "duplicate_id seen stubs = None \<longleftrightarrow> distinct (stub_ids stubs) \<and> set (stub_ids stubs) \<inter> set seen = {}"
  by (induction seen stubs rule: duplicate_id.induct) (auto split: option.splits)

lemma distinct_ids_insert_at:
  assumes "distinct_ids stubs" and "\<And>i. stub_id s = Some i \<Longrightarrow> i \<notin> set (stub_ids stubs)"
  shows "distinct_ids (insert_at n s stubs)"
proof -
  have "stub_ids stubs = stub_ids (take n stubs) @ stub_ids (drop n stubs)"
    by (metis append_take_drop_id stub_ids_simps(3))
  with assms show ?thesis
    by (auto simp: distinct_ids_def insert_at_def split: option.splits)
qed

lemma distinct_ids_remove_at:
  assumes "distinct_ids stubs" shows "distinct_ids (remove_at n stubs)"
proof (cases "n < length stubs")
  case True
  have "stub_ids stubs = stub_ids (take n stubs) @ stub_ids (stubs ! n # drop (Suc n) stubs)"
    by (metis True id_take_nth_drop stub_ids_simps(3))
  with assms show ?thesis
    by (auto simp: distinct_ids_def remove_at_def split: option.splits)
next
  case False
  with assms show ?thesis by (simp add: remove_at_def)
qed

lemma nth_has_unique_id:
  assumes "distinct_ids stubs" and "n < length stubs" and "stub_id (stubs ! n) = Some i"
  shows "i \<notin> set (stub_ids (remove_at n stubs))"
proof -
  have "stub_ids stubs = stub_ids (take n stubs) @ stub_ids (stubs ! n # drop (Suc n) stubs)"
    by (metis assms(2) id_take_nth_drop stub_ids_simps(3))
  with assms show ?thesis by (auto simp: distinct_ids_def remove_at_def)
qed

lemma list_update_insert_remove:
  "n < length xs \<Longrightarrow> xs[n := x] = insert_at n x (remove_at n xs)"
  by (simp add: insert_at_def remove_at_def upd_conv_take_nth_drop min_def)

lemma distinct_ids_filter: "distinct_ids stubs \<Longrightarrow> distinct_ids (filter P stubs)"
proof (induction stubs)
  case (Cons s stubs)
  have "set (stub_ids (filter P stubs)) \<subseteq> set (stub_ids stubs)"
    by (auto simp: set_stub_ids list_ex_iff)
  with Cons show ?case by (auto simp: distinct_ids_def split: option.splits)
qed simp

lemma apply_edit_step_distinct:
  assumes "distinct_ids stubs" and "apply_edit_step step stubs = Inr stubs'"
  shows "distinct_ids stubs'"
proof (cases step)
  case (AddStub s index)
  with assms show ?thesis
    by (auto split: option.splits if_splits simp: set_stub_ids intro!: distinct_ids_insert_at)
next
  case (ReplaceById i s)
  with assms(2) obtain n where n: "position (has_id i) stubs = Some n"
    and eq: "stubs' = stubs[n := s\<lparr>stub_id := Some i\<rparr>]"
    by (auto split: option.splits)
  then have "n < length stubs" "stub_id (stubs ! n) = Some i"
    by (auto simp: position_Some has_id_def)
  with assms(1) show ?thesis
    by (auto simp: eq list_update_insert_remove intro!: distinct_ids_insert_at distinct_ids_remove_at
        dest: nth_has_unique_id)
next
  case (DeleteById i)
  with assms show ?thesis by (auto split: option.splits intro: distinct_ids_remove_at)
next
  case (DeleteBySpace space)
  with assms show ?thesis by (auto intro: distinct_ids_filter)
next
  case (MoveStub src dst)
  with assms(2) have "src < length stubs" and eq: "stubs' = insert_at dst (stubs ! src) (remove_at src stubs)"
    by (auto split: if_splits)
  with assms(1) show ?thesis
    by (auto simp: eq intro!: distinct_ids_insert_at distinct_ids_remove_at dest: nth_has_unique_id)
qed

lemma apply_steps_distinct:
  "distinct_ids stubs \<Longrightarrow> apply_steps script stubs = Inr stubs' \<Longrightarrow> distinct_ids stubs'"
  by (induction script arbitrary: stubs) (auto split: sum.splits dest: apply_edit_step_distinct)

text \<open>A move neither drops nor duplicates a stub, and moving it back undoes it.\<close>

lemma move_back:
  assumes "apply_edit_step (MoveStub from to) stubs = Inr stubs'"
  shows "apply_edit_step (MoveStub to from) stubs' = Inr stubs"
proof -
  have b: "from < length stubs" "to < length stubs"
    and eq: "stubs' = insert_at to (stubs ! from) (remove_at from stubs)"
    using assms by (auto split: if_splits)
  have len: "length (remove_at from stubs) = length stubs - 1"
    using b by (simp add: remove_at_def)
  then have "stubs' ! to = stubs ! from" and "remove_at to stubs' = remove_at from stubs"
    using b by (simp_all add: eq nth_insert_at remove_insert_at)
  moreover have "length stubs' = length stubs" using b len by (simp add: eq)
  ultimately show ?thesis using b by (simp add: insert_remove_at)
qed

section \<open>Lemmas: clearing saved proxy responses\<close>

lemma strip_stub_clean:
  "fst (strip_stub U s) \<Longrightarrow> \<not> list_ex (is_recorded U) (stub_responses (fst (snd (strip_stub U s))))"
  by (auto simp: strip_stub_def Let_def list_ex_iff split: if_splits)

lemma strip_clean:
  "s \<in> set (fst (strip_proxy_responses U stubs)) \<Longrightarrow> \<not> list_ex (is_recorded U) (stub_responses s)"
  using strip_stub_clean [of U] by (auto simp: strip_proxy_responses_def Let_def)

lemma strip_stub_unchanged:
  "strip_stub U s = (k, s', False) \<Longrightarrow> s' = s"
  by (auto simp: strip_stub_def Let_def split: if_splits)

lemma strip_stub_changed:
  assumes "strip_stub U s = (k, s', True)" shows "s' \<noteq> s"
proof -
  have "list_ex (is_recorded U) (stub_responses s)"
    and s': "s' = s\<lparr>stub_responses := filter (\<lambda>r. \<not> is_recorded U r) (stub_responses s)\<rparr>"
    using assms by (auto simp: strip_stub_def Let_def split: if_splits)
  then have "filter (\<lambda>r. \<not> is_recorded U r) (stub_responses s) \<noteq> stub_responses s"
    by (auto simp: list_ex_iff filter_id_conv)
  then show ?thesis by (metis s' stub.select_convs(4) stub.surjective stub.update_convs(4))
qed

lemma map_fix_iff: "map g xs = xs \<longleftrightarrow> (\<forall>x \<in> set xs. g x = x)"
  by (induction xs) auto

lemma strip_stub_flag: "snd (snd (strip_stub U s)) \<longleftrightarrow> fst (snd (strip_stub U s)) \<noteq> s"
  by (metis prod.collapse strip_stub_changed strip_stub_unchanged)

lemma strip_flag_iff: "snd (strip_proxy_responses U stubs) \<longleftrightarrow> fst (strip_proxy_responses U stubs) \<noteq> stubs"
proof -
  let ?passes = "map (strip_stub U) stubs"
  let ?kept = "map (\<lambda>p. fst (snd p)) (filter fst ?passes)"
  show ?thesis
  proof (cases "length ?kept = length stubs")
    case True
    then have all: "\<forall>p \<in> set ?passes. fst p"
      by (metis length_filter_less length_map less_irrefl)
    then have kept: "?kept = map (\<lambda>s. fst (snd (strip_stub U s))) stubs"
      by (simp add: filter_map o_def)
    have "(\<exists>s \<in> set stubs. snd (snd (strip_stub U s))) \<longleftrightarrow>
          (\<exists>s \<in> set stubs. fst (snd (strip_stub U s)) \<noteq> s)"
      by (simp add: strip_stub_flag)
    also have "\<dots> \<longleftrightarrow> ?kept \<noteq> stubs"
      by (simp add: kept map_fix_iff)
    finally show ?thesis using True by (simp add: strip_proxy_responses_def Let_def list_ex_iff)
  next
    case False
    then have "?kept \<noteq> stubs" by (metis (no_types))
    with False show ?thesis by (simp add: strip_proxy_responses_def Let_def)
  qed
qed

section \<open>Lemmas: the verdict cache\<close>

lemma admission_verdict_cache_ok:
  assumes "cache_ok U to_vec xxh64 cache"
  shows "cache_ok U to_vec xxh64 (snd (admission_verdict U to_vec xxh64 cache config))"
  using assms by (auto simp: admission_verdict_def cache_ok_def Let_def split: option.splits)

lemma admission_verdict_bounded:
  assumes "length cache \<le> VERDICT_CACHE_ENTRIES"
  shows "length (snd (admission_verdict U to_vec xxh64 cache config)) \<le> VERDICT_CACHE_ENTRIES"
proof -
  have "length (tput k v t) \<le> Suc (length t)" for k :: u64 and v :: "unit result" and t
    by (induction t) auto
  from this [of _ _ cache] show ?thesis using assms
    by (auto simp: admission_verdict_def Let_def VERDICT_CACHE_ENTRIES_def split: option.splits)
       (meson le_antisym le_trans not_less_eq_eq)
qed

end
