(* ===== verification/Recordings.thy ===== *)
theory Recordings
  imports Control
begin

text \<open>
  Recorded proxy stubs (\<^verbatim>\<open>crates/rift-cluster/src/raft/store.rs\<close>, the free functions before the
  stores): the ids recorded stubs carry, which recordings an edit of a stub list orphans, and where
  a recording is placed in a stub list. All three are pure functions of the stub lists, so that
  every replica computes the same result.
\<close>

section \<open>Recorded stub ids\<close>

definition RECORDED_STUB_ID_PREFIX :: string where
  "RECORDED_STUB_ID_PREFIX = ''proxy-recorded-''"

definition lower_hex :: "char \<Rightarrow> bool" where
  "lower_hex c \<longleftrightarrow> is_ascii_digit c \<or> (CHR ''a'' \<le> c \<and> c \<le> CHR ''f'')"

text \<open>The signature hash and the rank an id names: \<open>0\<close> for the base id, \<open>n\<close> for the suffix
  \<^verbatim>\<open>-r{n}\<close>.\<close>

definition recorded_id :: "string \<Rightarrow> (string \<times> u64) option" where
  "recorded_id i =
     (case strip_prefix RECORDED_STUB_ID_PREFIX i of
        None \<Rightarrow> None
      | Some rest \<Rightarrow>
          (case (case split_once ''-r'' rest of
                   Some (hash, n) \<Rightarrow>
                     if n \<noteq> [] \<and> list_all is_ascii_digit n
                     then map_option (\<lambda>rank. (hash, rank)) (parse_u64 n)
                     else None
                 | None \<Rightarrow> Some (rest, 0)) of
             None \<Rightarrow> None
           | Some (hash, rank) \<Rightarrow>
               if hash \<noteq> [] \<and> list_all lower_hex hash then Some (hash, rank) else None))"

definition recorded_sig_hash :: "string \<Rightarrow> string option" where
  "recorded_sig_hash i = map_option fst (recorded_id i)"

section \<open>Orphaned recordings\<close>

definition stub_recorded_id :: "stub \<Rightarrow> (string \<times> u64) option" where
  "stub_recorded_id s = Option.bind (stub_id s) recorded_id"

text \<open>The newest stub of each hash: the one of the highest rank, the first of them on a tie.\<close>

fun newest_step :: "stub \<Rightarrow> (string, u64 \<times> stub) table \<Rightarrow> (string, u64 \<times> stub) table" where
  "newest_step s newest =
     (case stub_recorded_id s of
        None \<Rightarrow> newest
      | Some (hash, rank) \<Rightarrow>
          (case tget newest hash of
             None \<Rightarrow> tput hash (rank, s) newest
           | Some (seen, _) \<Rightarrow> if seen < rank then tput hash (rank, s) newest else newest))"

definition newest_recordings :: "stub list \<Rightarrow> (string, u64 \<times> stub) table" where
  "newest_recordings before = fold newest_step before []"

definition stub_kept :: "'a upstream_scheme \<Rightarrow> stub list \<Rightarrow> stub \<Rightarrow> bool" where
  "stub_kept U after s \<longleftrightarrow>
     list_ex (\<lambda>candidate. stub_id candidate = stub_id s \<and> stub_to_value U candidate = stub_to_value U s) after"

definition orphaned_recordings :: "'a upstream_scheme \<Rightarrow> stub list \<Rightarrow> stub list \<Rightarrow> string list" where
  "orphaned_recordings U before after =
     map fst (filter (\<lambda>(hash, rank, s). \<not> stub_kept U after s) (newest_recordings before))"

section \<open>Placement\<close>

datatype placed_recording =
    Inserted nat
  | MergedInto nat string
  | MergedAnonymous

definition proxies_to :: "string \<Rightarrow> stub \<Rightarrow> bool" where
  "proxies_to target s =
     list_ex (\<lambda>r. case r of Proxy to _ _ \<Rightarrow> to = target | OtherResponse _ \<Rightarrow> False) (stub_responses s)"

definition find_anchor :: "stub list \<Rightarrow> string \<Rightarrow> nat option \<Rightarrow> nat option" where
  "find_anchor stubs target anchor_index =
     (case (case anchor_index of None \<Rightarrow> None | Some n \<Rightarrow> position_from (proxies_to target) n stubs) of
        Some a \<Rightarrow> Some a
      | None \<Rightarrow> position (proxies_to target) stubs)"

definition merge_responses :: "stub \<Rightarrow> stub \<Rightarrow> stub" where
  "merge_responses existing s = existing\<lparr>stub_responses := stub_responses existing @ stub_responses s\<rparr>"

definition place_recorded_stub ::
  "stub list \<Rightarrow> stub \<Rightarrow> recorded_stub_placement \<Rightarrow> string \<Rightarrow> nat option \<Rightarrow> stub list \<times> placed_recording" where
  "place_recorded_stub stubs s placement target anchor_index =
     (let anchor = find_anchor stubs target anchor_index in
      case placement of
        BeforeProxy \<Rightarrow>
          (let index = (case anchor of None \<Rightarrow> length stubs | Some a \<Rightarrow> a)
           in (insert_at index s stubs, Inserted index))
      | AfterProxyMerging \<Rightarrow>
          (let start = (case anchor of None \<Rightarrow> 0 | Some a \<Rightarrow> a + 1) in
           case position_from (\<lambda>existing. stub_predicates existing = stub_predicates s) start stubs of
             Some idx \<Rightarrow>
               (stubs[idx := merge_responses (stubs ! idx) s],
                case stub_id (stubs ! idx) of
                  Some i \<Rightarrow> MergedInto idx i
                | None \<Rightarrow> MergedAnonymous)
           | None \<Rightarrow> (stubs @ [s], Inserted (length stubs))))"

text \<open>The id a recording without one is given: the base id, or the base id with the applying log
  index where a stub of the same hash is already in the list.\<close>

definition recorded_base_id :: "string \<Rightarrow> string" where
  "recorded_base_id sig_hash = RECORDED_STUB_ID_PREFIX @ sig_hash"

definition hash_taken :: "stub list \<Rightarrow> string \<Rightarrow> bool" where
  "hash_taken stubs sig_hash =
     list_ex (\<lambda>s. Option.bind (stub_id s) recorded_sig_hash = Some sig_hash) stubs"

definition assign_recorded_id :: "stub list \<Rightarrow> string \<Rightarrow> u64 \<Rightarrow> stub \<Rightarrow> stub" where
  "assign_recorded_id stubs sig_hash index s =
     (if stub_id s = None
      then s\<lparr>stub_id := Some (if hash_taken stubs sig_hash
                               then recorded_base_id sig_hash @ ''-r'' @ show_word index
                               else recorded_base_id sig_hash)\<rparr>
      else s)"

section \<open>Predicates of the specification\<close>

definition newest_of :: "stub list \<Rightarrow> string \<Rightarrow> u64 \<Rightarrow> stub \<Rightarrow> bool" where
  "newest_of stubs hash rank s \<longleftrightarrow>
     s \<in> set stubs \<and> stub_recorded_id s = Some (hash, rank) \<and>
     (\<forall>s' \<in> set stubs. \<forall>rank'. stub_recorded_id s' = Some (hash, rank') \<longrightarrow> rank' \<le> rank)"

fun newest_entry :: "stub list \<Rightarrow> string \<Rightarrow> (u64 \<times> stub) option \<Rightarrow> bool" where
  "newest_entry stubs hash None = (\<forall>s \<in> set stubs. \<forall>rank. stub_recorded_id s \<noteq> Some (hash, rank))"
| "newest_entry stubs hash (Some (rank, s)) = newest_of stubs hash rank s"

definition newest_inv :: "stub list \<Rightarrow> (string, u64 \<times> stub) table \<Rightarrow> bool" where
  "newest_inv stubs t \<longleftrightarrow> twf t \<and> (\<forall>hash. newest_entry stubs hash (tget t hash))"

section \<open>Lemmas: recorded ids\<close>

lemma split_once_absent:
  assumes "CHR ''-'' \<notin> set s" shows "split_once ''-r'' s = None"
  using assms by (induction s) (auto simp: starts_with_def)

lemma split_once_first:
  assumes "CHR ''-'' \<notin> set a" shows "split_once ''-r'' (a @ ''-r'' @ b) = Some (a, b)"
  using assms by (induction a) (auto simp: starts_with_def)

lemma lower_hex_no_dash: "list_all lower_hex hash \<Longrightarrow> CHR ''-'' \<notin> set hash"
  by (auto simp: list_all_iff lower_hex_def is_ascii_digit_def less_eq_char_def)

lemma recorded_id_base:
  assumes "hash \<noteq> []" and "list_all lower_hex hash"
  shows "recorded_id (recorded_base_id hash) = Some (hash, 0)"
  using assms by (simp add: recorded_id_def recorded_base_id_def split_once_absent lower_hex_no_dash)

lemma recorded_id_ranked:
  assumes "hash \<noteq> []" and "list_all lower_hex hash"
  shows "recorded_id (recorded_base_id hash @ ''-r'' @ show_word index) = Some (hash, index)"
proof -
  have "split_once ''-r'' (hash @ ''-r'' @ show_word index) = Some (hash, show_word index)"
    by (rule split_once_first) (rule lower_hex_no_dash [OF assms(2)])
  moreover have "show_word index \<noteq> []" "list_all is_ascii_digit (show_word index)"
    using show_nat_digits by auto
  ultimately show ?thesis using assms
    by (simp add: recorded_id_def recorded_base_id_def)
qed

lemma recorded_id_Some:
  assumes "recorded_id i = Some (hash, rank)"
  shows "hash \<noteq> [] \<and> list_all lower_hex hash \<and>
         (i = recorded_base_id hash \<and> rank = 0 \<or>
          (\<exists>n. i = recorded_base_id hash @ ''-r'' @ n \<and> parse_u64 n = Some rank))"
proof -
  obtain rest where rest: "i = RECORDED_STUB_ID_PREFIX @ rest"
    and inner: "(case split_once ''-r'' rest of
                   Some (hash, n) \<Rightarrow>
                     if n \<noteq> [] \<and> list_all is_ascii_digit n
                     then map_option (\<lambda>rank. (hash, rank)) (parse_u64 n)
                     else None
                 | None \<Rightarrow> Some (rest, 0)) = Some (hash, rank)"
    and hash: "hash \<noteq> []" "list_all lower_hex hash"
    using assms by (auto simp: recorded_id_def strip_prefix_Some split: option.splits if_splits)
  show ?thesis
  proof (cases "split_once ''-r'' rest")
    case None
    with inner hash rest show ?thesis by (simp add: recorded_base_id_def)
  next
    case (Some p)
    obtain h n where p: "p = (h, n)" by (cases p)
    with Some inner have "parse_u64 n = Some rank" "h = hash"
      by (auto split: if_splits)
    moreover have "rest = h @ ''-r'' @ n" using Some p by (intro split_once_Some) simp
    ultimately show ?thesis using hash rest by (simp add: recorded_base_id_def)
  qed
qed

section \<open>Lemmas: the newest recording of a hash\<close>

lemma newest_entry_other:
  assumes "\<forall>rank. stub_recorded_id s \<noteq> Some (hash, rank)"
  shows "newest_entry (stubs @ [s]) hash e = newest_entry stubs hash e"
  using assms by (cases e) (auto simp: newest_of_def)

lemma newest_entry_own:
  assumes "newest_entry stubs h (tget t h)" and "stub_recorded_id s = Some (h, r)"
  shows "newest_entry (stubs @ [s]) h (tget (newest_step s t) h)"
proof (cases "tget t h")
  case None
  with assms show ?thesis by (auto simp: newest_of_def)
next
  case (Some q)
  obtain seen x where q: "q = (seen, x)" by (cases q)
  with Some assms have x: "newest_of stubs h seen x" by simp
  show ?thesis
  proof (cases "seen < r")
    case True
    with Some q assms(2) x show ?thesis by (auto simp: newest_of_def)
  next
    case False
    with Some q assms(2) x show ?thesis by (auto simp: newest_of_def)
  qed
qed

lemma newest_step_inv:
  assumes "newest_inv stubs t" shows "newest_inv (stubs @ [s]) (newest_step s t)"
proof -
  have "newest_entry (stubs @ [s]) hash (tget (newest_step s t) hash)" for hash
  proof (cases "\<exists>rank. stub_recorded_id s = Some (hash, rank)")
    case True
    with assms show ?thesis unfolding newest_inv_def by (blast intro: newest_entry_own)
  next
    case False
    then have "tget (newest_step s t) hash = tget t hash" by (auto split: option.splits)
    with False assms show ?thesis by (simp add: newest_entry_other newest_inv_def)
  qed
  moreover have "twf (newest_step s t)"
    using assms by (auto simp: newest_inv_def split: option.splits)
  ultimately show ?thesis by (simp add: newest_inv_def)
qed

lemma newest_fold_inv: "newest_inv stubs t \<Longrightarrow> newest_inv (stubs @ later) (fold newest_step later t)"
proof (induction later arbitrary: stubs t)
  case (Cons s later)
  from newest_step_inv [OF Cons.prems, of s] Cons.IH [of "stubs @ [s]" "newest_step s t"]
  show ?case by simp
qed simp

lemma newest_recordings_inv: "newest_inv stubs (newest_recordings stubs)"
  using newest_fold_inv [of "[]" "[]" stubs] by (simp add: newest_recordings_def newest_inv_def)

lemma newest_recordings_entry: "newest_entry stubs hash (tget (newest_recordings stubs) hash)"
  using newest_recordings_inv [of stubs] by (simp add: newest_inv_def)

lemma newest_recordings_Some:
  "tget (newest_recordings stubs) hash = Some (rank, s) \<Longrightarrow> newest_of stubs hash rank s"
  using newest_recordings_entry [of stubs hash] by simp

lemma newest_recordings_None:
  "tget (newest_recordings stubs) hash = None \<longleftrightarrow>
     (\<forall>s \<in> set stubs. \<forall>rank. stub_recorded_id s \<noteq> Some (hash, rank))"
proof (cases "tget (newest_recordings stubs) hash")
  case None
  with newest_recordings_entry [of stubs hash] show ?thesis by simp
next
  case (Some e)
  then show ?thesis by (cases e) (auto dest!: newest_recordings_Some simp: newest_of_def, blast)
qed

lemma set_orphaned_recordings:
  "hash \<in> set (orphaned_recordings U before after) \<longleftrightarrow>
     (\<exists>rank s. tget (newest_recordings before) hash = Some (rank, s) \<and> \<not> stub_kept U after s)"
  using newest_recordings_inv [of before]
  by (force simp: orphaned_recordings_def newest_inv_def twf_row [symmetric])

lemma stub_kept_member: "s \<in> set after \<Longrightarrow> stub_kept U after s"
  by (auto simp: stub_kept_def list_ex_iff)

lemma orphaned_none:
  assumes "set before \<subseteq> set after" shows "orphaned_recordings U before after = []"
proof -
  have "hash \<notin> set (orphaned_recordings U before after)" for hash
    using assms by (auto simp: set_orphaned_recordings newest_of_def dest!: newest_recordings_Some
        intro: stub_kept_member)
  then show ?thesis by (metis list.set_intros(1) neq_Nil_conv)
qed

section \<open>Lemmas: placement\<close>

lemma find_anchor_Some:
  "find_anchor stubs target n = Some a \<Longrightarrow> a < length stubs \<and> proxies_to target (stubs ! a)"
  by (auto simp: find_anchor_def position_Some position_from_Some split: option.splits)

lemma find_anchor_None:
  "find_anchor stubs target n = None \<longleftrightarrow> (\<forall>s \<in> set stubs. \<not> proxies_to target s)"
proof
  assume L: "\<forall>s \<in> set stubs. \<not> proxies_to target s"
  then have "find_anchor stubs target n \<noteq> Some a" for a
    using find_anchor_Some [of stubs target n a] by auto
  then show "find_anchor stubs target n = None" by (cases "find_anchor stubs target n") auto
qed (auto simp: find_anchor_def position_None split: option.splits)

lemma place_before_proxy:
  assumes "place_recorded_stub stubs s BeforeProxy target n = (stubs', placed)"
  obtains index where "placed = Inserted index" and "index \<le> length stubs"
    and "stubs' = insert_at index s stubs"
    and "index < length stubs \<longrightarrow> proxies_to target (stubs ! index)"
proof (cases "find_anchor stubs target n")
  case None
  with assms show ?thesis by (intro that [of "length stubs"]) (auto simp: place_recorded_stub_def Let_def)
next
  case (Some a)
  with assms find_anchor_Some [OF Some] show ?thesis
    by (intro that [of a]) (auto simp: place_recorded_stub_def Let_def)
qed

lemma stub_ids_update:
  assumes "stub_id x = stub_id (stubs ! n)" shows "stub_ids (stubs[n := x]) = stub_ids stubs"
proof (cases "n < length stubs")
  case True
  then have "stubs = take n stubs @ stubs ! n # drop (Suc n) stubs" by (simp add: id_take_nth_drop)
  then have "stub_ids stubs = stub_ids (take n stubs @ stubs ! n # drop (Suc n) stubs)" by simp
  with assms True show ?thesis by (simp add: upd_conv_take_nth_drop split: option.splits)
qed (simp add: list_update_beyond)

text \<open>The three shapes of a placement: the recording inserted whole, or its responses appended to
  one stub of the list.\<close>

lemma place_cases:
  assumes "place_recorded_stub stubs s placement target n = (stubs', placed)"
  obtains (Ins) index where "placed = Inserted index" "index \<le> length stubs"
      "stubs' = insert_at index s stubs"
    | (Mrg) index where "index < length stubs" "stubs' = stubs[index := merge_responses (stubs ! index) s]"
      "placed = (case stub_id (stubs ! index) of Some i \<Rightarrow> MergedInto index i | None \<Rightarrow> MergedAnonymous)"
      "stub_predicates (stubs ! index) = stub_predicates s" "placement = AfterProxyMerging"
proof (cases placement)
  case BeforeProxy
  with assms show ?thesis using Ins place_before_proxy [of stubs s target n stubs' placed] by blast
next
  case AfterProxyMerging
  define start where "start = (case find_anchor stubs target n of None \<Rightarrow> 0 | Some a \<Rightarrow> a + 1)"
  show ?thesis
  proof (cases "position_from (\<lambda>e. stub_predicates e = stub_predicates s) start stubs")
    case None
    with assms AfterProxyMerging show ?thesis
      by (intro Ins [of "length stubs"]) (auto simp: place_recorded_stub_def start_def insert_at_def Let_def)
  next
    case (Some idx)
    then have "idx < length stubs" "stub_predicates (stubs ! idx) = stub_predicates s"
      by (auto simp: position_from_Some)
    with Some assms AfterProxyMerging show ?thesis
      by (intro Mrg [of idx]) (auto simp: place_recorded_stub_def start_def Let_def)
  qed
qed

lemma merge_responses_id [simp]: "stub_id (merge_responses e s) = stub_id e"
  by (simp add: merge_responses_def)

lemma place_distinct:
  assumes "distinct_ids stubs" and "\<And>i. stub_id s = Some i \<Longrightarrow> i \<notin> set (stub_ids stubs)"
  shows "distinct_ids (fst (place_recorded_stub stubs s placement target n))"
proof -
  obtain stubs' placed where p: "place_recorded_stub stubs s placement target n = (stubs', placed)"
    by (cases "place_recorded_stub stubs s placement target n")
  then show ?thesis
  proof (cases rule: place_cases)
    case (Ins index)
    with p assms show ?thesis by (simp add: distinct_ids_insert_at)
  next
    case (Mrg index)
    with p assms show ?thesis by (simp add: distinct_ids_def stub_ids_update)
  qed
qed

section \<open>Lemmas: the id of a recording\<close>

lemma stub_id_in_ids: "s \<in> set stubs \<Longrightarrow> stub_id s = Some i \<Longrightarrow> i \<in> set (stub_ids stubs)"
  by (auto simp: set_stub_ids list_ex_iff has_id_def)

lemma in_stub_ids: "i \<in> set (stub_ids stubs) \<longleftrightarrow> (\<exists>s \<in> set stubs. stub_id s = Some i)"
  by (auto simp: set_stub_ids list_ex_iff has_id_def)

lemma assign_fresh:
  assumes hash: "hash \<noteq> []" "list_all lower_hex hash" and "stub_id s = None"
    and newer: "\<And>x rank. x \<in> set stubs \<Longrightarrow> stub_recorded_id x = Some (hash, rank) \<Longrightarrow> rank < index"
    and i: "stub_id (assign_recorded_id stubs hash index s) = Some i"
  shows "i \<notin> set (stub_ids stubs)"
proof
  assume "i \<in> set (stub_ids stubs)"
  then obtain x where x: "x \<in> set stubs" "stub_id x = Some i" by (auto simp: in_stub_ids)
  show False
  proof (cases "hash_taken stubs hash")
    case True
    with i assms have "i = recorded_base_id hash @ ''-r'' @ show_word index"
      by (simp add: assign_recorded_id_def)
    with x have "stub_recorded_id x = Some (hash, index)"
      by (simp add: stub_recorded_id_def recorded_id_ranked [OF hash, simplified])
    with newer x show False by blast
  next
    case False
    with i assms have "i = recorded_base_id hash" by (simp add: assign_recorded_id_def)
    with x hash have "Option.bind (stub_id x) recorded_sig_hash = Some hash"
      by (simp add: recorded_sig_hash_def recorded_id_base)
    with False x show False by (auto simp: hash_taken_def list_ex_iff)
  qed
qed

lemma assign_recorded_id_newest:
  assumes hash: "hash \<noteq> []" "list_all lower_hex hash" and "stub_id s = None"
  shows "stub_recorded_id (assign_recorded_id stubs hash index s) =
           Some (hash, if hash_taken stubs hash then index else 0)"
  using assms recorded_id_ranked [OF hash, of index] recorded_id_base [OF hash]
  by (simp add: assign_recorded_id_def stub_recorded_id_def)

section \<open>Lemmas: the incremental drive reproduces the placement\<close>

lemma position_has_id:
  assumes "distinct_ids stubs" and "n < length stubs" and "stub_id (stubs ! n) = Some i"
  shows "position (has_id i) stubs = Some n"
proof -
  have "\<not> has_id i (stubs ! j)" if "j < n" for j
  proof -
    have "remove_at n stubs ! j = stubs ! j"
      using that assms(2) by (simp add: remove_at_def nth_append)
    moreover have "j < length (remove_at n stubs)" using that assms(2) by (simp add: remove_at_def)
    ultimately have "stubs ! j \<in> set (remove_at n stubs)" by (metis nth_mem)
    with nth_has_unique_id [OF assms] show ?thesis by (auto simp: in_stub_ids has_id_def)
  qed
  with assms show ?thesis by (auto simp: position_Some has_id_def)
qed

lemma inserted_drive:
  assumes "place_recorded_stub stubs s placement target n = (stubs', Inserted index)"
    and "\<And>i. stub_id s = Some i \<Longrightarrow> i \<notin> set (stub_ids stubs)"
  shows "apply_edit stubs [AddStub (stubs' ! index) (Some index)] = (stubs', Inr ())"
  using assms(1)
proof (cases rule: place_cases)
  case (Ins index')
  then have "stubs' ! index = s" by (simp add: nth_insert_at)
  with Ins assms(2) show ?thesis
    by (auto simp: apply_edit_def set_stub_ids min_def split: option.splits)
next
  case (Mrg index')
  then show ?thesis by (simp split: option.splits)
qed

lemma merged_drive:
  assumes "place_recorded_stub stubs s placement target n = (stubs', MergedInto index i)"
    and "distinct_ids stubs"
  shows "apply_edit stubs [ReplaceById i (stubs' ! index)] = (stubs', Inr ())"
  using assms(1)
proof (cases rule: place_cases)
  case (Ins index')
  then show ?thesis by simp
next
  case (Mrg index')
  then have i: "stub_id (stubs ! index) = Some i" and "index' = index" by (auto split: option.splits)
  with Mrg have pos: "position (has_id i) stubs = Some index"
    using position_has_id [OF assms(2)] by simp
  have "(stubs' ! index)\<lparr>stub_id := Some i\<rparr> = stubs' ! index"
    using Mrg i \<open>index' = index\<close> by (simp add: merge_responses_def)
  with Mrg pos \<open>index' = index\<close> show ?thesis by (simp add: apply_edit_def)
qed

end
