(* ===== verification/StateMachine.thy ===== *)
theory StateMachine
  imports Recordings
begin

text \<open>
  The replicated state machine (\<^verbatim>\<open>crates/rift-cluster/src/raft/store.rs\<close>, \<^verbatim>\<open>RedbStateMachine\<close>): its
  tables, the precondition checks, one definition per arm of \<^verbatim>\<open>mutate_tables\<close>, and \<^verbatim>\<open>apply\<close>. Rows are
  JSON text, of the type \<open>'txt\<close>; \<^verbatim>\<open>serde_json\<close> is the fields \<open>ser_\<close> and \<open>de_\<close> of the record \<open>seams\<close>.
  An operation that refuses returns its reason together with the tables as it left them, so that a
  refusal changing nothing is a theorem and not a consequence of the types.
\<close>

section \<open>Rows\<close>

record 'txt stored_imposter =
  st_config :: 'txt
  st_enabled :: bool
  st_revision :: u64

record dedup_entry =
  dd_response :: control_response
  dd_expires_at_secs :: u64

text \<open>\<^verbatim>\<open>openraft\<close>'s log ids and memberships, the parts the store reads.\<close>

record log_id =
  lid_term :: u64
  lid_node :: u64
  lid_index :: u64

record membership =
  mb_configs :: "u64 list list"
  mb_nodes :: "(u64, string) table"

record stored_membership =
  stm_log_id :: "log_id option"
  stm_membership :: membership

record applied_state =
  last_applied_log :: "log_id option"
  last_membership :: stored_membership
  logical_clock_secs :: u64

definition applied_state_default :: applied_state where
  "applied_state_default =
     \<lparr>last_applied_log = None,
      last_membership = \<lparr>stm_log_id = None, stm_membership = \<lparr>mb_configs = [], mb_nodes = []\<rparr>\<rparr>,
      logical_clock_secs = 0\<rparr>"

definition DEDUP_TTL_SECS :: u64 where "DEDUP_TTL_SECS = 24 * 60 * 60"

text \<open>The serializers the store calls on rows; \<open>raw_value\<close>, \<open>ser_str\<close>, \<open>starts_quote\<close> and \<open>de_str\<close> are
  what the snapshot uses of \<^verbatim>\<open>RawValue\<close> and of a row's text.\<close>

record 'txt seams = upstream +
  ser_config :: "imposter_config \<Rightarrow> 'txt"
  de_config :: "'txt \<Rightarrow> imposter_config result"
  ser_stored :: "'txt stored_imposter \<Rightarrow> 'txt"
  de_stored :: "'txt \<Rightarrow> 'txt stored_imposter result"
  ser_route :: "route \<Rightarrow> 'txt"
  de_route :: "'txt \<Rightarrow> route result"
  ser_dedup :: "dedup_entry \<Rightarrow> 'txt"
  de_dedup :: "'txt \<Rightarrow> dedup_entry result"
  ser_session_key :: "session_key \<Rightarrow> 'txt"
  de_session_key :: "'txt \<Rightarrow> session_key result"
  ser_recorded :: "recorded_response \<Rightarrow> 'txt"
  raw_value :: "'txt \<Rightarrow> 'txt option"
  ser_str :: "'txt \<Rightarrow> 'txt"
  starts_quote :: "'txt \<Rightarrow> bool"
  de_str :: "'txt \<Rightarrow> 'txt result"

section \<open>Tables\<close>

text \<open>The one-row tables \<^verbatim>\<open>sm_routes_revision\<close>, \<^verbatim>\<open>sm_session_key\<close>, \<^verbatim>\<open>sm_fleet_name\<close> and \<^verbatim>\<open>sm_applied\<close>
  are options.\<close>

record 'txt tables =
  sm_configs :: "(u16, 'txt) table"
  sm_routes :: "(string, 'txt) table"
  sm_routes_revision :: "u64 option"
  sm_session_key :: "'txt option"
  sm_fleet_name :: "string option"
  sm_proxy_recorded :: "(u16 \<times> string, 'txt) table"
  sm_op_dedup :: "(string, 'txt) table"
  sm_applied :: "applied_state option"

definition empty_tables :: "'txt tables" where
  "empty_tables =
     \<lparr>sm_configs = [], sm_routes = [], sm_routes_revision = None, sm_session_key = None,
      sm_fleet_name = None, sm_proxy_recorded = [], sm_op_dedup = [], sm_applied = None\<rparr>"

definition read_applied :: "('txt, 'm) tables_scheme \<Rightarrow> applied_state" where
  "read_applied T = (case sm_applied T of None \<Rightarrow> applied_state_default | Some a \<Rightarrow> a)"

section \<open>Readers\<close>

definition read_config :: "('txt, 'a) seams_scheme \<Rightarrow> 'txt tables \<Rightarrow> u16 \<Rightarrow> storage_error + 'txt option" where
  "read_config S T port =
     (case tget (sm_configs T) port of
        None \<Rightarrow> Inr None
      | Some row \<Rightarrow>
          (case de_stored S row of
             Inl e \<Rightarrow> Inl (StorageRead e)
           | Inr stored \<Rightarrow> Inr (Some (st_config stored))))"

definition configured_ports :: "'txt tables \<Rightarrow> u16 list" where
  "configured_ports T = tkeys (sm_configs T)"

fun decode_routes :: "('txt, 'a) seams_scheme \<Rightarrow> (string, 'txt) table \<Rightarrow> (string \<times> string) + route list" where
  "decode_routes S [] = Inr []"
| "decode_routes S ((i, row) # rows) =
     (case de_route S row of
        Inl e \<Rightarrow> Inl (i, ''stored route will not parse: '' @ e)
      | Inr r \<Rightarrow> (case decode_routes S rows of Inl e \<Rightarrow> Inl e | Inr rs \<Rightarrow> Inr (r # rs)))"

definition route_table_with_revision ::
  "('txt, 'a) seams_scheme \<Rightarrow> 'txt tables \<Rightarrow> storage_error + (route list \<times> u64)" where
  "route_table_with_revision S T =
     (case decode_routes S (sm_routes T) of
        Inl (i, e) \<Rightarrow> Inl (StorageRead (''corrupt stored route '' @ i @ '': '' @ e))
      | Inr rs \<Rightarrow> Inr (rs, case sm_routes_revision T of None \<Rightarrow> 0 | Some r \<Rightarrow> r))"

definition imposter_revision :: "('txt, 'a) seams_scheme \<Rightarrow> 'txt tables \<Rightarrow> u16 \<Rightarrow> u64 option" where
  "imposter_revision S T port =
     (case tget (sm_configs T) port of
        None \<Rightarrow> None
      | Some row \<Rightarrow> (case de_stored S row of Inl _ \<Rightarrow> None | Inr stored \<Rightarrow> Some (st_revision stored)))"

definition read_session_key :: "('txt, 'a) seams_scheme \<Rightarrow> 'txt tables \<Rightarrow> storage_error + session_key option" where
  "read_session_key S T =
     (case sm_session_key T of
        None \<Rightarrow> Inr None
      | Some row \<Rightarrow> (case de_session_key S row of Inl e \<Rightarrow> Inl (StorageRead e) | Inr k \<Rightarrow> Inr (Some k)))"

definition proxy_recorded_resp :: "'txt tables \<Rightarrow> u16 \<Rightarrow> string \<Rightarrow> 'txt option" where
  "proxy_recorded_resp T port sig_hash = tget (sm_proxy_recorded T) (port, sig_hash)"

section \<open>The engine's view of the tables\<close>

record desired_set =
  ds_admitted :: "imposter_config list"
  ds_held :: "u16 list"
  ds_refused :: "(u16 \<times> string) list"

definition admit_row :: "('txt, 'a) seams_scheme \<Rightarrow> 'txt \<Rightarrow> imposter_config result" where
  "admit_row S row =
     (case de_stored S row of
        Inl e \<Rightarrow> Inl (''stored record will not parse: '' @ e)
      | Inr stored \<Rightarrow>
          (case de_config S (st_config stored) of
             Inl e \<Rightarrow> Inl (''stored config will not parse: '' @ e)
           | Inr config \<Rightarrow> (case admission_check S config of Inl e \<Rightarrow> Inl e | Inr _ \<Rightarrow> Inr config)))"

definition config_refusal :: "('txt, 'a) seams_scheme \<Rightarrow> 'txt tables \<Rightarrow> u16 \<Rightarrow> string option" where
  "config_refusal S T port =
     (case tget (sm_configs T) port of
        None \<Rightarrow> None
      | Some row \<Rightarrow> (case admit_row S row of Inl e \<Rightarrow> Some e | Inr _ \<Rightarrow> None))"

fun desired_configs :: "('txt, 'a) seams_scheme \<Rightarrow> (u16, 'txt) table \<Rightarrow> desired_set" where
  "desired_configs S [] = \<lparr>ds_admitted = [], ds_held = [], ds_refused = []\<rparr>"
| "desired_configs S ((port, row) # rows) =
     (let d = desired_configs S rows in
      case admit_row S row of
        Inr config \<Rightarrow> d\<lparr>ds_held := port # ds_held d, ds_admitted := config # ds_admitted d\<rparr>
      | Inl reason \<Rightarrow> d\<lparr>ds_held := port # ds_held d, ds_refused := (port, reason) # ds_refused d\<rparr>)"

datatype engine_action =
    Sync desired_set
  | PutAction imposter_config "restart option"
  | ClearProxyResponses u16
  | RestartAction u16 restart "stub list"
  | DeleteAction u16
  | PatchAction u16 stub_edit_script
  | AppendResponses u16 string "stub_response list" stub
  | SetEnabledAction u16 bool
  | SyncRoutes "route list"
  | RefuseRoutesSync string string

record attributed_action =
  aa_principal :: "string option"
  aa_action :: engine_action

definition sync_action :: "('txt, 'a) seams_scheme \<Rightarrow> (u16, 'txt) table \<Rightarrow> engine_action" where
  "sync_action S configs = Sync (desired_configs S configs)"

definition sync_routes_action :: "('txt, 'a) seams_scheme \<Rightarrow> (string, 'txt) table \<Rightarrow> engine_action" where
  "sync_routes_action S rows =
     (case decode_routes S rows of Inr table \<Rightarrow> SyncRoutes table | Inl (i, e) \<Rightarrow> RefuseRoutesSync i e)"

definition edit_drive :: "'a upstream_scheme \<Rightarrow> bool \<Rightarrow> imposter_config \<Rightarrow> engine_action \<Rightarrow> engine_action list" where
  "edit_drive U was_admitted config action =
     (case admission_check U config of
        Inl reason \<Rightarrow> []
      | Inr _ \<Rightarrow> if was_admitted then [action] else [PutAction config None])"

section \<open>Preconditions\<close>

definition check_expect_absent :: "'txt tables \<Rightarrow> control_op \<Rightarrow> unit result" where
  "check_expect_absent T cop =
     (case precondition_target cop of
        Some (TargetImposter port) \<Rightarrow>
          if tget (sm_configs T) port \<noteq> None
          then Inl (''Port '' @ show_word port @ '' is already in use'')
          else Inr ()
      | _ \<Rightarrow> Inl (''revision conflict: an absent-record precondition applies to single-imposter '' @
                  ''operations only''))"

definition check_expected_revision ::
  "('txt, 'a) seams_scheme \<Rightarrow> 'txt tables \<Rightarrow> control_op \<Rightarrow> u64 \<Rightarrow> unit result" where
  "check_expected_revision S T cop expected =
     (case precondition_target cop of
        None \<Rightarrow> Inl (''revision conflict: expected-revision preconditions apply to single-imposter and '' @
                     ''route-table operations only'')
      | Some (TargetImposter port) \<Rightarrow>
          (case tget (sm_configs T) port of
             None \<Rightarrow> Inl (''revision conflict: expected revision '' @ show_word expected @
                          '' but no imposter on port '' @ show_word port)
           | Some row \<Rightarrow>
               (case de_stored S row of
                  Inr record \<Rightarrow>
                    if st_revision record = expected then Inr ()
                    else Inl (''revision conflict: expected revision '' @ show_word expected @
                              '', stored revision '' @ show_word (st_revision record) @
                              '' on port '' @ show_word port)
                | Inl e \<Rightarrow> Inl (''corrupt stored record for port '' @ show_word port @ '': '' @ e)))
      | Some TargetRouteTable \<Rightarrow>
          (let actual = (case sm_routes_revision T of None \<Rightarrow> 0 | Some r \<Rightarrow> r) in
           if actual = expected then Inr ()
           else Inl (''revision conflict: expected revision '' @ show_word expected @
                     '', stored revision '' @ show_word actual @ '' for the route table'')))"

definition check_preconditions ::
  "('txt, 'a) seams_scheme \<Rightarrow> 'txt tables \<Rightarrow> control_request \<Rightarrow> unit result" where
  "check_preconditions S T request =
     (case (expected_revision request, expect_absent request) of
        (None, False) \<Rightarrow> Inr ()
      | (Some expected, False) \<Rightarrow> check_expected_revision S T (op request) expected
      | (None, True) \<Rightarrow> check_expect_absent T (op request)
      | (Some _, True) \<Rightarrow>
          Inl ''revision conflict: expect_absent and expected_revision cannot be combined'')"

section \<open>Mutations\<close>

text \<open>The tables an arm leaves behind, and its refusal or the drives it asks for.\<close>

type_synonym 'txt mutation = "'txt tables \<times> (string + engine_action list)"

text \<open>Reading a port's record and its config, as three of the arms do.\<close>

definition load_imposter ::
  "('txt, 'a) seams_scheme \<Rightarrow> 'txt tables \<Rightarrow> u16 \<Rightarrow> string + ('txt stored_imposter \<times> imposter_config)" where
  "load_imposter S T port =
     (case tget (sm_configs T) port of
        None \<Rightarrow> Inl (''no imposter on port '' @ show_word port)
      | Some row \<Rightarrow>
          (case de_stored S row of
             Inl e \<Rightarrow> Inl (''corrupt stored record for port '' @ show_word port @ '': '' @ e)
           | Inr record \<Rightarrow>
               (case de_config S (st_config record) of
                  Inl e \<Rightarrow> Inl (''corrupt stored config for port '' @ show_word port @ '': '' @ e)
                | Inr config \<Rightarrow> Inr (record, config))))"

definition store_imposter ::
  "('txt, 'a) seams_scheme \<Rightarrow> u16 \<Rightarrow> 'txt stored_imposter \<Rightarrow> imposter_config \<Rightarrow> u64 \<Rightarrow> 'txt tables \<Rightarrow> 'txt tables" where
  "store_imposter S port record config index T =
     T\<lparr>sm_configs := tput port (ser_stored S (record\<lparr>st_config := ser_config S config, st_revision := index\<rparr>))
                          (sm_configs T)\<rparr>"

definition forget_markers :: "u16 \<Rightarrow> string list \<Rightarrow> 'txt tables \<Rightarrow> 'txt tables" where
  "forget_markers port hashes T =
     T\<lparr>sm_proxy_recorded := fold (\<lambda>h. tdel (port, h)) hashes (sm_proxy_recorded T)\<rparr>"

definition forget_port :: "u16 \<Rightarrow> 'txt tables \<Rightarrow> 'txt tables" where
  "forget_port port T =
     T\<lparr>sm_proxy_recorded := tretain (\<lambda>k _. fst k \<noteq> port) (sm_proxy_recorded T)\<rparr>"

text \<open>The rows at or after \<^verbatim>\<open>(port, "")\<close> in key order.\<close>

definition markers_from :: "u16 \<Rightarrow> (u16 \<times> string, 'txt) table \<Rightarrow> (u16 \<times> string, 'txt) table" where
  "markers_from port t = filter (\<lambda>row. (port, '''') \<le> fst row) t"

definition has_markers :: "u16 \<Rightarrow> (u16 \<times> string, 'txt) table \<Rightarrow> bool" where
  "has_markers port t = (case markers_from port t of [] \<Rightarrow> False | row # _ \<Rightarrow> fst (fst row) = port)"

definition stub_less_markers :: "u16 \<Rightarrow> stub list \<Rightarrow> (u16 \<times> string, 'txt) table \<Rightarrow> string list" where
  "stub_less_markers port stubs t =
     filter (\<lambda>hash. \<not> hash_taken stubs hash)
       (map (\<lambda>row. snd (fst row)) (takeWhile (\<lambda>row. fst (fst row) = port) (markers_from port t)))"

definition forget_replaced ::
  "('txt, 'a) seams_scheme \<Rightarrow> u16 \<Rightarrow> imposter_config \<Rightarrow> 'txt tables \<Rightarrow> 'txt tables" where
  "forget_replaced S port config T =
     (if \<not> has_markers port (sm_proxy_recorded T) then T
      else case tget (sm_configs T) port of
        None \<Rightarrow> forget_port port T
      | Some row \<Rightarrow>
          (case de_stored S row of
             Inl _ \<Rightarrow> forget_port port T
           | Inr record \<Rightarrow>
               (case de_config S (st_config record) of
                  Inl _ \<Rightarrow> forget_port port T
                | Inr before \<Rightarrow>
                    forget_markers port (orphaned_recordings S (ic_stubs before) (ic_stubs config)) T)))"

definition put_imposter ::
  "('txt, 'a) seams_scheme \<Rightarrow> imposter_config \<Rightarrow> restart option \<Rightarrow> u64 \<Rightarrow> bool \<Rightarrow> 'txt tables \<Rightarrow> 'txt mutation" where
  "put_imposter S config restart index degraded T =
     (case ic_port config of
        None \<Rightarrow> (T, Inl ''config must carry an explicit port'')
      | Some port \<Rightarrow>
          (let T1 = forget_replaced S port config T;
               T2 = (if restart = Some RestartImposter
                     then forget_markers port
                            (stub_less_markers port (ic_stubs config) (sm_proxy_recorded T1)) T1
                     else T1);
               T3 = store_imposter S port
                      \<lparr>st_config = ser_config S config, st_enabled = ic_enabled config, st_revision = index\<rparr>
                      config index T2
           in (T3, Inr (if degraded
                        then sync_action S (sm_configs T3) #
                             (case restart of None \<Rightarrow> [] | Some r \<Rightarrow> [RestartAction port r (ic_stubs config)])
                        else [PutAction config restart]))))"

definition patch_stubs ::
  "('txt, 'a) seams_scheme \<Rightarrow> u16 \<Rightarrow> stub_edit_script \<Rightarrow> u64 \<Rightarrow> 'txt tables \<Rightarrow> 'txt mutation" where
  "patch_stubs S port edit index T =
     (case load_imposter S T port of
        Inl reason \<Rightarrow> (T, Inl reason)
      | Inr (record, config) \<Rightarrow>
          (case apply_edit (ic_stubs config) edit of
             (_, Inl reason) \<Rightarrow> (T, Inl reason)
           | (stubs, Inr _) \<Rightarrow>
               (let config' = config\<lparr>ic_stubs := stubs\<rparr>;
                    T1 = store_imposter S port record config' index T;
                    T2 = forget_markers port (orphaned_recordings S (ic_stubs config) stubs) T1
                in (T2, Inr (edit_drive S (\<not> isl (admission_check S config)) config' (PatchAction port edit))))))"

definition delete_imposter ::
  "('txt, 'a) seams_scheme \<Rightarrow> u16 \<Rightarrow> bool \<Rightarrow> 'txt tables \<Rightarrow> 'txt mutation" where
  "delete_imposter S port degraded T =
     (let T1 = forget_port port (T\<lparr>sm_configs := tdel port (sm_configs T)\<rparr>)
      in (T1, Inr [if degraded then sync_action S (sm_configs T1) else DeleteAction port]))"

definition delete_all :: "('txt, 'a) seams_scheme \<Rightarrow> 'txt tables \<Rightarrow> 'txt mutation" where
  "delete_all S T =
     (let T1 = T\<lparr>sm_configs := tretain (\<lambda>_ _. False) (sm_configs T),
                 sm_proxy_recorded := tretain (\<lambda>_ _. False) (sm_proxy_recorded T)\<rparr>
      in (T1, Inr [sync_action S (sm_configs T1)]))"

definition set_enabled ::
  "('txt, 'a) seams_scheme \<Rightarrow> u16 \<Rightarrow> bool \<Rightarrow> u64 \<Rightarrow> 'txt tables \<Rightarrow> 'txt mutation" where
  "set_enabled S port enabled index T =
     (case load_imposter S T port of
        Inl reason \<Rightarrow> (T, Inl reason)
      | Inr (record, config) \<Rightarrow>
          (let config' = config\<lparr>ic_enabled := enabled\<rparr>;
               T1 = store_imposter S port (record\<lparr>st_enabled := enabled\<rparr>) config' index T
           in (T1, Inr (edit_drive S (\<not> isl (admission_check S config)) config' (SetEnabledAction port enabled)))))"

definition put_routes :: "('txt, 'a) seams_scheme \<Rightarrow> route list \<Rightarrow> u64 \<Rightarrow> 'txt tables \<Rightarrow> 'txt mutation" where
  "put_routes S table index T =
     (let T1 = T\<lparr>sm_routes := fold (\<lambda>r. tput (route_id r) (ser_route S r)) table
                                 (tretain (\<lambda>_ _. False) (sm_routes T)),
                 sm_routes_revision := Some index\<rparr>
      in (T1, Inr [sync_routes_action S (sm_routes T1)]))"

definition delete_route :: "('txt, 'a) seams_scheme \<Rightarrow> string \<Rightarrow> u64 \<Rightarrow> 'txt tables \<Rightarrow> 'txt mutation" where
  "delete_route S i index T =
     (let T1 = T\<lparr>sm_routes := tdel i (sm_routes T), sm_routes_revision := Some index\<rparr>
      in (T1, Inr [sync_routes_action S (sm_routes T1)]))"

definition session_key_put :: "('txt, 'a) seams_scheme \<Rightarrow> string \<Rightarrow> u64 \<Rightarrow> 'txt tables \<Rightarrow> 'txt mutation" where
  "session_key_put S key index T =
     (T\<lparr>sm_session_key := Some (ser_session_key S \<lparr>sk_key = key, sk_revision = index\<rparr>)\<rparr>, Inr [])"

definition fleet_name_put :: "string \<Rightarrow> 'txt tables \<Rightarrow> 'txt mutation" where
  "fleet_name_put name T = (T\<lparr>sm_fleet_name := Some name\<rparr>, Inr [])"

text \<open>A recording that carries a stub: the id it is given, its placement, the record written back and
  the marker beside it, and the drive that reproduces the placement on the engine.\<close>

definition record_with_stub ::
  "('txt, 'a) seams_scheme \<Rightarrow> u16 \<Rightarrow> string \<Rightarrow> recorded_response \<Rightarrow> recorded_stub \<Rightarrow> u64 \<Rightarrow>
   'txt stored_imposter \<Rightarrow> imposter_config \<Rightarrow> 'txt tables \<Rightarrow> 'txt mutation" where
  "record_with_stub S port sig_hash resp recorded index record config T =
     (let merging = (rs_placement recorded = AfterProxyMerging);
          stub_value = assign_recorded_id (ic_stubs config) sig_hash index (rs_stub recorded);
          (stubs, placed) = place_recorded_stub (ic_stubs config) stub_value (rs_placement recorded)
                              (rs_proxy_to recorded) (rs_anchor_index recorded);
          config' = config\<lparr>ic_stubs := stubs\<rparr>;
          T1 = store_imposter S port record config' index T;
          T2 = (if merging then T1
                else T1\<lparr>sm_proxy_recorded := tput (port, sig_hash) (ser_recorded S resp) (sm_proxy_recorded T1)\<rparr>);
          was_admitted = (\<not> isl (admission_check S config))
      in (T2,
          Inr (case placed of
                 Inserted i \<Rightarrow> edit_drive S was_admitted config' (PatchAction port [AddStub (stubs ! i) (Some i)])
               | MergedInto i stub_i \<Rightarrow>
                   edit_drive S was_admitted config'
                     (AppendResponses port stub_i (stub_responses stub_value) (stubs ! i))
               | MergedAnonymous \<Rightarrow> [sync_action S (sm_configs T2)])))"

definition proxy_recorded ::
  "('txt, 'a) seams_scheme \<Rightarrow> u16 \<Rightarrow> string \<Rightarrow> recorded_response \<Rightarrow> recorded_stub option \<Rightarrow> u64 \<Rightarrow>
   'txt tables \<Rightarrow> 'txt mutation" where
  "proxy_recorded S port sig_hash resp rstub index T =
     (let already_recorded = (tget (sm_proxy_recorded T) (port, sig_hash) \<noteq> None);
          merging = (case rstub of None \<Rightarrow> False | Some recorded \<Rightarrow> rs_placement recorded = AfterProxyMerging)
      in if already_recorded \<and> \<not> merging then (T, Inr [])
         else if tget (sm_configs T) port = None
         then (T, Inl (''no imposter on port '' @ show_word port))
         else case rstub of
           None \<Rightarrow>
             (T\<lparr>sm_proxy_recorded := tput (port, sig_hash) (ser_recorded S resp) (sm_proxy_recorded T)\<rparr>, Inr [])
         | Some recorded \<Rightarrow>
             (case load_imposter S T port of
                Inl reason \<Rightarrow> (T, Inl reason)
              | Inr (record, config) \<Rightarrow>
                  record_with_stub S port sig_hash resp recorded index record config T))"

definition proxy_recorded_clear ::
  "('txt, 'a) seams_scheme \<Rightarrow> u16 \<Rightarrow> u64 \<Rightarrow> bool \<Rightarrow> 'txt tables \<Rightarrow> 'txt mutation" where
  "proxy_recorded_clear S port index degraded T =
     (let T1 = forget_port port T in
      case load_imposter S T1 port of
        Inl _ \<Rightarrow> (T1, Inr [])
      | Inr (record, config) \<Rightarrow>
          (let (stubs, stripped) = strip_proxy_responses S (ic_stubs config);
               config' = config\<lparr>ic_stubs := stubs\<rparr>;
               T2 = (if stripped then store_imposter S port record config' index T1 else T1);
               clear = ClearProxyResponses port
           in (T2, Inr (if degraded \<or> isl (admission_check S config')
                        then [sync_action S (sm_configs T2), clear] else [clear]))))"

fun mutate_tables ::
  "('txt, 'a) seams_scheme \<Rightarrow> control_op \<Rightarrow> u64 \<Rightarrow> bool \<Rightarrow> 'txt tables \<Rightarrow> 'txt mutation" where
  "mutate_tables S (PutImposter config restart) index degraded T = put_imposter S config restart index degraded T"
| "mutate_tables S (PatchStubs port edit) index degraded T = patch_stubs S port edit index T"
| "mutate_tables S (DeleteImposter port) index degraded T = delete_imposter S port degraded T"
| "mutate_tables S DeleteAll index degraded T = delete_all S T"
| "mutate_tables S (SetEnabled port enabled) index degraded T = set_enabled S port enabled index T"
| "mutate_tables S (PutRoutes table) index degraded T = put_routes S table index T"
| "mutate_tables S (DeleteRoute i) index degraded T = delete_route S i index T"
| "mutate_tables S (SessionKeyPut key) index degraded T = session_key_put S key index T"
| "mutate_tables S (FleetNamePut name) index degraded T = fleet_name_put name T"
| "mutate_tables S (ProxyRecorded port sig_hash resp rstub) index degraded T =
     proxy_recorded S port sig_hash resp rstub index T"
| "mutate_tables S (ProxyRecordedClear port) index degraded T = proxy_recorded_clear S port index degraded T"

section \<open>Apply\<close>

definition gc_dedup :: "('txt, 'a) seams_scheme \<Rightarrow> u64 \<Rightarrow> (string, 'txt) table \<Rightarrow> (string, 'txt) table" where
  "gc_dedup S now_secs t =
     tretain (\<lambda>_ row. case de_dedup S row of Inr entry \<Rightarrow> now_secs < dd_expires_at_secs entry | Inl _ \<Rightarrow> False) t"

datatype payload = Blank | Normal control_request | MembershipEntry membership

record entry =
  ent_log_id :: log_id
  ent_payload :: payload

text \<open>What one batch accumulates: the open transaction's tables, the cursor held beside them until the
  commit, the responses and the drives.\<close>

record 'txt batch =
  bt_applied :: applied_state
  bt_tables :: "'txt tables"
  bt_responses :: "control_response list"
  bt_actions :: "attributed_action list"

text \<open>The validation, the preconditions and the mutation of one request that is not a replay.\<close>

definition run_op ::
  "('txt, 'a) seams_scheme \<Rightarrow> bool \<Rightarrow> u64 \<Rightarrow> control_request \<Rightarrow> 'txt tables \<Rightarrow> 'txt mutation" where
  "run_op S degraded index request T =
     (case validate S (op request) of
        Inl reason \<Rightarrow> (T, Inl reason)
      | Inr _ \<Rightarrow>
          (case check_preconditions S T request of
             Inl reason \<Rightarrow> (T, Inl reason)
           | Inr _ \<Rightarrow> mutate_tables S (op request) index degraded T))"

fun response_of :: "u64 \<Rightarrow> string + 'b \<Rightarrow> control_response" where
  "response_of index (Inr _) = response_applied index"
| "response_of index (Inl reason) = response_failed index reason"

text \<open>The response already given to a request with this id, where its dedup row is live.\<close>

definition find_previous ::
  "('txt, 'a) seams_scheme \<Rightarrow> u64 \<Rightarrow> string \<Rightarrow> (string, 'txt) table \<Rightarrow> storage_error + control_response option" where
  "find_previous S clock op_key t =
     (case tget t op_key of
        None \<Rightarrow> Inr None
      | Some row \<Rightarrow>
          (case de_dedup S row of
             Inl e \<Rightarrow> Inl (StorageWrite e)
           | Inr prev \<Rightarrow> Inr (if clock < dd_expires_at_secs prev then Some (dd_response prev) else None)))"

definition apply_request ::
  "('txt, 'a) seams_scheme \<Rightarrow> bool \<Rightarrow> u64 \<Rightarrow> control_request \<Rightarrow> 'txt batch \<Rightarrow> storage_error + 'txt batch" where
  "apply_request S degraded index request b =
     (let clock = max (logical_clock_secs (bt_applied b)) (issued_at_secs request);
          b1 = b\<lparr>bt_applied := (bt_applied b)\<lparr>logical_clock_secs := clock\<rparr>\<rparr>
      in case find_previous S clock (op_id request) (sm_op_dedup (bt_tables b1)) of
           Inl e \<Rightarrow> Inl e
         | Inr (Some response) \<Rightarrow> Inr (b1\<lparr>bt_responses := bt_responses b1 @ [response]\<rparr>)
         | Inr None \<Rightarrow>
             (let (T, out) = run_op S degraded index request (bt_tables b1);
                  response = response_of index out;
                  actions = (case out of
                               Inr acts \<Rightarrow> map (\<lambda>a. \<lparr>aa_principal = principal request, aa_action = a\<rparr>) acts
                             | Inl _ \<Rightarrow> []);
                  row = ser_dedup S \<lparr>dd_response = response, dd_expires_at_secs = sat_add clock DEDUP_TTL_SECS\<rparr>
              in Inr (b1\<lparr>bt_tables := T\<lparr>sm_op_dedup := tput (op_id request) row (sm_op_dedup T)\<rparr>,
                         bt_responses := bt_responses b1 @ [response],
                         bt_actions := bt_actions b1 @ actions\<rparr>)))"

definition apply_entry ::
  "('txt, 'a) seams_scheme \<Rightarrow> bool \<Rightarrow> entry \<Rightarrow> 'txt batch \<Rightarrow> storage_error + 'txt batch" where
  "apply_entry S degraded e b =
     (let index = lid_index (ent_log_id e);
          b1 = b\<lparr>bt_applied := (bt_applied b)\<lparr>last_applied_log := Some (ent_log_id e)\<rparr>\<rparr>
      in case ent_payload e of
           Blank \<Rightarrow> Inr (b1\<lparr>bt_responses := bt_responses b1 @ [response_applied index]\<rparr>)
         | Normal request \<Rightarrow> apply_request S degraded index request b1
         | MembershipEntry m \<Rightarrow>
             Inr (b1\<lparr>bt_applied := (bt_applied b1)\<lparr>last_membership :=
                        \<lparr>stm_log_id = Some (ent_log_id e), stm_membership = m\<rparr>\<rparr>,
                     bt_responses := bt_responses b1 @ [response_applied index]\<rparr>))"

fun apply_entries ::
  "('txt, 'a) seams_scheme \<Rightarrow> bool \<Rightarrow> entry list \<Rightarrow> 'txt batch \<Rightarrow> storage_error + 'txt batch" where
  "apply_entries S degraded [] b = Inr b"
| "apply_entries S degraded (e # es) b =
     (case apply_entry S degraded e b of Inl err \<Rightarrow> Inl err | Inr b' \<Rightarrow> apply_entries S degraded es b')"

text \<open>One batch: the sweep of the dedup rows, the entries, and the cursor written with the commit.
  An error drops the transaction, so the caller keeps the tables it had.\<close>

definition apply_batch ::
  "('txt, 'a) seams_scheme \<Rightarrow> bool \<Rightarrow> entry list \<Rightarrow> 'txt tables \<Rightarrow>
   storage_error + ('txt tables \<times> control_response list \<times> attributed_action list)" where
  "apply_batch S degraded entries T =
     (let applied = read_applied T;
          T1 = T\<lparr>sm_op_dedup := gc_dedup S (logical_clock_secs applied) (sm_op_dedup T)\<rparr>
      in case apply_entries S degraded entries
                \<lparr>bt_applied = applied, bt_tables = T1, bt_responses = [], bt_actions = []\<rparr> of
           Inl e \<Rightarrow> Inl e
         | Inr b \<Rightarrow> Inr ((bt_tables b)\<lparr>sm_applied := Some (bt_applied b)\<rparr>, bt_responses b, bt_actions b))"

section \<open>Predicates of the specification\<close>

text \<open>What the theorems below rely on of \<^verbatim>\<open>serde_json\<close>: a row reads back as the value it was written
  from.\<close>

definition codec_ok :: "('txt, 'a) seams_scheme \<Rightarrow> bool" where
  "codec_ok S \<longleftrightarrow>
     (\<forall>c. de_config S (ser_config S c) = Inr c) \<and>
     (\<forall>st. de_stored S (ser_stored S st) = Inr st) \<and>
     (\<forall>r. de_route S (ser_route S r) = Inr r) \<and>
     (\<forall>e. de_dedup S (ser_dedup S e) = Inr e) \<and>
     (\<forall>k. de_session_key S (ser_session_key S k) = Inr k)"

definition imposter_row_ok :: "('txt, 'a) seams_scheme \<Rightarrow> u64 \<Rightarrow> u16 \<times> 'txt \<Rightarrow> bool" where
  "imposter_row_ok S n kv =
     (case de_stored S (snd kv) of
        Inl _ \<Rightarrow> False
      | Inr st \<Rightarrow>
          (case de_config S (st_config st) of
             Inl _ \<Rightarrow> False
           | Inr c \<Rightarrow> ic_port c = Some (fst kv) \<and> st_enabled st = ic_enabled c \<and> st_revision st \<le> n))"

definition route_row_ok :: "('txt, 'a) seams_scheme \<Rightarrow> string \<times> 'txt \<Rightarrow> bool" where
  "route_row_ok S kv = (case de_route S (snd kv) of Inl _ \<Rightarrow> False | Inr r \<Rightarrow> route_id r = fst kv)"

definition dedup_row_ok :: "('txt, 'a) seams_scheme \<Rightarrow> u64 \<Rightarrow> string \<times> 'txt \<Rightarrow> bool" where
  "dedup_row_ok S n kv =
     (case de_dedup S (snd kv) of Inl _ \<Rightarrow> False | Inr e \<Rightarrow> revision (dd_response e) \<le> n)"

definition session_row_ok :: "('txt, 'a) seams_scheme \<Rightarrow> u64 \<Rightarrow> 'txt \<Rightarrow> bool" where
  "session_row_ok S n row = (case de_session_key S row of Inl _ \<Rightarrow> False | Inr k \<Rightarrow> sk_revision k \<le> n)"

definition marker_ok :: "'txt tables \<Rightarrow> (u16 \<times> string) \<times> 'txt \<Rightarrow> bool" where
  "marker_ok T kv \<longleftrightarrow> fst (fst kv) \<in> fst ` set (sm_configs T)"

text \<open>The invariant of the applied tables at the log index \<open>n\<close>.\<close>

definition tables_wf :: "('txt, 'a) seams_scheme \<Rightarrow> u64 \<Rightarrow> 'txt tables \<Rightarrow> bool" where
  "tables_wf S n T \<longleftrightarrow>
     twf (sm_configs T) \<and> twf (sm_routes T) \<and> twf (sm_proxy_recorded T) \<and> twf (sm_op_dedup T) \<and>
     list_all (imposter_row_ok S n) (sm_configs T) \<and>
     list_all (route_row_ok S) (sm_routes T) \<and>
     list_all (marker_ok T) (sm_proxy_recorded T) \<and>
     list_all (dedup_row_ok S n) (sm_op_dedup T) \<and>
     pred_option (\<lambda>r. r \<le> n) (sm_routes_revision T) \<and>
     pred_option (session_row_ok S n) (sm_session_key T)"

lemma codec_simps:
  assumes "codec_ok S"
  shows "de_config S (ser_config S c) = Inr c"
    and "de_stored S (ser_stored S st) = Inr st"
    and "de_route S (ser_route S r) = Inr r"
    and "de_dedup S (ser_dedup S e) = Inr e"
    and "de_session_key S (ser_session_key S k) = Inr k"
  using assms by (simp_all add: codec_ok_def)

lemma tables_wf_mono:
  assumes "tables_wf S n T" and "n \<le> m" shows "tables_wf S m T"
proof -
  have 1: "list_all (imposter_row_ok S m) (sm_configs T)"
    using assms by (auto simp: tables_wf_def elim!: list.pred_mono_strong
        simp: imposter_row_ok_def split: sum.splits)
  have 2: "list_all (dedup_row_ok S m) (sm_op_dedup T)"
    using assms by (auto simp: tables_wf_def elim!: list.pred_mono_strong
        simp: dedup_row_ok_def split: sum.splits)
  have 3: "pred_option (\<lambda>r. r \<le> m) (sm_routes_revision T)"
    using assms by (auto simp: tables_wf_def option.pred_set)
  have 4: "pred_option (session_row_ok S m) (sm_session_key T)"
    using assms by (auto simp: tables_wf_def session_row_ok_def option.pred_set split: sum.splits)
  show ?thesis using assms(1) 1 2 3 4 by (simp add: tables_wf_def)
qed

lemma marker_ok_cong: "sm_configs T' = sm_configs T \<Longrightarrow> marker_ok T' = marker_ok T"
  by (simp add: marker_ok_def fun_eq_iff)

lemma tables_wf_markers:
  assumes "tables_wf S n T" and "twf t" and "list_all (marker_ok T) t"
  shows "tables_wf S n (T\<lparr>sm_proxy_recorded := t\<rparr>)"
  using assms by (simp add: tables_wf_def marker_ok_def [abs_def])

lemma tables_wf_forget_markers:
  assumes "tables_wf S n T" shows "tables_wf S n (forget_markers port hs T)"
  unfolding forget_markers_def
proof (rule tables_wf_markers [OF assms])
  show "twf (fold (\<lambda>h. tdel (port, h)) hs (sm_proxy_recorded T))"
    using assms by (simp add: fold_tdel_wf tables_wf_def)
  show "list_all (marker_ok T) (fold (\<lambda>h. tdel (port, h)) hs (sm_proxy_recorded T))"
    using assms fold_tdel_set [of "\<lambda>h. (port, h)" hs "sm_proxy_recorded T"] by (auto simp: tables_wf_def list_all_iff)
qed

lemma tables_wf_forget_port:
  assumes "tables_wf S n T" shows "tables_wf S n (forget_port port T)"
  unfolding forget_port_def
  by (rule tables_wf_markers) (use assms in \<open>auto simp: tables_wf_def list_all_tretain\<close>)

lemma tables_wf_store:
  assumes "codec_ok S" and "tables_wf S n T"
    and "ic_port config = Some port" and "st_enabled rec = ic_enabled config"
  shows "tables_wf S n (store_imposter S port rec config n T)"
proof -
  have "imposter_row_ok S n (port, ser_stored S (rec\<lparr>st_config := ser_config S config, st_revision := n\<rparr>))"
    using assms by (simp add: imposter_row_ok_def codec_simps)
  moreover have "list_all (marker_ok (store_imposter S port rec config n T)) (sm_proxy_recorded T)"
    using assms(2) by (auto simp: tables_wf_def list_all_iff marker_ok_def store_imposter_def)
  ultimately show ?thesis
    using assms(2) by (simp add: tables_wf_def store_imposter_def list_all_tput)
qed

lemma tables_wf_put_marker:
  assumes "tables_wf S n T" and "tget (sm_configs T) port \<noteq> None"
  shows "tables_wf S n (T\<lparr>sm_proxy_recorded := tput (port, h) row (sm_proxy_recorded T)\<rparr>)"
  by (rule tables_wf_markers)
     (use assms in \<open>auto simp: tables_wf_def marker_ok_def tkeys_tget intro!: list_all_tput\<close>)

lemma load_imposter_Inr:
  "load_imposter S T port = Inr (rec, config) \<longleftrightarrow>
     (\<exists>row. tget (sm_configs T) port = Some row \<and> de_stored S row = Inr rec \<and>
            de_config S (st_config rec) = Inr config)"
  by (auto simp: load_imposter_def split: option.splits sum.splits)

lemma load_imposter_wf:
  assumes "tables_wf S n T" and "load_imposter S T port = Inr (rec, config)"
  shows "ic_port config = Some port \<and> st_enabled rec = ic_enabled config \<and> st_revision rec \<le> n"
proof -
  from assms(2) obtain row where row: "tget (sm_configs T) port = Some row"
    "de_stored S row = Inr rec" "de_config S (st_config rec) = Inr config"
    by (auto simp: load_imposter_Inr)
  then have "(port, row) \<in> set (sm_configs T)" by (simp add: map_of_SomeD)
  then have "imposter_row_ok S n (port, row)" using assms(1) by (auto simp: tables_wf_def list_all_iff)
  with row show ?thesis by (simp add: imposter_row_ok_def)
qed

lemma load_imposter_total:
  assumes "tables_wf S n T" and "tget (sm_configs T) port = Some row"
  obtains rec config where "load_imposter S T port = Inr (rec, config)"
proof -
  have "(port, row) \<in> set (sm_configs T)" using assms(2) by (simp add: map_of_SomeD)
  then have "imposter_row_ok S n (port, row)" using assms(1) by (auto simp: tables_wf_def list_all_iff)
  with assms(2) that show thesis
    by (auto simp: imposter_row_ok_def load_imposter_def split: sum.splits)
qed

lemma delete_wf:
  assumes "tables_wf S n T" shows "tables_wf S n (fst (delete_imposter S port degraded T))"
proof -
  have "list_all (marker_ok (T\<lparr>sm_configs := tdel port (sm_configs T)\<rparr>))
          (tretain (\<lambda>k _. fst k \<noteq> port) (sm_proxy_recorded T))"
    using assms by (auto simp: tables_wf_def list_all_iff marker_ok_def tretain_def)
  with assms show ?thesis
    by (simp add: delete_imposter_def Let_def forget_port_def tables_wf_def list_all_tdel
        marker_ok_def [abs_def])
qed

lemma delete_all_wf: "tables_wf S n T \<Longrightarrow> tables_wf S n (fst (delete_all S T))"
  by (simp add: delete_all_def Let_def tables_wf_def)

lemma routes_fold_wf: "twf t \<Longrightarrow> twf (fold (\<lambda>r. tput (route_id r) (ser_route S r)) table t)"
  by (induction table arbitrary: t) auto

lemma routes_fold_rows:
  assumes "codec_ok S"
  shows "list_all (route_row_ok S) t \<Longrightarrow>
         list_all (route_row_ok S) (fold (\<lambda>r. tput (route_id r) (ser_route S r)) table t)"
proof (induction table arbitrary: t)
  case (Cons r table)
  have "route_row_ok S (route_id r, ser_route S r)" by (simp add: route_row_ok_def codec_simps [OF assms])
  with Cons show ?case by (simp add: list_all_tput)
qed simp

lemma put_routes_wf:
  "codec_ok S \<Longrightarrow> tables_wf S n T \<Longrightarrow> tables_wf S n (fst (put_routes S table n T))"
  by (simp add: put_routes_def Let_def tables_wf_def routes_fold_wf routes_fold_rows
      marker_ok_def [abs_def])

lemma delete_route_wf: "tables_wf S n T \<Longrightarrow> tables_wf S n (fst (delete_route S i n T))"
  by (simp add: delete_route_def Let_def tables_wf_def list_all_tdel marker_ok_def [abs_def])

lemma session_key_put_wf:
  "codec_ok S \<Longrightarrow> tables_wf S n T \<Longrightarrow> tables_wf S n (fst (session_key_put S key n T))"
  by (simp add: session_key_put_def tables_wf_def session_row_ok_def codec_simps marker_ok_def [abs_def])

lemma fleet_name_put_wf: "tables_wf S n T \<Longrightarrow> tables_wf S n (fst (fleet_name_put name T))"
  by (simp add: fleet_name_put_def tables_wf_def marker_ok_def [abs_def])

lemma forget_replaced_wf: "tables_wf S n T \<Longrightarrow> tables_wf S n (forget_replaced S port config T)"
  by (simp add: forget_replaced_def tables_wf_forget_port tables_wf_forget_markers
      split: option.split sum.split)

lemma put_imposter_wf:
  assumes "codec_ok S" and "tables_wf S n T"
  shows "tables_wf S n (fst (put_imposter S config restart n degraded T))"
proof (cases "ic_port config")
  case None
  with assms show ?thesis by (simp add: put_imposter_def)
next
  case (Some port)
  with assms show ?thesis
    by (simp add: put_imposter_def Let_def tables_wf_store tables_wf_forget_markers forget_replaced_wf)
qed

lemma patch_stubs_wf:
  assumes "codec_ok S" and "tables_wf S n T"
  shows "tables_wf S n (fst (patch_stubs S port edit n T))"
proof (cases "load_imposter S T port")
  case (Inr p)
  obtain rec config where p: "p = (rec, config)" by (cases p)
  note load_imposter_wf [OF assms(2) Inr [unfolded p]]
  with assms Inr p show ?thesis
    by (auto simp: patch_stubs_def Let_def intro!: tables_wf_store tables_wf_forget_markers
        split: prod.split sum.split)
qed (use assms in \<open>simp add: patch_stubs_def\<close>)

lemma set_enabled_wf:
  assumes "codec_ok S" and "tables_wf S n T"
  shows "tables_wf S n (fst (set_enabled S port enabled n T))"
proof (cases "load_imposter S T port")
  case (Inr p)
  obtain rec config where p: "p = (rec, config)" by (cases p)
  note load_imposter_wf [OF assms(2) Inr [unfolded p]]
  with assms Inr p show ?thesis by (simp add: set_enabled_def Let_def tables_wf_store)
qed (use assms in \<open>simp add: set_enabled_def\<close>)

lemma tget_store [simp]:
  "tget (sm_configs (store_imposter S port rec config n T)) j =
     (if j = port then Some (ser_stored S (rec\<lparr>st_config := ser_config S config, st_revision := n\<rparr>))
      else tget (sm_configs T) j)"
  by (simp add: store_imposter_def)

lemma record_with_stub_wf:
  assumes "codec_ok S" and "tables_wf S n T" and "load_imposter S T port = Inr (rec, config)"
  shows "tables_wf S n (fst (record_with_stub S port h resp recorded n rec config T))"
proof -
  note load_imposter_wf [OF assms(2,3)]
  then have "tables_wf S n (store_imposter S port rec (config\<lparr>ic_stubs := stubs\<rparr>) n T)" for stubs
    using assms by (simp add: tables_wf_store)
  then show ?thesis
    by (auto simp: record_with_stub_def Let_def tables_wf_put_marker split: prod.split)
qed

lemma proxy_recorded_wf:
  assumes "codec_ok S" and "tables_wf S n T"
  shows "tables_wf S n (fst (proxy_recorded S port h resp rstub n T))"
  using assms
  by (auto simp: proxy_recorded_def Let_def record_with_stub_wf tables_wf_put_marker
      split: option.split sum.split)

lemma proxy_recorded_clear_wf:
  assumes "codec_ok S" and "tables_wf S n T"
  shows "tables_wf S n (fst (proxy_recorded_clear S port n degraded T))"
proof (cases "load_imposter S (forget_port port T) port")
  case (Inr p)
  obtain rec config where p: "p = (rec, config)" by (cases p)
  have wf: "tables_wf S n (forget_port port T)" using assms(2) by (rule tables_wf_forget_port)
  note load_imposter_wf [OF wf Inr [unfolded p]]
  with assms(1) wf Inr p show ?thesis
    by (simp add: proxy_recorded_clear_def Let_def tables_wf_store split: prod.split)
qed (use assms in \<open>simp add: proxy_recorded_clear_def Let_def tables_wf_forget_port\<close>)

lemmas mutation_wf = put_imposter_wf patch_stubs_wf delete_wf delete_all_wf set_enabled_wf put_routes_wf
  delete_route_wf session_key_put_wf fleet_name_put_wf proxy_recorded_wf proxy_recorded_clear_wf

lemma mutate_tables_wf:
  "codec_ok S \<Longrightarrow> tables_wf S n T \<Longrightarrow> tables_wf S n (fst (mutate_tables S cop n degraded T))"
  by (cases cop) (simp_all add: mutation_wf)

lemma run_op_wf:
  "codec_ok S \<Longrightarrow> tables_wf S n T \<Longrightarrow> tables_wf S n (fst (run_op S degraded n request T))"
  by (simp add: run_op_def mutate_tables_wf split: sum.split)

section \<open>Lemmas: a refusal changes nothing\<close>

lemma mutate_refused:
  assumes "snd (mutate_tables S cop n degraded T) = Inl reason"
  shows "fst (mutate_tables S cop n degraded T) = T"
  using assms
  by (cases cop)
     (auto simp: put_imposter_def patch_stubs_def delete_imposter_def delete_all_def set_enabled_def
        put_routes_def delete_route_def session_key_put_def fleet_name_put_def proxy_recorded_def
        record_with_stub_def proxy_recorded_clear_def Let_def
        split: option.splits sum.splits prod.splits if_splits)

lemma run_op_refused:
  "snd (run_op S degraded n request T) = Inl reason \<Longrightarrow> fst (run_op S degraded n request T) = T"
  by (auto simp: run_op_def mutate_refused split: sum.splits)

section \<open>Lemmas: the tables do not depend on the node's health\<close>

lemma mutate_degraded:
  "fst (mutate_tables S cop n d T) = fst (mutate_tables S cop n d' T)"
  "map_sum id (\<lambda>_. ()) (snd (mutate_tables S cop n d T)) =
   map_sum id (\<lambda>_. ()) (snd (mutate_tables S cop n d' T))"
  by (cases cop;
      simp add: put_imposter_def delete_imposter_def proxy_recorded_clear_def Let_def
        split: option.split sum.split prod.split)+

section \<open>Lemmas: the markers of a port\<close>

lemma twf_takeWhile_port:
  fixes t :: "(u16 \<times> string, 'txt) table"
  assumes "twf t" and "\<And>row. row \<in> set t \<Longrightarrow> port \<le> fst (fst row)"
  shows "takeWhile (\<lambda>row. fst (fst row) = port) t = filter (\<lambda>row. fst (fst row) = port) t"
  using assms
proof (induction t)
  case (Cons row t)
  show ?case
  proof (cases "fst (fst row) = port")
    case True
    with Cons show ?thesis by (simp add: twf_Cons)
  next
    case False
    with Cons.prems(2) [of row] have "port < fst (fst row)" by simp
    moreover have "fst (fst row) \<le> fst (fst r)" if "r \<in> set t" for r
      using Cons.prems(1) that by (force simp: twf_Cons less_prod_def)
    ultimately have "filter (\<lambda>row. fst (fst row) = port) t = []"
      by (auto simp: filter_empty_conv dest: leD)
    with False show ?thesis by simp
  qed
qed simp

lemma markers_from_port:
  fixes t :: "(u16 \<times> string, 'txt) table"
  shows "row \<in> set (markers_from port t) \<Longrightarrow> port \<le> fst (fst row)"
  by (cases row) (auto simp: markers_from_def less_eq_prod_def)

lemma markers_from_mem:
  fixes t :: "(u16 \<times> string, 'txt) table"
  shows "((port, h), v) \<in> set (markers_from port t) \<longleftrightarrow> ((port, h), v) \<in> set t"
  by (auto simp: markers_from_def less_eq_prod_def)

lemma twf_markers_from: "twf t \<Longrightarrow> twf (markers_from port t)"
  by (simp add: markers_from_def twf_filter)

lemma has_markers_iff:
  assumes "twf t" shows "has_markers port t \<longleftrightarrow> (\<exists>h. tget t (port, h) \<noteq> None)"
proof -
  have tw: "takeWhile (\<lambda>row. fst (fst row) = port) (markers_from port t) =
      filter (\<lambda>row. fst (fst row) = port) (markers_from port t)"
    using assms by (intro twf_takeWhile_port twf_markers_from markers_from_port)
  have "has_markers port t \<longleftrightarrow> takeWhile (\<lambda>row. fst (fst row) = port) (markers_from port t) \<noteq> []"
    by (auto simp: has_markers_def split: list.splits)
  also have "\<dots> \<longleftrightarrow> (\<exists>row \<in> set (markers_from port t). fst (fst row) = port)"
    unfolding tw by (auto simp: filter_empty_conv)
  also have "\<dots> \<longleftrightarrow> (\<exists>h v. ((port, h), v) \<in> set t)" by (metis markers_from_mem prod.collapse fst_conv)
  also have "\<dots> \<longleftrightarrow> (\<exists>h. tget t (port, h) \<noteq> None)" using assms by (auto simp: twf_row)
  finally show ?thesis .
qed

lemma set_stub_less_markers:
  assumes "twf t"
  shows "h \<in> set (stub_less_markers port stubs t) \<longleftrightarrow> tget t (port, h) \<noteq> None \<and> \<not> hash_taken stubs h"
proof -
  have tw: "takeWhile (\<lambda>row. fst (fst row) = port) (markers_from port t) =
      filter (\<lambda>row. fst (fst row) = port) (markers_from port t)"
    using assms by (intro twf_takeWhile_port twf_markers_from markers_from_port)
  have "h \<in> set (stub_less_markers port stubs t) \<longleftrightarrow>
      \<not> hash_taken stubs h \<and> (\<exists>v. ((port, h), v) \<in> set (markers_from port t))"
    unfolding stub_less_markers_def tw by force
  also have "\<dots> \<longleftrightarrow> tget t (port, h) \<noteq> None \<and> \<not> hash_taken stubs h"
    using assms by (auto simp: markers_from_mem twf_row)
  finally show ?thesis .
qed

lemma tget_forget_markers:
  "tget (sm_proxy_recorded (forget_markers port hs T)) (p, h) =
     (if p = port \<and> h \<in> set hs then None else tget (sm_proxy_recorded T) (p, h))"
proof -
  have "tget (fold (\<lambda>h. tdel (port, h)) hs t) (p, h) = (if p = port \<and> h \<in> set hs then None else tget t (p, h))"
    for t :: "(u16 \<times> string, 'a) table"
    by (induction hs arbitrary: t) auto
  then show ?thesis by (simp add: forget_markers_def)
qed

lemma tget_forget_port:
  "twf (sm_proxy_recorded T) \<Longrightarrow>
   tget (sm_proxy_recorded (forget_port port T)) (p, h) = (if p = port then None else tget (sm_proxy_recorded T) (p, h))"
  by (auto simp: forget_port_def tget_tretain split: option.split)

end
