(* ===== verification/DocCodec.thy ===== *)
theory DocCodec
  imports StateMachine
begin

text \<open>
  A concrete instance of the seams: row text as a tree of documents, with serializers that wrap a
  value and readers that unwrap it or refuse. It shows that what the theorems assume of
  \<^verbatim>\<open>serde_json\<close> can hold, and the examples below run the model on it.
\<close>

datatype doc =
    DocConfig imposter_config
  | DocStored doc bool u64
  | DocRoute route
  | DocDedup dedup_entry
  | DocKey session_key
  | DocResp recorded_response
  | DocStr doc
  | DocJunk nat

definition doc_seams :: "doc seams" where
  "doc_seams =
     \<lparr>admission_check = (\<lambda>c. if ic_protocol c = ''https'' then Inl ''no certificate'' else Inr ()),
      is_recorded = (\<lambda>r. r = OtherResponse (JStr ''recorded'')),
      validate_routes = (\<lambda>rs. if distinct (map route_id rs) then Inr () else Inl ''duplicate route''),
      stub_to_value = (\<lambda>s. JArr [stub_rest s, JArr (stub_predicates s), JInt (int (length (stub_responses s)))]),
      show_json = (\<lambda>_. ''json''),
      ser_config = DocConfig,
      de_config = (\<lambda>t. case t of DocConfig c \<Rightarrow> Inr c | _ \<Rightarrow> Inl ''not a config''),
      ser_stored = (\<lambda>st. DocStored (st_config st) (st_enabled st) (st_revision st)),
      de_stored = (\<lambda>t. case t of
          DocStored c e r \<Rightarrow> Inr \<lparr>st_config = c, st_enabled = e, st_revision = r\<rparr> | _ \<Rightarrow> Inl ''not a record''),
      ser_route = DocRoute,
      de_route = (\<lambda>t. case t of DocRoute r \<Rightarrow> Inr r | _ \<Rightarrow> Inl ''not a route''),
      ser_dedup = DocDedup,
      de_dedup = (\<lambda>t. case t of DocDedup e \<Rightarrow> Inr e | _ \<Rightarrow> Inl ''not a dedup entry''),
      ser_session_key = DocKey,
      de_session_key = (\<lambda>t. case t of DocKey k \<Rightarrow> Inr k | _ \<Rightarrow> Inl ''not a key''),
      ser_recorded = DocResp,
      raw_value = (\<lambda>t. case t of DocJunk _ \<Rightarrow> None | _ \<Rightarrow> Some t),
      ser_str = DocStr,
      starts_quote = (\<lambda>t. case t of DocStr _ \<Rightarrow> True | _ \<Rightarrow> False),
      de_str = (\<lambda>t. case t of DocStr u \<Rightarrow> Inr u | _ \<Rightarrow> Inl ''not a string'')\<rparr>"

text \<open>Sample values: a stub that proxies, the stub recorded from it, an imposter, a recorded response.\<close>

definition proxy_stub :: stub where
  "proxy_stub =
     \<lparr>stub_id = Some ''p'', stub_space = None, stub_predicates = [], stub_responses = [Proxy ''up'' None JNull],
      stub_recorded_from = None, stub_rest = JNull\<rparr>"

definition saved_stub :: stub where
  "saved_stub =
     \<lparr>stub_id = None, stub_space = None, stub_predicates = [JStr ''path''],
      stub_responses = [OtherResponse (JStr ''recorded'')], stub_recorded_from = Some ''up'', stub_rest = JNull\<rparr>"

definition sample_config :: "u16 \<Rightarrow> stub list \<Rightarrow> imposter_config" where
  "sample_config port stubs =
     \<lparr>ic_port = Some port, ic_protocol = ''http'', ic_stubs = stubs, ic_enabled = True, ic_rift = None,
      ic_rest = JNull\<rparr>"

definition sample_resp :: recorded_response where
  "sample_resp =
     \<lparr>resp_status = 200, resp_headers = [], resp_body = [1], resp_latency_ms = None, resp_timestamp_secs = 5\<rparr>"

definition sample_request :: "string \<Rightarrow> u64 \<Rightarrow> u64 option \<Rightarrow> control_op \<Rightarrow> control_request" where
  "sample_request i at expected cop =
     \<lparr>op_id = i, principal = None, issued_at_secs = at, expected_revision = expected, expect_absent = False,
      op = cop\<rparr>"

definition sample_entry :: "u64 \<Rightarrow> control_request \<Rightarrow> entry" where
  "sample_entry n request =
     \<lparr>ent_log_id = \<lparr>lid_term = 1, lid_node = 1, lid_index = n\<rparr>, ent_payload = Normal request\<rparr>"

lemma doc_codec_ok: "codec_ok doc_seams"
  by (simp add: codec_ok_def doc_seams_def)

lemma empty_tables_wf: "tables_wf S n empty_tables"
  by (simp add: tables_wf_def empty_tables_def)

lemma read_applied_empty: "read_applied empty_tables = applied_state_default"
  by (simp add: read_applied_def empty_tables_def)

lemma last_applied_default: "last_applied_log applied_state_default = None"
  by (simp add: applied_state_default_def)

end
