(* ===== verification/ApplyLog.thy ===== *)
theory ApplyLog
  imports DocCodec
begin

text \<open>
  The log as the replicas see it: entries applied in log order, handed over in batches whose
  boundaries and whose node health differ from replica to replica. The lemmas carry facts of one op
  to a whole log: the invariant and totality, the agreement of replicas, and, through the locale
  \<open>replicated\<close>, every predicate of the tables that the ops keep.
\<close>

section \<open>Predicates of the specification\<close>

definition applied_index :: "applied_state \<Rightarrow> u64" where
  "applied_index a = (case last_applied_log a of None \<Rightarrow> 0 | Some l \<Rightarrow> lid_index l)"

text \<open>Entries in log order, each past the one applied before it.\<close>

fun log_follows :: "log_id option \<Rightarrow> entry list \<Rightarrow> bool" where
  "log_follows l [] = True"
| "log_follows l (e # es) =
     ((case l of None \<Rightarrow> True | Some p \<Rightarrow> lid_index p < lid_index (ent_log_id e)) \<and>
      log_follows (Some (ent_log_id e)) es)"

definition batch_wf :: "('txt, 'a) seams_scheme \<Rightarrow> 'txt batch \<Rightarrow> bool" where
  "batch_wf S b \<longleftrightarrow> tables_wf S (applied_index (bt_applied b)) (bt_tables b)"

text \<open>The state after a log handed over in batches, each with the health of the node when it ran.\<close>

fun apply_log ::
  "('txt, 'a) seams_scheme \<Rightarrow> (bool \<times> entry list) list \<Rightarrow> 'txt tables \<Rightarrow>
   storage_error + ('txt tables \<times> control_response list)" where
  "apply_log S [] T = Inr (T, [])"
| "apply_log S ((d, es) # batches) T =
     (case apply_batch S d es T of
        Inl e \<Rightarrow> Inl e
      | Inr (T1, rs, _) \<Rightarrow>
          (case apply_log S batches T1 of
             Inl e \<Rightarrow> Inl e
           | Inr (T2, rs') \<Rightarrow> Inr (T2, rs @ rs')))"

text \<open>Two states of one log point: the same in every table, dedup rows that expired apart.\<close>

definition same_live :: "('txt, 'a) seams_scheme \<Rightarrow> u64 \<Rightarrow> 'txt tables \<Rightarrow> 'txt tables \<Rightarrow> bool" where
  "same_live S clock T T' \<longleftrightarrow>
     T'\<lparr>sm_op_dedup := [], sm_applied := None\<rparr> = T\<lparr>sm_op_dedup := [], sm_applied := None\<rparr> \<and>
     gc_dedup S clock (sm_op_dedup T') = gc_dedup S clock (sm_op_dedup T)"

definition with_meta :: "(string, 'txt) table \<Rightarrow> applied_state option \<Rightarrow> 'txt tables \<Rightarrow> 'txt tables" where
  "with_meta t a T = T\<lparr>sm_op_dedup := t, sm_applied := a\<rparr>"

text \<open>The two outcomes of a request: a replay answered from its dedup row, or a run of the op.\<close>

definition request_clock :: "control_request \<Rightarrow> 'txt batch \<Rightarrow> u64" where
  "request_clock request b = max (logical_clock_secs (bt_applied b)) (issued_at_secs request)"

text \<open>Two batches at one log point whose tables differ in expired dedup rows only.\<close>

definition batch_rel :: "('txt, 'a) seams_scheme \<Rightarrow> 'txt batch \<Rightarrow> 'txt batch \<Rightarrow> bool" where
  "batch_rel S b b' \<longleftrightarrow>
     batch_wf S b \<and> batch_wf S b' \<and> bt_applied b' = bt_applied b \<and>
     same_live S (logical_clock_secs (bt_applied b)) (bt_tables b) (bt_tables b')"

definition open_batch :: "'txt tables \<Rightarrow> 'txt batch" where
  "open_batch T = \<lparr>bt_applied = read_applied T, bt_tables = T, bt_responses = [], bt_actions = []\<rparr>"

section \<open>Lemmas: an op reads and writes neither the dedup rows nor the cursor\<close>

lemma with_meta_simps [simp]:
  "sm_configs (with_meta t a T) = sm_configs T" "sm_routes (with_meta t a T) = sm_routes T"
  "sm_routes_revision (with_meta t a T) = sm_routes_revision T"
  "sm_session_key (with_meta t a T) = sm_session_key T"
  "sm_fleet_name (with_meta t a T) = sm_fleet_name T"
  "sm_proxy_recorded (with_meta t a T) = sm_proxy_recorded T"
  "sm_op_dedup (with_meta t a T) = t" "sm_applied (with_meta t a T) = a"
  by (simp_all add: with_meta_def)

lemma with_meta_updates:
  "(with_meta t a T)\<lparr>sm_configs := c\<rparr> = with_meta t a (T\<lparr>sm_configs := c\<rparr>)"
  "(with_meta t a T)\<lparr>sm_routes := r\<rparr> = with_meta t a (T\<lparr>sm_routes := r\<rparr>)"
  "(with_meta t a T)\<lparr>sm_routes_revision := v\<rparr> = with_meta t a (T\<lparr>sm_routes_revision := v\<rparr>)"
  "(with_meta t a T)\<lparr>sm_session_key := k\<rparr> = with_meta t a (T\<lparr>sm_session_key := k\<rparr>)"
  "(with_meta t a T)\<lparr>sm_fleet_name := f\<rparr> = with_meta t a (T\<lparr>sm_fleet_name := f\<rparr>)"
  "(with_meta t a T)\<lparr>sm_proxy_recorded := p\<rparr> = with_meta t a (T\<lparr>sm_proxy_recorded := p\<rparr>)"
  by (simp_all add: with_meta_def)

lemma with_meta_helpers:
  "load_imposter S (with_meta t a T) port = load_imposter S T port"
  "store_imposter S port rec config n (with_meta t a T) = with_meta t a (store_imposter S port rec config n T)"
  "forget_markers port hs (with_meta t a T) = with_meta t a (forget_markers port hs T)"
  "forget_port port (with_meta t a T) = with_meta t a (forget_port port T)"
  by (simp_all add: load_imposter_def store_imposter_def forget_markers_def forget_port_def with_meta_updates)

lemma with_meta_forget_replaced:
  "forget_replaced S port config (with_meta t a T) = with_meta t a (forget_replaced S port config T)"
  by (simp add: forget_replaced_def with_meta_helpers split: option.split sum.split)

lemmas with_meta_rules = with_meta_updates with_meta_helpers with_meta_forget_replaced

lemma record_with_stub_meta:
  "record_with_stub S port h resp recorded n rec config (with_meta t a T) =
     apfst (with_meta t a) (record_with_stub S port h resp recorded n rec config T)"
  by (simp add: record_with_stub_def Let_def with_meta_rules split: prod.split placed_recording.split)

lemma mutate_meta:
  "mutate_tables S cop n d (with_meta t a T) = apfst (with_meta t a) (mutate_tables S cop n d T)"
proof (cases cop)
  case (ProxyRecorded port h resp rstub)
  then show ?thesis
    by (simp add: proxy_recorded_def Let_def with_meta_rules record_with_stub_meta
        split: option.split sum.split)
qed (simp_all add: put_imposter_def patch_stubs_def delete_imposter_def delete_all_def set_enabled_def
        put_routes_def delete_route_def session_key_put_def fleet_name_put_def
        proxy_recorded_clear_def Let_def with_meta_rules
        split: option.split sum.split prod.split)

lemma check_preconditions_meta:
  "check_preconditions S (with_meta t a T) request = check_preconditions S T request"
  by (simp add: check_preconditions_def check_expect_absent_def check_expected_revision_def
      split: option.split bool.split precond_target.split)

lemma run_op_meta: "run_op S d n request (with_meta t a T) = apfst (with_meta t a) (run_op S d n request T)"
  by (simp add: run_op_def check_preconditions_meta mutate_meta split: sum.split)

lemma with_meta_own: "with_meta (sm_op_dedup T) (sm_applied T) T = T"
  by (simp add: with_meta_def)

lemma run_op_keeps:
  "sm_op_dedup (fst (run_op S d n request T)) = sm_op_dedup T"
  "sm_applied (fst (run_op S d n request T)) = sm_applied T"
  using run_op_meta [of S d n request "sm_op_dedup T" "sm_applied T" T]
  by (simp_all add: with_meta_own prod_eq_iff) (metis with_meta_simps(7,8))+

lemma response_of_cong: "map_sum id (\<lambda>_. ()) x = map_sum id (\<lambda>_. ()) y \<Longrightarrow> response_of n x = response_of n y"
  by (cases x; cases y) auto

lemma run_op_degraded:
  "fst (run_op S d n request T) = fst (run_op S d' n request T)"
  "response_of n (snd (run_op S d n request T)) = response_of n (snd (run_op S d' n request T))"
  using mutate_degraded [of S "op request" n d T d']
  by (auto simp: run_op_def intro: response_of_cong split: sum.split)

lemma same_live_with_meta:
  "same_live S clock T T' \<longleftrightarrow>
     T' = with_meta (sm_op_dedup T') (sm_applied T') T \<and>
     gc_dedup S clock (sm_op_dedup T') = gc_dedup S clock (sm_op_dedup T)"
proof -
  have "T'\<lparr>sm_op_dedup := [], sm_applied := None\<rparr> = T\<lparr>sm_op_dedup := [], sm_applied := None\<rparr> \<longleftrightarrow>
        T' = with_meta (sm_op_dedup T') (sm_applied T') T"
    by (cases T; cases T') (auto simp: with_meta_def)
  then show ?thesis by (simp add: same_live_def)
qed

section \<open>Lemmas: dedup rows and the logical clock\<close>

lemma gc_dedup_gc: "c \<le> c' \<Longrightarrow> gc_dedup S c' (gc_dedup S c t) = gc_dedup S c' t"
  unfolding gc_dedup_def tretain_tretain
  by (auto simp: tretain_def intro!: filter_cong split: sum.splits)

lemma gc_dedup_mono:
  "c \<le> c' \<Longrightarrow> gc_dedup S c t = gc_dedup S c t' \<Longrightarrow> gc_dedup S c' t = gc_dedup S c' t'"
  by (metis gc_dedup_gc)

lemma gc_dedup_put:
  assumes "twf t" and "twf t'" and "gc_dedup S c t = gc_dedup S c t'"
  shows "gc_dedup S c (tput k row t) = gc_dedup S c (tput k row t')"
  using assms by (simp add: gc_dedup_def tretain_tput)

lemma twf_gc_dedup [simp]: "twf t \<Longrightarrow> twf (gc_dedup S c t)"
  by (simp add: gc_dedup_def)

lemma find_previous_gc:
  assumes "twf t" and "list_all (dedup_row_ok S n) t" and "c \<le> c'"
  shows "find_previous S c' k (gc_dedup S c t) = find_previous S c' k t"
proof (cases "tget t k")
  case None
  with assms show ?thesis by (simp add: find_previous_def gc_dedup_def tget_tretain)
next
  case (Some row)
  then have "dedup_row_ok S n (k, row)" using assms(2) by (auto simp: list_all_iff dest: map_of_SomeD)
  then obtain e where "de_dedup S row = Inr e" by (auto simp: dedup_row_ok_def split: sum.splits)
  with Some assms show ?thesis by (auto simp: find_previous_def gc_dedup_def tget_tretain)
qed

lemma find_previous_total:
  assumes "list_all (dedup_row_ok S n) t"
  shows "\<exists>r. find_previous S c k t = Inr r"
proof (cases "tget t k")
  case None
  then show ?thesis by (simp add: find_previous_def)
next
  case (Some row)
  then have "dedup_row_ok S n (k, row)" using assms by (auto simp: list_all_iff dest: map_of_SomeD)
  with Some show ?thesis by (auto simp: find_previous_def dedup_row_ok_def split: sum.splits)
qed

lemma find_previous_live:
  assumes "tables_wf S n T" and "tables_wf S n T'" and "same_live S c T T'" and "c \<le> c'"
  shows "find_previous S c' k (sm_op_dedup T') = find_previous S c' k (sm_op_dedup T)"
proof -
  have "find_previous S c' k (sm_op_dedup T') = find_previous S c' k (gc_dedup S c (sm_op_dedup T'))"
    using assms by (subst find_previous_gc) (auto simp: tables_wf_def)
  also have "\<dots> = find_previous S c' k (gc_dedup S c (sm_op_dedup T))"
    using assms(3) by (simp add: same_live_def)
  also have "\<dots> = find_previous S c' k (sm_op_dedup T)"
    using assms by (subst find_previous_gc) (auto simp: tables_wf_def)
  finally show ?thesis .
qed

lemma find_previous_revision:
  assumes "list_all (dedup_row_ok S n) t" and "find_previous S c k t = Inr (Some r)"
  shows "revision r \<le> n"
  using assms
  by (auto simp: find_previous_def dedup_row_ok_def list_all_iff split: option.splits sum.splits if_splits
      dest!: map_of_SomeD)

section \<open>Lemmas: one entry\<close>

lemma apply_request_cases:
  assumes "tables_wf S n (bt_tables b)"
  obtains (Replay) response where
      "find_previous S (request_clock request b) (op_id request) (sm_op_dedup (bt_tables b)) = Inr (Some response)"
      "apply_request S d n request b =
         Inr (b\<lparr>bt_applied := (bt_applied b)\<lparr>logical_clock_secs := request_clock request b\<rparr>,
                bt_responses := bt_responses b @ [response]\<rparr>)"
    | (Fresh) T out acts where
      "find_previous S (request_clock request b) (op_id request) (sm_op_dedup (bt_tables b)) = Inr None"
      "run_op S d n request (bt_tables b) = (T, out)"
      "apply_request S d n request b =
         Inr (b\<lparr>bt_applied := (bt_applied b)\<lparr>logical_clock_secs := request_clock request b\<rparr>,
                bt_tables := T\<lparr>sm_op_dedup :=
                  tput (op_id request)
                    (ser_dedup S \<lparr>dd_response = response_of n out,
                                  dd_expires_at_secs = sat_add (request_clock request b) DEDUP_TTL_SECS\<rparr>)
                    (sm_op_dedup T)\<rparr>,
                bt_responses := bt_responses b @ [response_of n out],
                bt_actions := bt_actions b @ acts\<rparr>)"
proof -
  obtain r where r: "find_previous S (request_clock request b) (op_id request)
      (sm_op_dedup (bt_tables b)) = Inr r"
    using assms find_previous_total [of S n "sm_op_dedup (bt_tables b)"] by (auto simp: tables_wf_def)
  show thesis
  proof (cases r)
    case None
    obtain T out where run: "run_op S d n request (bt_tables b) = (T, out)"
      by (cases "run_op S d n request (bt_tables b)")
    with r None show thesis
      by (intro Fresh [of T out "case out of Inr acts \<Rightarrow>
             map (\<lambda>a. \<lparr>aa_principal = principal request, aa_action = a\<rparr>) acts | Inl _ \<Rightarrow> []"])
         (simp_all add: apply_request_def Let_def request_clock_def)
  next
    case (Some response)
    with r show thesis
      by (intro Replay [of response]) (simp_all add: apply_request_def Let_def request_clock_def)
  qed
qed

lemma tables_wf_put_dedup:
  assumes "tables_wf S n T" and "dedup_row_ok S n (k, row)"
  shows "tables_wf S n (T\<lparr>sm_op_dedup := tput k row (sm_op_dedup T)\<rparr>)"
  using assms by (simp add: tables_wf_def list_all_tput marker_ok_def [abs_def])

lemma response_of_revision [simp]: "revision (response_of n out) = n"
  by (cases out) (auto simp: response_applied_def response_failed_def)

lemma apply_request_wf:
  assumes "codec_ok S" and "tables_wf S n (bt_tables b)" and "apply_request S d n request b = Inr b'"
  shows "tables_wf S n (bt_tables b')"
  using assms(2)
proof (cases rule: apply_request_cases [where d = d and request = request])
  case (Fresh T out acts)
  then have "tables_wf S n T" using run_op_wf [OF assms(1,2), of d request] by simp
  moreover have "dedup_row_ok S n (k, ser_dedup S \<lparr>dd_response = response_of n out, dd_expires_at_secs = x\<rparr>)"
    for k x using assms(1) by (simp add: dedup_row_ok_def codec_simps)
  ultimately show ?thesis using Fresh assms(3) by (auto intro: tables_wf_put_dedup)
qed (use assms in auto)

text \<open>What an entry leaves of the cursor, whatever its payload.\<close>

lemma apply_entry_cursor:
  assumes "apply_entry S d e b = Inr b'"
  shows "last_applied_log (bt_applied b') = Some (ent_log_id e)"
    and "logical_clock_secs (bt_applied b) \<le> logical_clock_secs (bt_applied b')"
  using assms
  by (auto simp: apply_entry_def apply_request_def Let_def split: payload.splits sum.splits option.splits
      prod.splits)

lemma log_follows_index:
  "log_follows (last_applied_log a) (e # es) \<Longrightarrow> applied_index a \<le> lid_index (ent_log_id e)"
  by (auto simp: applied_index_def split: option.splits)

lemma apply_entry_wf:
  assumes "codec_ok S" and "batch_wf S b" and "log_follows (last_applied_log (bt_applied b)) [e]"
    and "apply_entry S d e b = Inr b'"
  shows "batch_wf S b'"
proof -
  have wf: "tables_wf S (lid_index (ent_log_id e)) (bt_tables b)"
    using assms(2,3) unfolding batch_wf_def by (rule tables_wf_mono [OF _ log_follows_index])
  have "applied_index (bt_applied b') = lid_index (ent_log_id e)"
    using apply_entry_cursor(1) [OF assms(4)] by (simp add: applied_index_def)
  moreover have "tables_wf S (lid_index (ent_log_id e)) (bt_tables b')"
    using assms(1,4) wf
    by (auto simp: apply_entry_def Let_def split: payload.splits dest: apply_request_wf [rotated 2])
  ultimately show ?thesis by (simp add: batch_wf_def)
qed

lemma apply_entry_total:
  assumes "codec_ok S" and "batch_wf S b" and "log_follows (last_applied_log (bt_applied b)) [e]"
  shows "\<exists>b' r. apply_entry S d e b = Inr b' \<and> bt_responses b' = bt_responses b @ [r]"
proof (cases "ent_payload e")
  case (Normal request)
  let ?b = "b\<lparr>bt_applied := (bt_applied b)\<lparr>last_applied_log := Some (ent_log_id e)\<rparr>\<rparr>"
  have "tables_wf S (lid_index (ent_log_id e)) (bt_tables b)"
    using assms(2,3) unfolding batch_wf_def by (rule tables_wf_mono [OF _ log_follows_index])
  then have "tables_wf S (lid_index (ent_log_id e)) (bt_tables ?b)" by simp
  then show ?thesis
    by (cases rule: apply_request_cases [where d = d and request = request])
       (auto simp: apply_entry_def Let_def Normal)
qed (auto simp: apply_entry_def Let_def)

section \<open>Lemmas: replicas of one log agree\<close>

lemma same_live_mono: "c \<le> c' \<Longrightarrow> same_live S c T T' \<Longrightarrow> same_live S c' T T'"
  unfolding same_live_def by (blast intro: gc_dedup_mono)

lemma same_live_run_op:
  assumes "same_live S c T T'"
  shows "same_live S c (fst (run_op S d n request T)) (fst (run_op S d' n request T'))"
    and "response_of n (snd (run_op S d' n request T')) = response_of n (snd (run_op S d n request T))"
proof -
  have T': "T' = with_meta (sm_op_dedup T') (sm_applied T') T" using assms by (simp add: same_live_with_meta)
  have run: "run_op S d n request T' =
      apfst (with_meta (sm_op_dedup T') (sm_applied T')) (run_op S d n request T)"
    by (subst T') (rule run_op_meta)
  have "fst (run_op S d' n request T') = with_meta (sm_op_dedup T') (sm_applied T') (fst (run_op S d n request T))"
    using run run_op_degraded(1) [of S d' n request T' d] by simp
  then show "same_live S c (fst (run_op S d n request T)) (fst (run_op S d' n request T'))"
    using assms by (simp add: same_live_with_meta run_op_keeps)
  show "response_of n (snd (run_op S d' n request T')) = response_of n (snd (run_op S d n request T))"
    using run run_op_degraded(2) [of n S d' request T' d] by simp
qed

lemma same_live_put:
  assumes "same_live S c T T'" and "twf (sm_op_dedup T)" and "twf (sm_op_dedup T')"
  shows "same_live S c (T\<lparr>sm_op_dedup := tput k row (sm_op_dedup T)\<rparr>)
                       (T'\<lparr>sm_op_dedup := tput k row (sm_op_dedup T')\<rparr>)"
  using assms gc_dedup_put [of "sm_op_dedup T'" "sm_op_dedup T" S c k row] by (simp add: same_live_def)

lemma apply_request_rel:
  assumes wf: "tables_wf S n (bt_tables b)" "tables_wf S n (bt_tables b')"
    and eq: "bt_applied b' = bt_applied b"
    and live: "same_live S (logical_clock_secs (bt_applied b)) (bt_tables b) (bt_tables b')"
  obtains c c' r where "apply_request S d n request b = Inr c" "apply_request S d' n request b' = Inr c'"
    "bt_applied c' = bt_applied c"
    "same_live S (logical_clock_secs (bt_applied c)) (bt_tables c) (bt_tables c')"
    "bt_responses c = bt_responses b @ [r]" "bt_responses c' = bt_responses b' @ [r]"
proof -
  let ?clock = "request_clock request b"
  have clock: "request_clock request b' = ?clock" using eq by (simp add: request_clock_def)
  have le: "logical_clock_secs (bt_applied b) \<le> ?clock" by (simp add: request_clock_def)
  note live' = same_live_mono [OF le live]
  have prev: "find_previous S ?clock (op_id request) (sm_op_dedup (bt_tables b')) =
              find_previous S ?clock (op_id request) (sm_op_dedup (bt_tables b))"
    by (rule find_previous_live [OF wf live le])
  from wf(1) show thesis
  proof (cases rule: apply_request_cases [where d = d and request = request])
    case Replay: (Replay response)
    from wf(2) show thesis
    proof (cases rule: apply_request_cases [where d = d' and request = request])
      case (Replay response')
      with \<open>find_previous S ?clock _ _ = Inr (Some response)\<close> prev clock
      have "response' = response" by simp
      show thesis
        by (rule that [OF \<open>apply_request S d n request b = _\<close> Replay(2)])
           (use live' eq clock \<open>response' = response\<close> in simp_all)
    next
      case (Fresh T out acts)
      with Replay prev clock show thesis by simp
    qed
  next
    case Fresh: (Fresh T out acts)
    from wf(2) show thesis
    proof (cases rule: apply_request_cases [where d = d' and request = request])
      case (Replay response')
      with Fresh prev clock show thesis by simp
    next
      case (Fresh T' out' acts')
      have 1: "same_live S ?clock T T'" "response_of n out' = response_of n out"
        using same_live_run_op [OF live', where d = d and n = n and request = request and d' = d'] Fresh
          \<open>run_op S d n request (bt_tables b) = (T, out)\<close> by simp_all
      have 2: "twf (sm_op_dedup T)" "twf (sm_op_dedup T')"
        using wf run_op_keeps(1) [of S d n request "bt_tables b"]
          run_op_keeps(1) [of S d' n request "bt_tables b'"] Fresh
          \<open>run_op S d n request (bt_tables b) = (T, out)\<close> by (simp_all add: tables_wf_def)
      show thesis
        by (rule that [OF \<open>apply_request S d n request b = _\<close> Fresh(3)])
           (use 1 2 eq clock in \<open>simp_all add: same_live_put\<close>)
    qed
  qed
qed

lemma apply_entry_rel:
  assumes codec: "codec_ok S" and rel: "batch_rel S b b'"
    and follows: "log_follows (last_applied_log (bt_applied b)) [e]"
  obtains c c' r where "apply_entry S d e b = Inr c" "apply_entry S d' e b' = Inr c'" "batch_rel S c c'"
    "bt_responses c = bt_responses b @ [r]" "bt_responses c' = bt_responses b' @ [r]"
proof -
  note finish = that
  have core: thesis if "apply_entry S d e b = Inr c" "apply_entry S d' e b' = Inr c'"
    "bt_applied c' = bt_applied c"
    "same_live S (logical_clock_secs (bt_applied c)) (bt_tables c) (bt_tables c')"
    "bt_responses c = bt_responses b @ [r]" "bt_responses c' = bt_responses b' @ [r]" for c c' r
    using that finish [of c c' r] rel follows
      apply_entry_wf [OF codec, of b e d c] apply_entry_wf [OF codec, of b' e d' c']
    by (auto simp: batch_rel_def)
  show thesis
  proof (cases "ent_payload e")
    case (Normal request)
    let ?n = "lid_index (ent_log_id e)"
    let ?b = "b\<lparr>bt_applied := (bt_applied b)\<lparr>last_applied_log := Some (ent_log_id e)\<rparr>\<rparr>"
    let ?b' = "b'\<lparr>bt_applied := (bt_applied b')\<lparr>last_applied_log := Some (ent_log_id e)\<rparr>\<rparr>"
    have wf: "tables_wf S ?n (bt_tables ?b)" "tables_wf S ?n (bt_tables ?b')"
      using rel log_follows_index [OF follows] by (auto simp: batch_rel_def batch_wf_def intro: tables_wf_mono)
    obtain c c' r where "apply_request S d ?n request ?b = Inr c" "apply_request S d' ?n request ?b' = Inr c'"
      "bt_applied c' = bt_applied c"
      "same_live S (logical_clock_secs (bt_applied c)) (bt_tables c) (bt_tables c')"
      "bt_responses c = bt_responses ?b @ [r]" "bt_responses c' = bt_responses ?b' @ [r]"
      by (rule apply_request_rel [OF wf, of d request d']) (use rel in \<open>auto simp: batch_rel_def\<close>)
    then show thesis using Normal by (intro core [of c c' r]) (auto simp: apply_entry_def Let_def)
  qed (use rel in \<open>auto simp: apply_entry_def Let_def batch_rel_def intro: core\<close>)
qed

lemma apply_entries_follow:
  "apply_entries S d es b = Inr c \<Longrightarrow> log_follows (last_applied_log (bt_applied b)) (es @ es') \<Longrightarrow>
   log_follows (last_applied_log (bt_applied c)) es'"
  by (induction es arbitrary: b) (auto split: sum.splits simp: apply_entry_cursor(1))

lemma apply_entries_rel:
  assumes "codec_ok S"
  shows "batch_rel S b b' \<Longrightarrow> log_follows (last_applied_log (bt_applied b)) es \<Longrightarrow>
         \<exists>c c' rs. apply_entries S d es b = Inr c \<and> apply_entries S d' es b' = Inr c' \<and> batch_rel S c c' \<and>
           bt_responses c = bt_responses b @ rs \<and> bt_responses c' = bt_responses b' @ rs \<and>
           length rs = length es"
proof (induction es arbitrary: b b')
  case (Cons e es)
  have "log_follows (last_applied_log (bt_applied b)) [e]" using Cons.prems(2) by simp
  from apply_entry_rel [OF assms Cons.prems(1) this, of d d']
  obtain c c' r where step: "apply_entry S d e b = Inr c" "apply_entry S d' e b' = Inr c'" "batch_rel S c c'"
    "bt_responses c = bt_responses b @ [r]" "bt_responses c' = bt_responses b' @ [r]" by blast
  have "log_follows (last_applied_log (bt_applied c)) es"
    using Cons.prems(2) by (simp add: apply_entry_cursor(1) [OF step(1)])
  from Cons.IH [OF step(3) this] step show ?case by force
qed simp

lemma tables_wf_meta:
  assumes "tables_wf S n T" and "twf t" and "list_all (dedup_row_ok S n) t"
  shows "tables_wf S n (with_meta t a T)"
  using assms by (simp add: tables_wf_def marker_ok_def [abs_def])

lemma with_meta_with_meta [simp]: "with_meta t a (with_meta t' a' T) = with_meta t a T"
  by (simp add: with_meta_def)

lemma same_live_meta:
  assumes "same_live S c T T'" and "gc_dedup S c t = gc_dedup S c (sm_op_dedup T')"
  shows "same_live S c T (with_meta t a T')"
proof -
  have "T' = with_meta (sm_op_dedup T') (sm_applied T') T" using assms by (simp add: same_live_with_meta)
  then have "with_meta t a T' = with_meta t a T" by (metis with_meta_with_meta)
  with assms show ?thesis by (simp add: same_live_with_meta)
qed

lemma batch_rel_meta:
  assumes "batch_rel S b b'" and "bt_applied x = bt_applied b'" and "bt_tables x = with_meta t a (bt_tables b')"
    and "twf t" and "list_all (dedup_row_ok S (applied_index (bt_applied b'))) t"
    and "gc_dedup S (logical_clock_secs (bt_applied b)) t =
         gc_dedup S (logical_clock_secs (bt_applied b)) (sm_op_dedup (bt_tables b'))"
  shows "batch_rel S b x"
  using assms by (auto simp: batch_rel_def batch_wf_def intro: tables_wf_meta same_live_meta)

lemma log_follows_append: "log_follows l (es @ es') \<Longrightarrow> log_follows l es"
  by (induction es arbitrary: l) auto

lemma apply_entries_append:
  "apply_entries S d (es @ es') b =
     (case apply_entries S d es b of Inl e \<Rightarrow> Inl e | Inr c \<Rightarrow> apply_entries S d es' c)"
  by (induction es arbitrary: b) (auto split: sum.splits)

lemma apply_batch_rel:
  assumes "codec_ok S" and rel: "batch_rel S b (open_batch T)"
    and "log_follows (last_applied_log (bt_applied b)) es"
  shows "\<exists>c T' rs acts. apply_entries S d es b = Inr c \<and> apply_batch S d' es T = Inr (T', rs, acts) \<and>
           batch_rel S c (open_batch T') \<and> bt_responses c = bt_responses b @ rs \<and> length rs = length es"
proof -
  let ?gc = "gc_dedup S (logical_clock_secs (read_applied T)) (sm_op_dedup T)"
  let ?b' = "\<lparr>bt_applied = read_applied T, bt_tables = T\<lparr>sm_op_dedup := ?gc\<rparr>,
              bt_responses = [], bt_actions = []\<rparr>"
  have T1: "T\<lparr>sm_op_dedup := ?gc\<rparr> = with_meta ?gc (sm_applied T) T" by (simp add: with_meta_def)
  have "batch_rel S b ?b'"
  proof (rule batch_rel_meta [OF rel])
    have wf: "tables_wf S (applied_index (read_applied T)) T"
      using rel by (auto simp: batch_rel_def batch_wf_def open_batch_def)
    then show "twf ?gc" by (simp add: tables_wf_def)
    from wf show "list_all (dedup_row_ok S (applied_index (bt_applied (open_batch T)))) ?gc"
      by (simp add: tables_wf_def open_batch_def gc_dedup_def list_all_tretain)
    show "gc_dedup S (logical_clock_secs (bt_applied b)) ?gc =
          gc_dedup S (logical_clock_secs (bt_applied b)) (sm_op_dedup (bt_tables (open_batch T)))"
      using rel by (simp add: batch_rel_def open_batch_def gc_dedup_gc)
  qed (simp_all add: open_batch_def T1)
  from apply_entries_rel [OF assms(1) this assms(3), of d d'] obtain c c' rs where
    run: "apply_entries S d es b = Inr c" "apply_entries S d' es ?b' = Inr c'" "batch_rel S c c'"
      "bt_responses c = bt_responses b @ rs" "bt_responses c' = rs" "length rs = length es" by auto
  let ?T' = "(bt_tables c')\<lparr>sm_applied := Some (bt_applied c')\<rparr>"
  have T': "?T' = with_meta (sm_op_dedup (bt_tables c')) (Some (bt_applied c')) (bt_tables c')"
    by (simp add: with_meta_def)
  have "batch_rel S c (open_batch ?T')"
  proof (rule batch_rel_meta [OF run(3)])
    have "tables_wf S (applied_index (bt_applied c')) (bt_tables c')"
      using run(3) by (auto simp: batch_rel_def batch_wf_def)
    then show "twf (sm_op_dedup (bt_tables c'))"
      and "list_all (dedup_row_ok S (applied_index (bt_applied c'))) (sm_op_dedup (bt_tables c'))"
      by (simp_all add: tables_wf_def)
  qed (simp_all add: open_batch_def T' read_applied_def)
  with run show ?thesis by (auto simp: apply_batch_def Let_def)
qed

lemma apply_log_rel:
  assumes "codec_ok S"
  shows "batch_rel S b (open_batch T) \<Longrightarrow>
         log_follows (last_applied_log (bt_applied b)) (concat (map snd batches)) \<Longrightarrow>
         \<exists>c T' rs. apply_entries S False (concat (map snd batches)) b = Inr c \<and>
           apply_log S batches T = Inr (T', rs) \<and> batch_rel S c (open_batch T') \<and>
           bt_responses c = bt_responses b @ rs \<and> length rs = length (concat (map snd batches))"
proof (induction batches arbitrary: b T)
  case Nil
  then show ?case by auto
next
  case (Cons p batches)
  obtain d es where p: "p = (d, es)" by (cases p)
  let ?later = "concat (map snd batches)"
  have follows: "log_follows (last_applied_log (bt_applied b)) (es @ ?later)" using Cons.prems(2) p by simp
  then have "log_follows (last_applied_log (bt_applied b)) es"
    by (rule log_follows_append)
  from apply_batch_rel [OF assms Cons.prems(1) this, of False d] obtain c T1 rs acts where
    one: "apply_entries S False es b = Inr c" "apply_batch S d es T = Inr (T1, rs, acts)"
      "batch_rel S c (open_batch T1)" "bt_responses c = bt_responses b @ rs" "length rs = length es" by blast
  from Cons.IH [OF one(3) apply_entries_follow [OF one(1) follows]] obtain c2 T2 rs2 where
    rest: "apply_entries S False ?later c = Inr c2" "apply_log S batches T1 = Inr (T2, rs2)"
      "batch_rel S c2 (open_batch T2)" "bt_responses c2 = bt_responses c @ rs2"
      "length rs2 = length ?later" by blast
  have "apply_entries S False (es @ ?later) b = Inr c2"
    using one(1) rest(1) by (simp add: apply_entries_append)
  with one rest p show ?case by auto
qed

section \<open>Predicates of the specification\<close>

definition indices_from :: "u64 \<Rightarrow> entry list \<Rightarrow> bool" where
  "indices_from n es = list_all (\<lambda>e. n \<le> lid_index (ent_log_id e)) es"

text \<open>No record of the port carries a revision below \<open>n\<close>; no route table does.\<close>

definition revision_floor :: "('txt, 'a) seams_scheme \<Rightarrow> u16 \<Rightarrow> u64 \<Rightarrow> 'txt tables \<Rightarrow> bool" where
  "revision_floor S port n T \<longleftrightarrow> codec_ok S \<and> pred_option (\<lambda>r. n \<le> r) (imposter_revision S T port)"

definition routes_floor :: "u64 \<Rightarrow> 'txt tables \<Rightarrow> bool" where
  "routes_floor n T \<longleftrightarrow> (case sm_routes_revision T of None \<Rightarrow> n = 0 | Some r \<Rightarrow> n \<le> r)"

definition remembers :: "('txt, 'a) seams_scheme \<Rightarrow> string \<Rightarrow> control_response \<Rightarrow> u64 \<Rightarrow> 'txt tables \<Rightarrow> bool" where
  "remembers S key response until T \<longleftrightarrow>
     (case tget (sm_op_dedup T) key of
        None \<Rightarrow> False
      | Some row \<Rightarrow> de_dedup S row = Inr \<lparr>dd_response = response, dd_expires_at_secs = until\<rparr>)"

section \<open>Predicates every op keeps hold along the log\<close>

locale replicated =
  fixes S :: "('txt, 'a) seams_scheme" and floor :: u64 and P :: "'txt tables \<Rightarrow> bool"
  assumes meta: "P (with_meta t a T) = P T"
    and step: "floor \<le> n \<Longrightarrow> P T \<Longrightarrow> P (fst (run_op S d n request T))"
begin

lemma put_dedup: "P (T\<lparr>sm_op_dedup := t\<rparr>) = P T"
  using meta [of t "sm_applied T" T] by (simp add: with_meta_def)

lemma put_applied: "P (T\<lparr>sm_applied := a\<rparr>) = P T"
  using meta [of "sm_op_dedup T" a T] by (simp add: with_meta_def)

lemma request:
  assumes "floor \<le> n" and "P (bt_tables b)" and "apply_request S d n request b = Inr b'"
  shows "P (bt_tables b')"
proof -
  have "P (fst (run_op S d n request (bt_tables b)))" using assms by (simp add: step)
  with assms show ?thesis
    by (auto simp: apply_request_def Let_def put_dedup split: sum.splits option.splits prod.splits)
qed

lemma entry:
  assumes "floor \<le> lid_index (ent_log_id e)" and "P (bt_tables b)" and "apply_entry S d e b = Inr b'"
  shows "P (bt_tables b')"
proof (cases "ent_payload e")
  case (Normal r)
  with assms(3) show ?thesis using assms(2)
    by (auto simp: apply_entry_def Let_def intro: request [OF assms(1), rotated])
qed (use assms in \<open>auto simp: apply_entry_def Let_def\<close>)

lemma entries:
  "indices_from floor es \<Longrightarrow> P (bt_tables b) \<Longrightarrow> apply_entries S d es b = Inr b' \<Longrightarrow> P (bt_tables b')"
proof (induction es arbitrary: b)
  case (Cons e es)
  then obtain c where "apply_entry S d e b = Inr c" "apply_entries S d es c = Inr b'"
    by (auto split: sum.splits)
  with Cons show ?case by (auto simp: indices_from_def dest: entry)
qed simp

lemma batch:
  assumes "indices_from floor es" and "P T" and "apply_batch S d es T = Inr (T', rs, acts)"
  shows "P T'"
  using assms by (auto simp: apply_batch_def Let_def put_dedup put_applied split: sum.splits
      dest!: entries [rotated 2])

lemma log:
  "indices_from floor (concat (map snd batches)) \<Longrightarrow> P T \<Longrightarrow> apply_log S batches T = Inr (T', rs) \<Longrightarrow> P T'"
proof (induction batches arbitrary: T rs)
  case (Cons p batches)
  obtain d es where p: "p = (d, es)" by (cases p)
  with Cons.prems(3) obtain T1 rs1 acts rs2 where
    "apply_batch S d es T = Inr (T1, rs1, acts)" "apply_log S batches T1 = Inr (T', rs2)"
    by (auto split: sum.splits)
  with Cons p show ?case by (auto simp: indices_from_def dest: batch [rotated 2])
qed simp

end

lemma log_follows_indices:
  "log_follows (Some l) es \<Longrightarrow> n \<le> lid_index l \<Longrightarrow> indices_from n es"
proof (induction es arbitrary: l)
  case (Cons e es)
  then have "lid_index l < lid_index (ent_log_id e)" by simp
  with Cons.prems(2) have "n \<le> lid_index (ent_log_id e)" by (rule order.trans [OF _ less_imp_le])
  with Cons show ?case by (auto simp: indices_from_def)
qed (simp add: indices_from_def)

section \<open>Lemmas: revisions only grow\<close>

lemma forget_configs [simp]:
  "sm_configs (forget_markers p hs T) = sm_configs T" "sm_configs (forget_port p T) = sm_configs T"
  "sm_configs (forget_replaced S p config T) = sm_configs T"
  "sm_routes_revision (forget_markers p hs T) = sm_routes_revision T"
  "sm_routes_revision (forget_port p T) = sm_routes_revision T"
  "sm_routes_revision (forget_replaced S p config T) = sm_routes_revision T"
  "sm_routes_revision (store_imposter S p rec config n T) = sm_routes_revision T"
  by (simp_all add: forget_markers_def forget_port_def forget_replaced_def store_imposter_def
      split: option.split sum.split)

lemma imposter_revision_store:
  assumes "codec_ok S"
  shows "imposter_revision S (store_imposter S p rec config n T) port =
           (if port = p then Some n else imposter_revision S T port)"
  by (simp add: imposter_revision_def codec_simps [OF assms])

lemma imposter_revision_markers [simp]:
  "imposter_revision S (forget_markers p hs T) port = imposter_revision S T port"
  "imposter_revision S (forget_port p T) port = imposter_revision S T port"
  "imposter_revision S (T\<lparr>sm_proxy_recorded := t\<rparr>) port = imposter_revision S T port"
  by (simp_all add: imposter_revision_def)

text \<open>The three things an op can do to a port's revision.\<close>

lemma mutate_revision:
  assumes "codec_ok S"
  shows "imposter_revision S (fst (mutate_tables S cop n d T)) port
           \<in> {None, Some n, imposter_revision S T port}"
proof -
  note rules = imposter_revision_store [OF assms]
  show ?thesis
  proof (cases cop)
    case (PutImposter config restart)
    then show ?thesis
      by (auto simp: put_imposter_def Let_def rules imposter_revision_def codec_simps [OF assms] split: option.splits)
  next
    case (PatchStubs p edit)
    then show ?thesis by (auto simp: patch_stubs_def Let_def rules split: sum.split prod.split)
  next
    case (ProxyRecorded p h resp rstub)
    then show ?thesis
      by (auto simp: proxy_recorded_def record_with_stub_def Let_def rules split: sum.split prod.split option.split)
  next
    case (ProxyRecordedClear p)
    then show ?thesis
      by (auto simp: proxy_recorded_clear_def Let_def rules split: sum.split prod.split)
  next
    case (SetEnabled p enabled)
    then show ?thesis by (auto simp: set_enabled_def Let_def rules split: sum.split)
  qed (auto simp: delete_imposter_def delete_all_def put_routes_def delete_route_def session_key_put_def
        fleet_name_put_def imposter_revision_def Let_def)
qed

lemma run_op_revision:
  "codec_ok S \<Longrightarrow>
   imposter_revision S (fst (run_op S d n request T)) port \<in> {None, Some n, imposter_revision S T port}"
  using mutate_revision [of S "op request" n d T port] by (auto simp: run_op_def split: sum.split)

lemma mutate_routes_revision:
  "sm_routes_revision (fst (mutate_tables S cop n d T)) \<in> {Some n, sm_routes_revision T}"
  by (cases cop)
     (auto simp: put_imposter_def patch_stubs_def delete_imposter_def delete_all_def set_enabled_def
        put_routes_def delete_route_def session_key_put_def fleet_name_put_def proxy_recorded_def
        record_with_stub_def proxy_recorded_clear_def Let_def
        split: option.split sum.split prod.split)

lemma run_op_routes_revision:
  "sm_routes_revision (fst (run_op S d n request T)) \<in> {Some n, sm_routes_revision T}"
  using mutate_routes_revision [of S "op request" n d T] by (auto simp: run_op_def split: sum.split)

interpretation port_rev: replicated S n "revision_floor S port n"
  for S :: "('txt, 'a) seams_scheme" and n :: u64 and port :: u16
proof
  show "revision_floor S port n (with_meta t a T) = revision_floor S port n T" for t a T
    by (simp add: revision_floor_def imposter_revision_def)
  show "revision_floor S port n (fst (run_op S d m request T))"
    if "n \<le> m" "revision_floor S port n T" for m T d request
    using that run_op_revision [of S d m request T port] by (auto simp: revision_floor_def)
qed

interpretation routes_rev: replicated S n "routes_floor n"
  for S :: "('txt, 'a) seams_scheme" and n :: u64
proof
  show "routes_floor n (with_meta t a T) = routes_floor n T" for t a and T :: "'txt tables"
    by (simp add: routes_floor_def)
  show "routes_floor n (fst (run_op S d m request T))"
    if "n \<le> m" "routes_floor n T" for m T d request
    using that run_op_routes_revision [of S d m request T]
    by (auto simp: routes_floor_def split: option.splits)
qed

section \<open>Lemmas: a live dedup row is kept\<close>

lemma remembers_previous:
  "remembers S key response until T \<Longrightarrow> clock < until \<Longrightarrow>
   find_previous S clock key (sm_op_dedup T) = Inr (Some response)"
  by (auto simp: remembers_def find_previous_def split: option.splits)

lemma remembers_gc:
  assumes "remembers S key response until T" and "clock < until" and "twf (sm_op_dedup T)"
  shows "remembers S key response until (T\<lparr>sm_op_dedup := gc_dedup S clock (sm_op_dedup T)\<rparr>)"
  using assms by (auto simp: remembers_def gc_dedup_def tget_tretain split: option.splits)

lemma apply_entry_remembers:
  assumes "remembers S key response until (bt_tables b)" and "apply_entry S d e b = Inr b'"
    and "logical_clock_secs (bt_applied b') < until"
  shows "remembers S key response until (bt_tables b')"
proof (cases "ent_payload e")
  case (Normal request)
  let ?b = "b\<lparr>bt_applied := (bt_applied b)\<lparr>last_applied_log := Some (ent_log_id e)\<rparr>\<rparr>"
  let ?n = "lid_index (ent_log_id e)"
  let ?prev = "find_previous S (request_clock request b) (op_id request) (sm_op_dedup (bt_tables b))"
  have run: "apply_request S d ?n request ?b = Inr b'"
    using assms(2) Normal by (simp add: apply_entry_def Let_def)
  then have clock: "logical_clock_secs (bt_applied b') = request_clock request b"
    by (auto simp: apply_request_def Let_def request_clock_def split: sum.splits option.splits prod.splits)
  show ?thesis
  proof (cases "op_id request = key")
    case True
    with assms(1,3) clock have "?prev = Inr (Some response)" by (simp add: remembers_previous)
    with run assms(1) show ?thesis
      by (auto simp: apply_request_def Let_def request_clock_def)
  next
    case False
    have "sm_op_dedup (fst (run_op S d ?n request (bt_tables b))) = sm_op_dedup (bt_tables b)"
      by (rule run_op_keeps(1))
    with run assms(1) False show ?thesis
      by (auto simp: apply_request_def Let_def remembers_def split: sum.splits option.splits prod.splits)
  qed
qed (use assms in \<open>auto simp: apply_entry_def Let_def\<close>)

lemma apply_entries_clock:
  "apply_entries S d es b = Inr b' \<Longrightarrow>
   logical_clock_secs (bt_applied b) \<le> logical_clock_secs (bt_applied b')"
proof (induction es arbitrary: b)
  case (Cons e es)
  then obtain c where c: "apply_entry S d e b = Inr c" "apply_entries S d es c = Inr b'"
    by (auto split: sum.splits)
  from order.trans [OF apply_entry_cursor(2) [OF c(1)] Cons.IH [OF c(2)]] show ?case .
qed simp

lemma apply_entries_remembers:
  "remembers S key response until (bt_tables b) \<Longrightarrow> apply_entries S d es b = Inr b' \<Longrightarrow>
   logical_clock_secs (bt_applied b') < until \<Longrightarrow> remembers S key response until (bt_tables b')"
proof (induction es arbitrary: b)
  case (Cons e es)
  then obtain c where c: "apply_entry S d e b = Inr c" "apply_entries S d es c = Inr b'"
    by (auto split: sum.splits)
  have "logical_clock_secs (bt_applied c) < until"
    using order.strict_trans1 [OF apply_entries_clock [OF c(2)] Cons.prems(3)] .
  with Cons.prems c Cons.IH show ?case by (blast intro: apply_entry_remembers)
qed simp

lemma apply_batch_clock:
  assumes "apply_batch S d es T = Inr (T', rs, acts)"
  shows "logical_clock_secs (read_applied T) \<le> logical_clock_secs (read_applied T')"
  using assms
  by (auto simp: apply_batch_def Let_def read_applied_def [of "tables.sm_applied_update _ _"]
      split: sum.splits dest!: apply_entries_clock)

lemma apply_log_clock:
  "apply_log S batches T = Inr (T', rs) \<Longrightarrow>
   logical_clock_secs (read_applied T) \<le> logical_clock_secs (read_applied T')"
proof (induction batches arbitrary: T rs)
  case (Cons p batches)
  obtain d es where p: "p = (d, es)" by (cases p)
  with Cons.prems obtain T1 rs1 acts rs2 where
    one: "apply_batch S d es T = Inr (T1, rs1, acts)" "apply_log S batches T1 = Inr (T', rs2)"
    by (auto split: sum.splits)
  from order.trans [OF apply_batch_clock [OF one(1)] Cons.IH [OF one(2)]] show ?case .
qed simp

lemma apply_batch_remembers:
  assumes "remembers S key response until T" and "apply_batch S d es T = Inr (T', rs, acts)"
    and "logical_clock_secs (read_applied T') < until" and "twf (sm_op_dedup T)"
  shows "remembers S key response until T'"
proof -
  let ?T1 = "T\<lparr>sm_op_dedup := gc_dedup S (logical_clock_secs (read_applied T)) (sm_op_dedup T)\<rparr>"
  let ?b = "\<lparr>bt_applied = read_applied T, bt_tables = ?T1, bt_responses = [], bt_actions = []\<rparr>"
  have "logical_clock_secs (read_applied T) < until"
    using order.strict_trans1 [OF apply_batch_clock [OF assms(2)] assms(3)] .
  then have kept: "remembers S key response until (bt_tables ?b)" using assms by (simp add: remembers_gc)
  obtain b' where run: "apply_entries S d es ?b = Inr b'"
    and T': "T' = (bt_tables b')\<lparr>sm_applied := Some (bt_applied b')\<rparr>"
    using assms(2) by (auto simp: apply_batch_def Let_def split: sum.splits)
  have "logical_clock_secs (bt_applied b') < until"
    using assms(3) T' by (simp add: read_applied_def)
  from apply_entries_remembers [OF kept run this]
  show ?thesis using T' by (simp add: remembers_def)
qed

lemma batch_rel_refl:
  "tables_wf S (applied_index (read_applied T)) T \<Longrightarrow> batch_rel S (open_batch T) (open_batch T)"
  by (simp add: batch_rel_def batch_wf_def open_batch_def same_live_def)

text \<open>Applying a log that follows the applied one never fails, answers every entry and keeps the
  invariant.\<close>

lemma apply_batch_ok:
  assumes "codec_ok S" and "tables_wf S (applied_index (read_applied T)) T"
    and "log_follows (last_applied_log (read_applied T)) es"
  obtains T' rs acts where "apply_batch S d es T = Inr (T', rs, acts)"
    "tables_wf S (applied_index (read_applied T')) T'" "length rs = length es"
proof -
  have "log_follows (last_applied_log (bt_applied (open_batch T))) es" using assms by (simp add: open_batch_def)
  from apply_batch_rel [OF assms(1) batch_rel_refl [OF assms(2)] this, of d d] that show thesis
    by (auto simp: batch_rel_def batch_wf_def open_batch_def)
qed

lemma apply_log_remembers:
  assumes "codec_ok S"
  shows "remembers S key response until T \<Longrightarrow> apply_log S batches T = Inr (T', rs) \<Longrightarrow>
    logical_clock_secs (read_applied T') < until \<Longrightarrow> tables_wf S (applied_index (read_applied T)) T \<Longrightarrow>
    log_follows (last_applied_log (read_applied T)) (concat (map snd batches)) \<Longrightarrow>
    remembers S key response until T'"
proof (induction batches arbitrary: T rs)
  case (Cons p batches)
  obtain d es where p: "p = (d, es)" by (cases p)
  with Cons.prems obtain T1 rs1 acts rs2 where
    one: "apply_batch S d es T = Inr (T1, rs1, acts)" "apply_log S batches T1 = Inr (T', rs2)"
    by (auto split: sum.splits)
  have follows: "log_follows (last_applied_log (read_applied T)) (es @ concat (map snd batches))"
    using Cons.prems(5) p by simp
  have "logical_clock_secs (read_applied T1) < until"
    using order.strict_trans1 [OF apply_log_clock [OF one(2)] Cons.prems(3)] .
  then have "remembers S key response until T1"
    using Cons.prems one by (auto simp: tables_wf_def intro: apply_batch_remembers)
  moreover have "tables_wf S (applied_index (read_applied T1)) T1"
    by (rule apply_batch_ok [OF assms Cons.prems(4) log_follows_append [OF follows], of d])
       (use one in auto)
  moreover have "log_follows (last_applied_log (read_applied T1)) (concat (map snd batches))"
    using one(1) follows by (auto simp: apply_batch_def Let_def read_applied_def [of "sm_applied_update _ _"]
        split: sum.splits dest: apply_entries_follow)
  ultimately show ?case using Cons.IH one Cons.prems(3) by blast
qed simp

section \<open>Predicates of the specification\<close>

definition replay_log :: "(bool \<times> entry list) list" where
  "replay_log =
     [(False, [sample_entry 1 (sample_request ''a'' 10 None (DeleteRoute ''x''))]),
      (True, [sample_entry 2 (sample_request ''b'' 12 None DeleteAll)])]"

section \<open>Lemmas: a replay in its own batch\<close>

lemma apply_batch_follows:
  assumes "apply_batch S d es T = Inr (T', rs, acts)"
    and "log_follows (last_applied_log (read_applied T)) (es @ es')"
  shows "log_follows (last_applied_log (read_applied T')) es'"
  using assms
  by (auto simp: apply_batch_def Let_def read_applied_def [of "sm_applied_update _ _"]
      split: sum.splits dest: apply_entries_follow)

lemma first_remembers:
  assumes "codec_ok S" and "twf (sm_op_dedup T)" and "ent_payload e = Normal request"
    and "tget (sm_op_dedup T) (op_id request) = None"
    and "apply_batch S d [e] T = Inr (T', [response], acts)"
  shows "remembers S (op_id request) response
           (sat_add (max (logical_clock_secs (read_applied T)) (issued_at_secs request)) DEDUP_TTL_SECS) T'"
proof -
  let ?t = "gc_dedup S (logical_clock_secs (read_applied T)) (sm_op_dedup T)"
  have "tget ?t (op_id request) = None" using assms(2,4) by (simp add: gc_dedup_def tget_tretain)
  then have "find_previous S c (op_id request) ?t = Inr None" for c by (simp add: find_previous_def)
  with assms show ?thesis
    by (auto simp: apply_batch_def apply_entry_def apply_request_def Let_def remembers_def codec_simps
        split: prod.splits)
qed

lemma replay_batch:
  assumes "remembers S key response until T" and "twf (sm_op_dedup T)" and "ent_payload e = Normal request"
    and "op_id request = key"
    and live: "max (logical_clock_secs (read_applied T)) (issued_at_secs request) < until"
  shows "\<exists>T'. apply_batch S d [e] T = Inr (T', [response], []) \<and>
           T'\<lparr>sm_op_dedup := [], sm_applied := None\<rparr> = T\<lparr>sm_op_dedup := [], sm_applied := None\<rparr>"
proof -
  let ?clock = "logical_clock_secs (read_applied T)"
  have "?clock < until" using live by simp
  with assms have "remembers S key response until (T\<lparr>sm_op_dedup := gc_dedup S ?clock (sm_op_dedup T)\<rparr>)"
    by (simp add: remembers_gc)
  from remembers_previous [OF this live]
  have "find_previous S (max ?clock (issued_at_secs request)) (op_id request)
      (gc_dedup S ?clock (sm_op_dedup T)) = Inr (Some response)" using assms(4) by simp
  with assms(3) show ?thesis by (simp add: apply_batch_def apply_entry_def apply_request_def Let_def)
qed

lemma apply_log_wf:
  assumes "codec_ok S" and "tables_wf S (applied_index (read_applied T)) T"
    and "log_follows (last_applied_log (read_applied T)) (concat (map snd batches))"
    and "apply_log S batches T = Inr (T', rs)"
  shows "tables_wf S (applied_index (read_applied T')) T'"
proof -
  have "log_follows (last_applied_log (bt_applied (open_batch T))) (concat (map snd batches))"
    using assms(3) by (simp add: open_batch_def)
  from apply_log_rel [OF assms(1) batch_rel_refl [OF assms(2)] this] assms(4) show ?thesis
    by (auto simp: batch_rel_def batch_wf_def open_batch_def)
qed

section \<open>Properties of the replicated log\<close>

text \<open>C6. Applying a batch that follows the applied log never fails: it answers every entry, and the
  tables it leaves satisfy the invariant at the new applied index. Every imposter row decodes, is
  keyed by its config's port, carries the config's enabled flag and a revision no later than the
  applied index; every route row is keyed by its id; every recording marker belongs to an imposter.\<close>

theorem apply_batch_total_and_wf:
  assumes "codec_ok S" and "tables_wf S (applied_index (read_applied T)) T"
    and "log_follows (last_applied_log (read_applied T)) es"
  shows "\<exists>T' rs acts. apply_batch S degraded es T = Inr (T', rs, acts) \<and>
           tables_wf S (applied_index (read_applied T')) T' \<and> length rs = length es"
  by (rule apply_batch_ok [OF assms, of degraded]) blast

theorem apply_batch_total_and_wf_witness:
  "\<exists>T' rs acts.
     apply_batch doc_seams False
       [sample_entry 1 (sample_request ''a'' 0 None (PutImposter (sample_config 4545 [proxy_stub]) None))]
       empty_tables = Inr (T', rs, acts) \<and>
     tables_wf doc_seams (applied_index (read_applied T')) T' \<and> length rs = 1"
  using apply_batch_total_and_wf [OF doc_codec_ok empty_tables_wf, where degraded = False and
      es = "[sample_entry 1 (sample_request ''a'' 0 None (PutImposter (sample_config 4545 [proxy_stub]) None))]"]
  by (simp add: read_applied_empty last_applied_default)

text \<open>C2. Replicas agree. Two nodes that apply the same log from the same state, whatever the batches
  it reaches them in and whatever the health of their engines when each batch ran, return the same
  responses and end with the same tables, expired dedup rows apart.\<close>

theorem replicas_agree:
  assumes "codec_ok S" and "tables_wf S (applied_index (read_applied T)) T"
    and "concat (map snd batches1) = concat (map snd batches2)"
    and "log_follows (last_applied_log (read_applied T)) (concat (map snd batches1))"
  shows "\<exists>T1 T2 rs. apply_log S batches1 T = Inr (T1, rs) \<and> apply_log S batches2 T = Inr (T2, rs) \<and>
           read_applied T1 = read_applied T2 \<and>
           same_live S (logical_clock_secs (read_applied T1)) T1 T2"
proof -
  have rel: "batch_rel S (open_batch T) (open_batch T)" using assms(2) by (rule batch_rel_refl)
  have follows: "log_follows (last_applied_log (bt_applied (open_batch T))) (concat (map snd batches1))"
    using assms(4) by (simp add: open_batch_def)
  obtain c T1 rs where 1: "apply_entries S False (concat (map snd batches1)) (open_batch T) = Inr c"
    "apply_log S batches1 T = Inr (T1, rs)" "batch_rel S c (open_batch T1)" "bt_responses c = rs"
    using apply_log_rel [OF assms(1) rel follows] by (auto simp: open_batch_def)
  obtain c' T2 rs' where 2: "apply_entries S False (concat (map snd batches2)) (open_batch T) = Inr c'"
    "apply_log S batches2 T = Inr (T2, rs')" "batch_rel S c' (open_batch T2)" "bt_responses c' = rs'"
    using apply_log_rel [OF assms(1) rel follows [unfolded assms(3)]] by (auto simp: open_batch_def)
  have "c' = c" using 1(1) 2(1) assms(3) by simp
  with 1 2 show ?thesis by (auto simp: batch_rel_def open_batch_def same_live_def)
qed

theorem replicas_agree_witness:
  "\<exists>T1 T2 rs.
     apply_log doc_seams
       [(False, [sample_entry 1 (sample_request ''a'' 0 None (DeleteRoute ''x''))]),
        (True, [sample_entry 2 (sample_request ''b'' 0 None (DeleteAll))])] empty_tables = Inr (T1, rs) \<and>
     apply_log doc_seams
       [(True, [sample_entry 1 (sample_request ''a'' 0 None (DeleteRoute ''x'')),
                sample_entry 2 (sample_request ''b'' 0 None (DeleteAll))])] empty_tables = Inr (T2, rs) \<and>
     read_applied T1 = read_applied T2 \<and>
     same_live doc_seams (logical_clock_secs (read_applied T1)) T1 T2"
  by (rule replicas_agree [OF doc_codec_ok empty_tables_wf])
     (simp_all add: read_applied_empty last_applied_default sample_entry_def)

text \<open>C5. An op is applied once. A request replayed with the same op id, after any batches of other
  entries and while its dedup row lives, is answered with the response of its first application and
  changes none of the replicated tables.\<close>

theorem replay_answered_once:
  assumes codec: "codec_ok S" and wf: "tables_wf S (applied_index (read_applied T)) T"
    and follows: "log_follows (last_applied_log (read_applied T)) (e # concat (map snd batches) @ [e'])"
    and req: "ent_payload e = Normal request" "ent_payload e' = Normal request'" "op_id request' = op_id request"
    and fresh: "tget (sm_op_dedup T) (op_id request) = None"
    and log: "apply_log S ((degraded, [e]) # batches) T = Inr (T1, response # responses)"
    and live: "max (logical_clock_secs (read_applied T1)) (issued_at_secs request') <
               sat_add (max (logical_clock_secs (read_applied T)) (issued_at_secs request)) DEDUP_TTL_SECS"
  shows "\<exists>T2. apply_batch S degraded' [e'] T1 = Inr (T2, [response], []) \<and>
           T2\<lparr>sm_op_dedup := [], sm_applied := None\<rparr> = T1\<lparr>sm_op_dedup := [], sm_applied := None\<rparr>"
proof -
  let ?until = "sat_add (max (logical_clock_secs (read_applied T)) (issued_at_secs request)) DEDUP_TTL_SECS"
  obtain T0 rs0 acts0 where first: "apply_batch S degraded [e] T = Inr (T0, rs0, acts0)"
    "tables_wf S (applied_index (read_applied T0)) T0" "length rs0 = 1"
    using apply_batch_ok [OF codec wf, of "[e]" degraded] follows by auto
  with log obtain responses' where rest: "apply_log S batches T0 = Inr (T1, responses')" "rs0 = [response]"
    by (cases rs0) (auto split: sum.splits prod.splits)
  have "twf (sm_op_dedup T)" using wf by (simp add: tables_wf_def)
  from first_remembers [OF codec this req(1) fresh first(1) [unfolded rest(2)]]
  have remember: "remembers S (op_id request) response ?until T0" .
  have follows0: "log_follows (last_applied_log (read_applied T0)) (concat (map snd batches) @ [e'])"
    using apply_batch_follows [OF first(1)] follows by simp
  have "remembers S (op_id request) response ?until T1"
    using apply_log_remembers [OF codec remember rest(1) _ first(2) log_follows_append [OF follows0]] live
    by simp
  moreover have "twf (sm_op_dedup T1)"
    using apply_log_wf [OF codec first(2) log_follows_append [OF follows0] rest(1)] by (simp add: tables_wf_def)
  ultimately show ?thesis using replay_batch [OF _ _ req(2,3) live] by blast
qed

lemma empty_dedup: "sm_op_dedup empty_tables = []"
  by (simp add: empty_tables_def)

lemma replay_log_run:
  "apply_log doc_seams replay_log empty_tables =
     Inr (fst (projr (apply_log doc_seams replay_log empty_tables)),
          [response_applied 1, response_applied 2])"
  "logical_clock_secs (read_applied (fst (projr (apply_log doc_seams replay_log empty_tables)))) = 12"
  by code_simp+

theorem replay_answered_once_witness:
  "\<exists>T1 T2.
     apply_log doc_seams replay_log empty_tables = Inr (T1, [response_applied 1, response_applied 2]) \<and>
     apply_batch doc_seams True [sample_entry 3 (sample_request ''a'' 20 None (DeleteRoute ''y''))] T1 =
       Inr (T2, [response_applied 1], []) \<and>
     T2\<lparr>sm_op_dedup := [], sm_applied := None\<rparr> = T1\<lparr>sm_op_dedup := [], sm_applied := None\<rparr>"
proof -
  obtain T1 where T1: "apply_log doc_seams replay_log empty_tables =
      Inr (T1, [response_applied 1, response_applied 2])" "logical_clock_secs (read_applied T1) = 12"
    using replay_log_run by blast
  have "\<exists>T2. apply_batch doc_seams True [sample_entry 3 (sample_request ''a'' 20 None (DeleteRoute ''y''))] T1 =
      Inr (T2, [response_applied 1], []) \<and>
     T2\<lparr>sm_op_dedup := [], sm_applied := None\<rparr> = T1\<lparr>sm_op_dedup := [], sm_applied := None\<rparr>"
  proof (rule replay_answered_once [OF doc_codec_ok empty_tables_wf])
    show "apply_log doc_seams ((False, [sample_entry 1 (sample_request ''a'' 10 None (DeleteRoute ''x''))]) #
        [(True, [sample_entry 2 (sample_request ''b'' 12 None DeleteAll)])]) empty_tables =
        Inr (T1, response_applied 1 # [response_applied 2])" using T1(1) by (simp only: replay_log_def)
    show "max (logical_clock_secs (read_applied T1)) (issued_at_secs (sample_request ''a'' 20 None (DeleteRoute ''y'')))
        < sat_add (max (logical_clock_secs (read_applied (empty_tables :: doc tables)))
            (issued_at_secs (sample_request ''a'' 10 None (DeleteRoute ''x'')))) DEDUP_TTL_SECS"
      unfolding T1(2) read_applied_empty by code_simp
  qed (simp_all add: read_applied_empty last_applied_default sample_entry_def sample_request_def empty_dedup)
  with T1 show ?thesis by blast
qed

end
