(* ===== verification/FleetSpec.thy ===== *)
theory FleetSpec
  imports ApplyLog
begin

text \<open>
  What the control plane promises, without rows, text or tables: the fleet as typed maps, and each op
  as a function of them. The refinement lemma at the end states that the state machine implements
  it: the fleet the tables stand for after an op is the fleet the specification gives, and both
  refuse the same ops with the same reason.
\<close>

section \<open>The specification\<close>

text \<open>An imposter is its config and the log index that last wrote it; a marker is the recorded
  response a signature was answered with.\<close>

record 'txt fleet =
  fl_imposters :: "u16 \<Rightarrow> (imposter_config \<times> u64) option"
  fl_routes :: "string \<Rightarrow> route option"
  fl_routes_revision :: "u64 option"
  fl_session_key :: "session_key option"
  fl_fleet_name :: "string option"
  fl_markers :: "u16 \<times> string \<Rightarrow> 'txt option"

definition spec_check_revision :: "'txt fleet \<Rightarrow> control_op \<Rightarrow> u64 \<Rightarrow> unit result" where
  "spec_check_revision F cop expected =
     (case precondition_target cop of
        None \<Rightarrow> Inl (''revision conflict: expected-revision preconditions apply to single-imposter and '' @
                     ''route-table operations only'')
      | Some (TargetImposter port) \<Rightarrow>
          (case fl_imposters F port of
             None \<Rightarrow> Inl (''revision conflict: expected revision '' @ show_word expected @
                          '' but no imposter on port '' @ show_word port)
           | Some (_, actual) \<Rightarrow>
               if actual = expected then Inr ()
               else Inl (''revision conflict: expected revision '' @ show_word expected @
                         '', stored revision '' @ show_word actual @ '' on port '' @ show_word port))
      | Some TargetRouteTable \<Rightarrow>
          (let actual = (case fl_routes_revision F of None \<Rightarrow> 0 | Some r \<Rightarrow> r) in
           if actual = expected then Inr ()
           else Inl (''revision conflict: expected revision '' @ show_word expected @
                     '', stored revision '' @ show_word actual @ '' for the route table'')))"

definition spec_check_absent :: "'txt fleet \<Rightarrow> control_op \<Rightarrow> unit result" where
  "spec_check_absent F cop =
     (case precondition_target cop of
        Some (TargetImposter port) \<Rightarrow>
          if fl_imposters F port \<noteq> None then Inl (''Port '' @ show_word port @ '' is already in use'') else Inr ()
      | _ \<Rightarrow> Inl (''revision conflict: an absent-record precondition applies to single-imposter '' @
                  ''operations only''))"

definition spec_check :: "'txt fleet \<Rightarrow> control_request \<Rightarrow> unit result" where
  "spec_check F request =
     (case (expected_revision request, expect_absent request) of
        (None, False) \<Rightarrow> Inr ()
      | (Some expected, False) \<Rightarrow> spec_check_revision F (op request) expected
      | (None, True) \<Rightarrow> spec_check_absent F (op request)
      | (Some _, True) \<Rightarrow>
          Inl ''revision conflict: expect_absent and expected_revision cannot be combined'')"

definition no_imposter :: "u16 \<Rightarrow> string" where
  "no_imposter port = ''no imposter on port '' @ show_word port"

text \<open>Forgetting the markers of one port that satisfy \<open>gone\<close>.\<close>

definition drop_markers :: "u16 \<Rightarrow> (string \<Rightarrow> bool) \<Rightarrow> 'txt fleet \<Rightarrow> 'txt fleet" where
  "drop_markers port gone F =
     F\<lparr>fl_markers := (\<lambda>(p, h). if p = port \<and> gone h then None else fl_markers F (p, h))\<rparr>"

definition set_imposter :: "u16 \<Rightarrow> imposter_config \<Rightarrow> u64 \<Rightarrow> 'txt fleet \<Rightarrow> 'txt fleet" where
  "set_imposter port config n F = F\<lparr>fl_imposters := (fl_imposters F)(port \<mapsto> (config, n))\<rparr>"

definition spec_put :: "'a upstream_scheme \<Rightarrow> imposter_config \<Rightarrow> restart option \<Rightarrow> u64 \<Rightarrow> 'txt fleet \<Rightarrow> string + 'txt fleet" where
  "spec_put U config restart n F =
     (case ic_port config of
        None \<Rightarrow> Inl ''config must carry an explicit port''
      | Some port \<Rightarrow>
          Inr (set_imposter port config n
                 (drop_markers port
                    (\<lambda>h. (case fl_imposters F port of
                            None \<Rightarrow> True
                          | Some (before, _) \<Rightarrow> h \<in> set (orphaned_recordings U (ic_stubs before) (ic_stubs config))) \<or>
                         restart = Some RestartImposter \<and> \<not> hash_taken (ic_stubs config) h) F)))"

definition spec_patch :: "'a upstream_scheme \<Rightarrow> u16 \<Rightarrow> stub_edit_script \<Rightarrow> u64 \<Rightarrow> 'txt fleet \<Rightarrow> string + 'txt fleet" where
  "spec_patch U port edit n F =
     (case fl_imposters F port of
        None \<Rightarrow> Inl (no_imposter port)
      | Some (config, _) \<Rightarrow>
          (case edited_stubs (ic_stubs config) edit of
             Inl reason \<Rightarrow> Inl reason
           | Inr stubs \<Rightarrow>
               Inr (drop_markers port (\<lambda>h. h \<in> set (orphaned_recordings U (ic_stubs config) stubs))
                      (set_imposter port (config\<lparr>ic_stubs := stubs\<rparr>) n F))))"

definition spec_record :: "('txt, 'a) seams_scheme \<Rightarrow> u16 \<Rightarrow> string \<Rightarrow> recorded_response \<Rightarrow> recorded_stub option \<Rightarrow> u64 \<Rightarrow>
   'txt fleet \<Rightarrow> string + 'txt fleet" where
  "spec_record S port sig_hash resp rstub n F =
     (let merging = (case rstub of None \<Rightarrow> False | Some r \<Rightarrow> rs_placement r = AfterProxyMerging);
          mark = (\<lambda>F'. if merging then F' else F'\<lparr>fl_markers := (fl_markers F')((port, sig_hash) \<mapsto> ser_recorded S resp)\<rparr>)
      in if fl_markers F (port, sig_hash) \<noteq> None \<and> \<not> merging then Inr F
         else case fl_imposters F port of
           None \<Rightarrow> Inl (no_imposter port)
         | Some (config, _) \<Rightarrow>
             (case rstub of
                None \<Rightarrow> Inr (mark F)
              | Some r \<Rightarrow>
                  Inr (mark (set_imposter port
                         (config\<lparr>ic_stubs := fst (place_recorded_stub (ic_stubs config)
                            (assign_recorded_id (ic_stubs config) sig_hash n (rs_stub r))
                            (rs_placement r) (rs_proxy_to r) (rs_anchor_index r))\<rparr>) n F))))"

definition spec_clear :: "'a upstream_scheme \<Rightarrow> u16 \<Rightarrow> u64 \<Rightarrow> 'txt fleet \<Rightarrow> 'txt fleet" where
  "spec_clear U port n F =
     (let F1 = drop_markers port (\<lambda>_. True) F in
      case fl_imposters F port of
        None \<Rightarrow> F1
      | Some (config, _) \<Rightarrow>
          (let stubs = fst (strip_proxy_responses U (ic_stubs config)) in
           if stubs = ic_stubs config then F1 else set_imposter port (config\<lparr>ic_stubs := stubs\<rparr>) n F1))"

fun spec_mutate :: "('txt, 'a) seams_scheme \<Rightarrow> control_op \<Rightarrow> u64 \<Rightarrow> 'txt fleet \<Rightarrow> string + 'txt fleet" where
  "spec_mutate S (PutImposter config restart) n F = spec_put S config restart n F"
| "spec_mutate S (PatchStubs port edit) n F = spec_patch S port edit n F"
| "spec_mutate S (DeleteImposter port) n F =
     Inr (drop_markers port (\<lambda>_. True) (F\<lparr>fl_imposters := (fl_imposters F)(port := None)\<rparr>))"
| "spec_mutate S DeleteAll n F = Inr (F\<lparr>fl_imposters := (\<lambda>_. None), fl_markers := (\<lambda>_. None)\<rparr>)"
| "spec_mutate S (SetEnabled port enabled) n F =
     (case fl_imposters F port of
        None \<Rightarrow> Inl (no_imposter port)
      | Some (config, _) \<Rightarrow> Inr (set_imposter port (config\<lparr>ic_enabled := enabled\<rparr>) n F))"
| "spec_mutate S (PutRoutes table) n F =
     Inr (F\<lparr>fl_routes := map_of (rev (map (\<lambda>r. (route_id r, r)) table)), fl_routes_revision := Some n\<rparr>)"
| "spec_mutate S (DeleteRoute i) n F =
     Inr (F\<lparr>fl_routes := (fl_routes F)(i := None), fl_routes_revision := Some n\<rparr>)"
| "spec_mutate S (SessionKeyPut key) n F = Inr (F\<lparr>fl_session_key := Some \<lparr>sk_key = key, sk_revision = n\<rparr>\<rparr>)"
| "spec_mutate S (FleetNamePut name) n F = Inr (F\<lparr>fl_fleet_name := Some name\<rparr>)"
| "spec_mutate S (ProxyRecorded port sig_hash resp rstub) n F = spec_record S port sig_hash resp rstub n F"
| "spec_mutate S (ProxyRecordedClear port) n F = Inr (spec_clear S port n F)"

definition spec_run :: "('txt, 'a) seams_scheme \<Rightarrow> u64 \<Rightarrow> control_request \<Rightarrow> 'txt fleet \<Rightarrow> string + 'txt fleet" where
  "spec_run S n request F =
     (case validate S (op request) of
        Inl reason \<Rightarrow> Inl reason
      | Inr _ \<Rightarrow>
          (case spec_check F request of Inl reason \<Rightarrow> Inl reason | Inr _ \<Rightarrow> spec_mutate S (op request) n F))"

section \<open>The fleet the tables stand for\<close>

definition abs_imposter :: "('txt, 'a) seams_scheme \<Rightarrow> 'txt \<Rightarrow> (imposter_config \<times> u64) option" where
  "abs_imposter S row =
     (case de_stored S row of
        Inl _ \<Rightarrow> None
      | Inr st \<Rightarrow> (case de_config S (st_config st) of Inl _ \<Rightarrow> None | Inr c \<Rightarrow> Some (c, st_revision st)))"

definition abs_fleet :: "('txt, 'a) seams_scheme \<Rightarrow> 'txt tables \<Rightarrow> 'txt fleet" where
  "abs_fleet S T =
     \<lparr>fl_imposters = (\<lambda>port. Option.bind (tget (sm_configs T) port) (abs_imposter S)),
      fl_routes = (\<lambda>i. Option.bind (tget (sm_routes T) i)
                        (\<lambda>row. case de_route S row of Inl _ \<Rightarrow> None | Inr r \<Rightarrow> Some r)),
      fl_routes_revision = sm_routes_revision T,
      fl_session_key = Option.bind (sm_session_key T)
                         (\<lambda>row. case de_session_key S row of Inl _ \<Rightarrow> None | Inr k \<Rightarrow> Some k),
      fl_fleet_name = sm_fleet_name T,
      fl_markers = (\<lambda>k. tget (sm_proxy_recorded T) k)\<rparr>"

section \<open>Lemmas: the abstraction of each table write\<close>

lemma fleet_ext:
  assumes "fl_imposters F = fl_imposters G" "fl_routes F = fl_routes G"
    "fl_routes_revision F = fl_routes_revision G" "fl_session_key F = fl_session_key G"
    "fl_fleet_name F = fl_fleet_name G" "fl_markers F = fl_markers G"
  shows "F = (G :: 'txt fleet)"
  using assms by (cases F; cases G) simp

lemma abs_simps [simp]:
  "fl_imposters (abs_fleet S T) port = Option.bind (tget (sm_configs T) port) (abs_imposter S)"
  "fl_routes_revision (abs_fleet S T) = sm_routes_revision T"
  "fl_fleet_name (abs_fleet S T) = sm_fleet_name T"
  "fl_markers (abs_fleet S T) k = tget (sm_proxy_recorded T) k"
  by (simp_all add: abs_fleet_def)

lemma abs_store:
  assumes "codec_ok S"
  shows "abs_fleet S (store_imposter S port rec config n T) = set_imposter port config n (abs_fleet S T)"
  by (rule fleet_ext)
     (auto simp: abs_fleet_def set_imposter_def store_imposter_def abs_imposter_def codec_simps [OF assms] fun_eq_iff)

lemma abs_forget_markers:
  "abs_fleet S (forget_markers port hs T) = drop_markers port (\<lambda>h. h \<in> set hs) (abs_fleet S T)"
  by (rule fleet_ext)
     (auto simp: abs_fleet_def drop_markers_def fun_eq_iff tget_forget_markers, auto simp: forget_markers_def)

lemma abs_forget_port:
  "twf (sm_proxy_recorded T) \<Longrightarrow>
   abs_fleet S (forget_port port T) = drop_markers port (\<lambda>_. True) (abs_fleet S T)"
  by (rule fleet_ext)
     (auto simp: abs_fleet_def drop_markers_def fun_eq_iff tget_forget_port, auto simp: forget_port_def)

lemma abs_put_marker:
  "abs_fleet S (T\<lparr>sm_proxy_recorded := tput k row (sm_proxy_recorded T)\<rparr>) =
     (abs_fleet S T)\<lparr>fl_markers := (fl_markers (abs_fleet S T))(k \<mapsto> row)\<rparr>"
  by (rule fleet_ext) (auto simp: abs_fleet_def fun_eq_iff)

lemma wf_row:
  assumes "tables_wf S m T" and "tget (sm_configs T) port = Some row"
  shows "\<exists>rec c. de_stored S row = Inr rec \<and> de_config S (st_config rec) = Inr c"
proof -
  from assms obtain rec c where "load_imposter S T port = Inr (rec, c)" by (rule load_imposter_total)
  with assms(2) show ?thesis by (auto simp: load_imposter_Inr)
qed

lemma imposter_cases:
  assumes "tables_wf S m T"
  obtains (Absent) "tget (sm_configs T) port = None" "load_imposter S T port = Inl (no_imposter port)"
      "fl_imposters (abs_fleet S T) port = None"
    | (Present) row rec c where "tget (sm_configs T) port = Some row"
      "load_imposter S T port = Inr (rec, c)"
      "fl_imposters (abs_fleet S T) port = Some (c, st_revision rec)"
      "de_stored S row = Inr rec"
proof (cases "tget (sm_configs T) port")
  case None
  then show ?thesis by (intro Absent) (simp_all add: load_imposter_def no_imposter_def)
next
  case (Some row)
  with wf_row [OF assms Some] obtain rec c where
    rc: "de_stored S row = Inr rec" "de_config S (st_config rec) = Inr c" by blast
  with Some show ?thesis
    by (intro Present [of row rec c]) (simp_all add: load_imposter_def abs_imposter_def)
qed

section \<open>The state machine refines the specification\<close>

definition refines :: "('txt, 'a) seams_scheme \<Rightarrow> 'txt tables \<Rightarrow> 'txt mutation \<Rightarrow> string + 'txt fleet \<Rightarrow> bool" where
  "refines S T out spec \<longleftrightarrow>
     (case spec of
        Inl reason \<Rightarrow> out = (T, Inl reason)
      | Inr F \<Rightarrow> abs_fleet S (fst out) = F \<and> (\<exists>acts. snd out = Inr acts))"

lemma drop_markers_drop:
  "drop_markers port P (drop_markers port Q F) = drop_markers port (\<lambda>h. P h \<or> Q h) F"
  by (rule fleet_ext) (auto simp: drop_markers_def fun_eq_iff)

lemma drop_markers_cong:
  assumes "\<And>h. fl_markers F (port, h) \<noteq> None \<Longrightarrow> P h = Q h"
  shows "drop_markers port P F = drop_markers port Q F"
proof (rule fleet_ext)
  show "fl_markers (drop_markers port P F) = fl_markers (drop_markers port Q F)"
  proof
    fix k
    show "fl_markers (drop_markers port P F) k = fl_markers (drop_markers port Q F) k"
      using assms [of "snd k"] by (cases k; cases "fl_markers F k") (auto simp: drop_markers_def)
  qed
qed (simp_all add: drop_markers_def)

lemma drop_markers_none:
  assumes "\<And>h. fl_markers F (port, h) = None" shows "drop_markers port P F = F"
  using assms by (intro fleet_ext) (auto simp: drop_markers_def fun_eq_iff)

lemma abs_forget_replaced:
  assumes "tables_wf S m T"
  shows "abs_fleet S (forget_replaced S port config T) =
     drop_markers port
       (\<lambda>h. case fl_imposters (abs_fleet S T) port of
              None \<Rightarrow> True
            | Some (before, _) \<Rightarrow> h \<in> set (orphaned_recordings S (ic_stubs before) (ic_stubs config)))
       (abs_fleet S T)"
proof (cases "has_markers port (sm_proxy_recorded T)")
  case False
  then have "fl_markers (abs_fleet S T) (port, h) = None" for h
    using assms by (simp add: tables_wf_def has_markers_iff)
  with False show ?thesis by (simp add: forget_replaced_def drop_markers_none)
next
  case True
  have twf: "twf (sm_proxy_recorded T)" using assms by (simp add: tables_wf_def)
  show ?thesis
  proof (cases "tget (sm_configs T) port")
    case None
    with True twf show ?thesis by (simp add: forget_replaced_def abs_forget_port)
  next
    case (Some row)
    with wf_row [OF assms Some] True show ?thesis
      by (auto simp: forget_replaced_def abs_forget_markers abs_imposter_def)
  qed
qed

lemma refines_put:
  assumes "codec_ok S" and "tables_wf S m T"
  shows "refines S T (put_imposter S config restart n d T) (spec_put S config restart n (abs_fleet S T))"
proof (cases "ic_port config")
  case None
  then show ?thesis by (simp add: refines_def put_imposter_def spec_put_def)
next
  case (Some port)
  let ?T1 = "forget_replaced S port config T"
  have twf: "twf (sm_proxy_recorded ?T1)"
    using forget_replaced_wf [OF assms(2), of port config] by (simp add: tables_wf_def)
  have "drop_markers port (\<lambda>h. h \<in> set (stub_less_markers port (ic_stubs config) (sm_proxy_recorded ?T1)))
          (abs_fleet S ?T1) = drop_markers port (\<lambda>h. \<not> hash_taken (ic_stubs config) h) (abs_fleet S ?T1)"
    by (rule drop_markers_cong) (simp add: set_stub_less_markers [OF twf])
  with Some assms show ?thesis
    by (auto simp: refines_def put_imposter_def spec_put_def Let_def abs_store abs_forget_markers
        abs_forget_replaced [OF assms(2)] drop_markers_drop intro!: arg_cong [where f = "set_imposter port config n"]
        drop_markers_cong)
qed

lemma refines_patch:
  assumes "codec_ok S" and "tables_wf S m T"
  shows "refines S T (patch_stubs S port edit n T) (spec_patch S port edit n (abs_fleet S T))"
  using assms(2)
proof (cases rule: imposter_cases [where port = port])
  case Absent
  then show ?thesis by (simp add: refines_def patch_stubs_def spec_patch_def)
next
  case (Present row rec c)
  then show ?thesis using assms
    by (cases "apply_edit (ic_stubs c) edit")
       (auto simp: refines_def patch_stubs_def spec_patch_def edited_stubs_def Let_def abs_store
          abs_forget_markers split: sum.split)
qed

lemma refines_delete:
  assumes "tables_wf S m T"
  shows "refines S T (delete_imposter S port d T) (spec_mutate S (DeleteImposter port) n (abs_fleet S T))"
proof -
  have "abs_fleet S (T\<lparr>sm_configs := tdel port (sm_configs T)\<rparr>) =
        (abs_fleet S T)\<lparr>fl_imposters := (fl_imposters (abs_fleet S T))(port := None)\<rparr>"
    by (rule fleet_ext) (auto simp: abs_fleet_def fun_eq_iff)
  then show ?thesis using assms
    by (simp add: refines_def delete_imposter_def Let_def abs_forget_port tables_wf_def)
qed

lemma refines_delete_all: "refines S T (delete_all S T) (spec_mutate S DeleteAll n (abs_fleet S T))"
  by (auto simp: refines_def delete_all_def Let_def abs_fleet_def fun_eq_iff intro!: fleet_ext)

lemma refines_set_enabled:
  assumes "codec_ok S" and "tables_wf S m T"
  shows "refines S T (set_enabled S port enabled n T) (spec_mutate S (SetEnabled port enabled) n (abs_fleet S T))"
  using assms(2)
proof (cases rule: imposter_cases [where port = port])
  case Absent
  then show ?thesis by (simp add: refines_def set_enabled_def)
next
  case (Present row rec c)
  then show ?thesis using assms by (simp add: refines_def set_enabled_def Let_def abs_store)
qed

lemma tget_routes_fold:
  "tget (fold (\<lambda>r. tput (route_id r) (ser_route S r)) table t) i =
     (case map_of (rev (map (\<lambda>r. (route_id r, r)) table)) i of
        None \<Rightarrow> tget t i | Some r \<Rightarrow> Some (ser_route S r))"
  by (induction table arbitrary: t) (auto simp: map_add_def split: option.splits)

lemma refines_routes:
  assumes "codec_ok S"
  shows "refines S T (put_routes S table n T) (spec_mutate S (PutRoutes table) n (abs_fleet S T))"
    and "refines S T (delete_route S i n T) (spec_mutate S (DeleteRoute i) n (abs_fleet S T))"
proof -
  show "refines S T (put_routes S table n T) (spec_mutate S (PutRoutes table) n (abs_fleet S T))"
    by (auto simp: refines_def put_routes_def Let_def abs_fleet_def fun_eq_iff tget_routes_fold
        codec_simps [OF assms] intro!: fleet_ext split: option.split)
  show "refines S T (delete_route S i n T) (spec_mutate S (DeleteRoute i) n (abs_fleet S T))"
    by (auto simp: refines_def delete_route_def Let_def abs_fleet_def fun_eq_iff intro!: fleet_ext)
qed

lemma refines_session_key:
  assumes "codec_ok S"
  shows "refines S T (session_key_put S key n T) (spec_mutate S (SessionKeyPut key) n (abs_fleet S T))"
  by (auto simp: refines_def session_key_put_def abs_fleet_def codec_simps [OF assms] intro!: fleet_ext)

lemma refines_fleet_name:
  "refines S T (fleet_name_put name T) (spec_mutate S (FleetNamePut name) n (abs_fleet S T))"
  by (auto simp: refines_def fleet_name_put_def abs_fleet_def intro!: fleet_ext)

lemma refines_record:
  assumes "codec_ok S" and "tables_wf S m T"
  shows "refines S T (proxy_recorded S port h resp rstub n T) (spec_record S port h resp rstub n (abs_fleet S T))"
proof -
  have marker: "fl_markers (abs_fleet S T) (port, h) = tget (sm_proxy_recorded T) (port, h)" by simp
  from assms(2) show ?thesis
  proof (cases rule: imposter_cases [where port = port])
    case Absent
    then show ?thesis
      by (auto simp: refines_def proxy_recorded_def spec_record_def Let_def no_imposter_def marker
          simp del: abs_simps split: option.split)
  next
    case (Present row rec c)
    then show ?thesis using assms(1)
      by (auto simp: refines_def proxy_recorded_def spec_record_def record_with_stub_def Let_def marker
          abs_put_marker abs_store simp del: abs_simps split: option.split prod.split)
  qed
qed

lemma refines_clear:
  assumes "codec_ok S" and "tables_wf S m T"
  shows "refines S T (proxy_recorded_clear S port n d T) (spec_mutate S (ProxyRecordedClear port) n (abs_fleet S T))"
proof -
  have twf: "twf (sm_proxy_recorded T)" using assms(2) by (simp add: tables_wf_def)
  have load: "load_imposter S (forget_port port T) port = load_imposter S T port"
    by (simp add: load_imposter_def)
  from assms(2) show ?thesis
  proof (cases rule: imposter_cases [where port = port])
    case Absent
    then show ?thesis
      by (simp add: refines_def proxy_recorded_clear_def spec_clear_def Let_def load abs_forget_port [OF twf])
  next
    case (Present row rec c)
    note flag = strip_flag_iff [of S "ic_stubs c"]
    from Present show ?thesis using assms(1) flag
      by (cases "strip_proxy_responses S (ic_stubs c)")
         (auto simp: refines_def proxy_recorded_clear_def spec_clear_def Let_def load abs_store
            abs_forget_port [OF twf] simp del: abs_simps)
  qed
qed

lemmas refines_ops = refines_put refines_patch refines_delete refines_delete_all refines_set_enabled
  refines_routes refines_session_key refines_fleet_name refines_record refines_clear

lemma refines_mutate:
  "codec_ok S \<Longrightarrow> tables_wf S m T \<Longrightarrow>
   refines S T (mutate_tables S cop n d T) (spec_mutate S cop n (abs_fleet S T))"
  by (cases cop) (simp_all add: refines_ops [unfolded spec_mutate.simps] del: abs_simps)

lemma check_abs:
  assumes "tables_wf S m T"
  shows "check_preconditions S T request = spec_check (abs_fleet S T) request"
proof -
  have absent: "check_expect_absent T cop = spec_check_absent (abs_fleet S T) cop" for cop
  proof (cases "precondition_target cop")
    case (Some target)
    show ?thesis
    proof (cases target)
      case (TargetImposter port)
      from assms show ?thesis using Some TargetImposter
        by (cases rule: imposter_cases [where port = port])
           (auto simp: check_expect_absent_def spec_check_absent_def simp del: abs_simps)
    qed (use Some in \<open>simp add: check_expect_absent_def spec_check_absent_def\<close>)
  qed (simp add: check_expect_absent_def spec_check_absent_def)
  have rev: "check_expected_revision S T cop r = spec_check_revision (abs_fleet S T) cop r" for cop r
  proof (cases "precondition_target cop")
    case (Some target)
    show ?thesis
    proof (cases target)
      case (TargetImposter port)
      from assms show ?thesis using Some TargetImposter
        by (cases rule: imposter_cases [where port = port])
           (auto simp: check_expected_revision_def spec_check_revision_def simp del: abs_simps)
    qed (use Some in \<open>simp add: check_expected_revision_def spec_check_revision_def Let_def\<close>)
  qed (simp add: check_expected_revision_def spec_check_revision_def)
  show ?thesis
    by (simp add: check_preconditions_def spec_check_def absent rev split: option.split bool.split)
qed

text \<open>C1. The state machine implements the specification of the fleet: from tables that satisfy the
  invariant, a request leaves the tables standing for the fleet the specification gives, and where
  the specification refuses, the state machine refuses with the same reason and leaves the tables
  as they were.\<close>

theorem run_op_refines_spec:
  assumes "codec_ok S" and "tables_wf S m T"
  shows "case spec_run S n request (abs_fleet S T) of
           Inl reason \<Rightarrow> run_op S degraded n request T = (T, Inl reason)
         | Inr F \<Rightarrow> \<exists>T' acts. run_op S degraded n request T = (T', Inr acts) \<and> abs_fleet S T' = F"
proof -
  have "refines S T (mutate_tables S (op request) n degraded T) (spec_mutate S (op request) n (abs_fleet S T))"
    by (rule refines_mutate [OF assms])
  then show ?thesis
    by (cases "mutate_tables S (op request) n degraded T")
       (auto simp: run_op_def spec_run_def refines_def check_abs [OF assms(2)] split: sum.splits)
qed

theorem run_op_refines_spec_witness:
  "case spec_run doc_seams 7 (sample_request ''a'' 0 None (DeleteRoute ''r'')) (abs_fleet doc_seams empty_tables) of
     Inl reason \<Rightarrow> run_op doc_seams True 7 (sample_request ''a'' 0 None (DeleteRoute ''r'')) empty_tables =
                     (empty_tables, Inl reason)
   | Inr F \<Rightarrow> \<exists>T' acts. run_op doc_seams True 7 (sample_request ''a'' 0 None (DeleteRoute ''r'')) empty_tables =
                           (T', Inr acts) \<and> abs_fleet doc_seams T' = F"
  by (rule run_op_refines_spec [OF doc_codec_ok empty_tables_wf])

end
