(* ===== verification/Ring.thy ===== *)
theory Ring
  imports Prelude
begin

text \<open>
  Ownership (\<^verbatim>\<open>crates/rift-cluster/src/raft/ring.rs\<close>): rendezvous hashing over the voters of one
  applied membership. The hash function \<^verbatim>\<open>xxh64\<close> is a parameter. What rendezvous hashing promises
  is proved once, in the locale \<open>rendezvous\<close>, of any ranking in which no two nodes tie; the ring's
  pair of score and node id is such a ranking whatever the hash.
\<close>

section \<open>Keys\<close>

type_synonym node_id = u64

datatype key_class = ClassConfig | ClassFlowKv | ClassSequence | ClassProxy

fun class_tag :: "key_class \<Rightarrow> u8" where
  "class_tag ClassConfig = 0"
| "class_tag ClassFlowKv = 1"
| "class_tag ClassSequence = 2"
| "class_tag ClassProxy = 3"

record owned_key =
  ok_class :: key_class
  ok_key :: string

definition flow_key :: "string \<Rightarrow> owned_key" where
  "flow_key flow_id = \<lparr>ok_class = ClassFlowKv, ok_key = flow_id\<rparr>"

datatype own_status = Owner | NotOwner node_id

section \<open>The ring\<close>

record ring =
  rg_members :: "node_id list"
  rg_m_idx :: u64

text \<open>\<^verbatim>\<open>Vec::dedup\<close> drops equal neighbours, which on a sorted vector is every duplicate.\<close>

definition ring_new :: "node_id list \<Rightarrow> u64 \<Rightarrow> ring" where
  "ring_new members m_idx = \<lparr>rg_members = remdups_adj (sort members), rg_m_idx = m_idx\<rparr>"

definition to_le_bytes :: "u64 \<Rightarrow> u8 list" where
  "to_le_bytes w = map (\<lambda>i. ucast (drop_bit (8 * i) w)) [0..<8]"

definition key_bytes :: "string \<Rightarrow> u8 list" where
  "key_bytes s = map (\<lambda>c. of_nat (of_char c)) s"

definition score_input :: "node_id \<Rightarrow> owned_key \<Rightarrow> u8 list" where
  "score_input node key = to_le_bytes node @ [class_tag (ok_class key)] @ key_bytes (ok_key key)"

definition score :: "(u8 list \<Rightarrow> u64 \<Rightarrow> u64) \<Rightarrow> node_id \<Rightarrow> owned_key \<Rightarrow> u64" where
  "score xxh64 node key = xxh64 (score_input node key) 0"

text \<open>\<^verbatim>\<open>Iterator::max_by_key\<close>: the last of the elements whose key is greatest.\<close>

fun max_by_key :: "('n \<Rightarrow> 'r::linorder) \<Rightarrow> 'n list \<Rightarrow> 'n option" where
  "max_by_key f [] = None"
| "max_by_key f (x # xs) =
     (case max_by_key f xs of None \<Rightarrow> Some x | Some y \<Rightarrow> if f y < f x then Some x else Some y)"

definition node_rank :: "(u8 list \<Rightarrow> u64 \<Rightarrow> u64) \<Rightarrow> owned_key \<Rightarrow> node_id \<Rightarrow> u64 \<times> node_id" where
  "node_rank xxh64 key node = (score xxh64 node key, node)"

definition owner :: "(u8 list \<Rightarrow> u64 \<Rightarrow> u64) \<Rightarrow> ring \<Rightarrow> owned_key \<Rightarrow> node_id option" where
  "owner xxh64 r key = max_by_key (node_rank xxh64 key) (rg_members r)"

definition owners :: "(u8 list \<Rightarrow> u64 \<Rightarrow> u64) \<Rightarrow> ring \<Rightarrow> owned_key \<Rightarrow> nat \<Rightarrow> node_id list" where
  "owners xxh64 r key n = map snd (take n (rev (sort (map (node_rank xxh64 key) (rg_members r)))))"

definition i_own :: "(u8 list \<Rightarrow> u64 \<Rightarrow> u64) \<Rightarrow> ring \<Rightarrow> node_id \<Rightarrow> owned_key \<Rightarrow> own_status option" where
  "i_own xxh64 r me key =
     map_option (\<lambda>n. if n = me then Owner else NotOwner n) (owner xxh64 r key)"

text \<open>The nodes in the order a key prefers them.\<close>

definition preference :: "('n \<Rightarrow> 'r::linorder) \<Rightarrow> 'n list \<Rightarrow> 'n list" where
  "preference f ms = rev (sort_key f ms)"

section \<open>Rendezvous hashing\<close>

locale rendezvous =
  fixes rank :: "'n \<Rightarrow> 'r::linorder"
  assumes rank_inj: "rank x = rank y \<Longrightarrow> x = y"
begin

lemma max_Some: "max_by_key rank ms = Some m \<longleftrightarrow> m \<in> set ms \<and> (\<forall>x \<in> set ms. rank x \<le> rank m)"
proof (induction ms arbitrary: m)
  case (Cons x ms)
  show ?case
  proof (cases "max_by_key rank ms")
    case None
    then have "ms = []" by (cases ms) (auto split: option.splits if_splits)
    then show ?thesis by auto
  next
    case (Some y)
    with Cons.IH [of y] have y: "y \<in> set ms" "\<And>z. z \<in> set ms \<Longrightarrow> rank z \<le> rank y" by auto
    show ?thesis
    proof (cases "rank y < rank x")
      case True
      with Some y show ?thesis by (auto dest: order.strict_trans1 leD intro: less_imp_le)
    next
      case False
      then have "rank x \<le> rank y" by simp
      moreover have "m = y" if "m \<in> set (x # ms)" "\<forall>z \<in> set (x # ms). rank z \<le> rank m"
        using that y \<open>rank x \<le> rank y\<close> by (intro rank_inj order.antisym) auto
      ultimately show ?thesis using False Some y by auto
    qed
  qed
qed simp

lemma max_None: "max_by_key rank ms = None \<longleftrightarrow> ms = []"
  by (cases ms) (auto split: option.splits)

lemma max_set: "set ms = set ms' \<Longrightarrow> max_by_key rank ms = max_by_key rank ms'"
proof (cases "max_by_key rank ms")
  case None
  moreover assume "set ms = set ms'"
  ultimately show ?thesis by (simp add: max_None)
next
  case (Some m)
  moreover assume "set ms = set ms'"
  ultimately show ?thesis by (metis max_Some)
qed

lemma preference_filter: "preference rank (filter P ms) = filter P (preference rank ms)"
  by (simp add: preference_def filter_sort [symmetric] rev_filter)

lemma preference_hd:
  assumes "preference rank ms = m # rest" shows "max_by_key rank ms = Some m"
proof -
  have "sort_key rank ms = rev rest @ [m]" using assms by (simp add: preference_def rev_swap)
  moreover have "sorted (map rank (sort_key rank ms))" by simp
  ultimately have "\<forall>x \<in> set (sort_key rank ms). rank x \<le> rank m" "m \<in> set (sort_key rank ms)"
    by (auto simp: sorted_append)
  then show ?thesis by (simp add: max_Some)
qed

lemma preference_max: "max_by_key rank ms = (case preference rank ms of [] \<Rightarrow> None | m # _ \<Rightarrow> Some m)"
proof (cases "preference rank ms")
  case Nil
  then have "ms = []" by (metis preference_def length_rev length_sort list.size(3) length_0_conv)
  with Nil show ?thesis by simp
qed (simp add: preference_hd)

text \<open>Nodes that leave move only the keys they owned.\<close>

lemma max_survives:
  assumes "max_by_key rank ms = Some m" and "P m" shows "max_by_key rank (filter P ms) = Some m"
  using assms by (auto simp: max_Some)

text \<open>A node that joins takes keys from the others and moves none between them.\<close>

lemma max_join:
  assumes "max_by_key rank ms = Some m"
  shows "max_by_key rank (new # ms) \<in> {Some m, Some new}"
  using assms by simp

end

interpretation hrw: rendezvous "node_rank xxh64 key" for xxh64 key
  by unfold_locales (simp add: node_rank_def)

section \<open>Lemmas: the ring\<close>

lemma map_insort: "map f (insort_key f x xs) = insort (f x) (map f xs)"
  by (induction xs) auto

lemma sort_map: "sort (map f xs) = map f (sort_key f xs)"
  by (induction xs) (simp_all add: map_insort)

lemma owners_preference: "owners xxh64 r key n = take n (preference (node_rank xxh64 key) (rg_members r))"
  by (simp add: owners_def preference_def take_map [symmetric] rev_map [symmetric] sort_map o_def node_rank_def
      del: rev_map)

lemma sorted_distinct_remdups_adj: "sorted xs \<Longrightarrow> distinct (remdups_adj xs)" for xs :: "'a::linorder list"
  by (induction xs rule: remdups_adj.induct) (auto simp: less_le)

lemma set_ring_new [simp]: "set (rg_members (ring_new ms i)) = set ms"
  by (simp add: ring_new_def)

lemma ring_new_distinct: "sorted (rg_members (ring_new ms i))" "distinct (rg_members (ring_new ms i))"
proof -
  show "sorted (rg_members (ring_new ms i))" by (simp add: ring_new_def sorted_remdups_adj)
  show "distinct (rg_members (ring_new ms i))" by (simp add: ring_new_def sorted_distinct_remdups_adj)
qed

lemma ring_new_cong: "set ms = set ms' \<Longrightarrow> ring_new ms i = ring_new ms' i"
  using ring_new_distinct [of ms i] ring_new_distinct [of ms' i]
  by (intro ring.equality sorted_distinct_set_unique) (auto simp: ring_new_def)

lemma members_filter:
  "rg_members (ring_new (filter P ms) i) = filter P (rg_members (ring_new ms j))"
  using ring_new_distinct [of "filter P ms" i] ring_new_distinct [of ms j]
  by (intro sorted_distinct_set_unique) (auto simp: sorted_filter [where f = "\<lambda>x. x", simplified])

lemma length_members: "length (rg_members (ring_new ms i)) \<le> length ms"
  by (simp add: ring_new_def) (metis length_sort remdups_adj_length)

lemma to_le_bytes_inj: "to_le_bytes v = to_le_bytes w \<Longrightarrow> v = w"
proof (rule bit_word_eqI)
  fix n
  assume eq: "to_le_bytes v = to_le_bytes w" and n: "n < LENGTH(64)"
  then have i: "n div 8 < 8" by simp
  with eq have "(ucast (drop_bit (8 * (n div 8)) v) :: u8) = ucast (drop_bit (8 * (n div 8)) w)"
    by (auto simp: to_le_bytes_def list_eq_iff_nth_eq)
  then have "bit (ucast (drop_bit (8 * (n div 8)) v) :: u8) (n mod 8) =
             bit (ucast (drop_bit (8 * (n div 8)) w) :: u8) (n mod 8)" by simp
  then show "bit v n = bit w n" by (simp add: bit_unsigned_iff bit_drop_bit_eq)
qed

lemma class_tag_inj: "class_tag c = class_tag d \<Longrightarrow> c = d"
  by (cases c; cases d) simp_all

lemma key_bytes_inj: "key_bytes s = key_bytes t \<Longrightarrow> s = t"
proof -
  have "inj (\<lambda>c. of_nat (of_char c) :: u8)"
  proof (rule injI)
    fix c d :: char
    assume "(of_nat (of_char c) :: u8) = of_nat (of_char d)"
    then have "take_bit 8 (of_char c :: nat) = take_bit 8 (of_char d)" by (simp only: word_of_nat_eq_iff) simp
    then show "c = d" by (simp add: take_bit_eq_mod)
  qed
  then show "key_bytes s = key_bytes t \<Longrightarrow> s = t" by (simp add: key_bytes_def inj_map_eq_map)
qed

section \<open>Properties of the ring\<close>

text \<open>C24. Ownership moves only with the nodes that leave. When nodes leave the membership, a key's
  owners are its former owners in their former order with the departed ones struck out; the next of
  them inherits, and every other key keeps its owner.\<close>

theorem owners_after_departure:
  "owners xxh64 (ring_new (filter (\<lambda>m. m \<notin> set gone) ms) i') key n =
     take n (filter (\<lambda>m. m \<notin> set gone) (owners xxh64 (ring_new ms i) key (length ms)))"
proof -
  have "length (preference (node_rank xxh64 key) (rg_members (ring_new ms i))) \<le> length ms"
    using length_members by (simp add: preference_def)
  then show ?thesis
    by (simp add: owners_preference members_filter [of _ ms i' i] hrw.preference_filter)
qed



text \<open>The owner is the first of the owners, and the owners are distinct members: the first \<open>n\<close>
  of them are one owner and its replica successors.\<close>

theorem owner_heads_owners:
  "owner xxh64 (ring_new ms i) key = (case owners xxh64 (ring_new ms i) key (Suc n) of [] \<Rightarrow> None | m # _ \<Rightarrow> Some m) \<and>
   distinct (owners xxh64 (ring_new ms i) key k) \<and> set (owners xxh64 (ring_new ms i) key k) \<subseteq> set ms \<and>
   length (owners xxh64 (ring_new ms i) key k) = min k (card (set ms))"
proof -
  let ?p = "preference (node_rank xxh64 key) (rg_members (ring_new ms i))"
  have "distinct ?p" "set ?p = set ms" using ring_new_distinct [of ms i] by (simp_all add: preference_def)
  then have "length ?p = card (set ms)" by (metis distinct_card)
  have "owner xxh64 (ring_new ms i) key = (case ?p of [] \<Rightarrow> None | m # _ \<Rightarrow> Some m)"
    unfolding owner_def by (rule hrw.preference_max)
  also have "\<dots> = (case take (Suc n) ?p of [] \<Rightarrow> None | m # _ \<Rightarrow> Some m)" by (cases ?p) simp_all
  finally have "owner xxh64 (ring_new ms i) key = (case take (Suc n) ?p of [] \<Rightarrow> None | m # _ \<Rightarrow> Some m)" .
  moreover have "set (take k ?p) \<subseteq> set ms" using set_take_subset [of k ?p] \<open>set ?p = set ms\<close> by simp
  ultimately show ?thesis using \<open>distinct ?p\<close> \<open>length ?p = card (set ms)\<close>
    by (simp add: owners_preference min.commute)
qed

text \<open>The bytes the score hashes determine the node, the class and the key, so no two of them
  share a hash input.\<close>

theorem score_input_inj:
  assumes "score_input node key = score_input node' key'"
  shows "node = node' \<and> key = key'"
proof -
  have len: "length (to_le_bytes v) = 8" for v by (simp add: to_le_bytes_def)
  with assms have "to_le_bytes node = to_le_bytes node'" "class_tag (ok_class key) = class_tag (ok_class key')"
    "key_bytes (ok_key key) = key_bytes (ok_key key')" by (auto simp: score_input_def append_eq_append_conv)
  then show ?thesis by (auto dest: to_le_bytes_inj class_tag_inj key_bytes_inj intro: owned_key.equality)
qed

theorem score_input_inj_witness:
  "score_input 7 (flow_key ''f'') = score_input 7 \<lparr>ok_class = ClassFlowKv, ok_key = ''f''\<rparr> \<and>
   (7 :: u64) = 7 \<and> flow_key ''f'' = \<lparr>ok_class = ClassFlowKv, ok_key = ''f''\<rparr>"
  using score_input_inj [of 7 "flow_key ''f''" 7 "\<lparr>ok_class = ClassFlowKv, ok_key = ''f''\<rparr>"]
  by (simp add: flow_key_def)

end
