(* ===== verification/Shard.thy ===== *)
theory Shard
  imports Tables
begin

text \<open>
  A node's flow-state shard (\<^verbatim>\<open>crates/rift-cluster/src/stores/shard.rs\<close>): versioned entries by flow
  and key in memory, a queue of writes to the writer thread, and the redb file behind it. Each
  operation takes the clock reading \<open>now\<close> it makes; the memory lock makes it one step. The hash maps
  are ordered tables: nothing the operations compute depends on the iteration order of the source.
  A crash keeps what the last fsynced transaction made durable.
\<close>

section \<open>Entries and memory\<close>

datatype shard_durability = DNone | DAsync | DSync

record versioned =
  vs_m_idx :: u64
  vs_v :: u64
  vs_origin :: u64
  vs_expires_at :: u64
  vs_value :: json
  vs_deleted :: bool

definition version_of :: "versioned \<Rightarrow> u64 \<times> u64 \<times> u64" where
  "version_of e = (vs_m_idx e, vs_v e, vs_origin e)"

definition superseded_by :: "versioned \<Rightarrow> versioned \<Rightarrow> bool" where
  "superseded_by a b \<longleftrightarrow> version_of a < version_of b"

definition is_live :: "versioned \<Rightarrow> u64 \<Rightarrow> bool" where
  "is_live e now \<longleftrightarrow> vs_expires_at e = 0 \<or> now < vs_expires_at e"

definition expiry_from :: "u64 \<Rightarrow> u64 option \<Rightarrow> u64" where
  "expiry_from now ttl_millis = (case ttl_millis of Some ttl \<Rightarrow> sat_add now ttl | None \<Rightarrow> 0)"

record flow_mem =
  fm_keys :: "(string, versioned) table"
  fm_last_touch :: u64
  fm_touch_seq :: u64

definition flow_mem_default :: flow_mem where
  "flow_mem_default = \<lparr>fm_keys = [], fm_last_touch = 0, fm_touch_seq = 0\<rparr>"

datatype mutation =
    MSet string string versioned
  | MDelete string string
  | MClearFlow string

record write_request =
  wq_mutation :: mutation
  wq_durability :: shard_durability

text \<open>\<open>sh_writer\<close> is whether a writer thread exists (not for an in-memory shard); \<open>sh_seq\<close> is the
  process-wide touch counter.\<close>

record shard =
  sh_memory :: "(string, flow_mem) table"
  sh_seq :: u64
  sh_queue :: "write_request list"
  sh_writer :: bool
  sh_max_flows :: nat

section \<open>Reads\<close>

definition mem_entry :: "(string, flow_mem) table \<Rightarrow> string \<Rightarrow> string \<Rightarrow> versioned option" where
  "mem_entry mem flow_id key = Option.bind (tget mem flow_id) (\<lambda>f. tget (fm_keys f) key)"

definition shard_get :: "u64 \<Rightarrow> shard \<Rightarrow> string \<Rightarrow> string \<Rightarrow> versioned option" where
  "shard_get now sh flow_id key =
     (case mem_entry (sh_memory sh) flow_id key of
        None \<Rightarrow> None
      | Some e \<Rightarrow> if is_live e now \<and> \<not> vs_deleted e then Some e else None)"

definition get_versioned :: "u64 \<Rightarrow> shard \<Rightarrow> string \<Rightarrow> string \<Rightarrow> versioned option" where
  "get_versioned now sh flow_id key =
     (case mem_entry (sh_memory sh) flow_id key of
        None \<Rightarrow> None
      | Some e \<Rightarrow> if is_live e now then Some e else None)"

definition shard_flow :: "u64 \<Rightarrow> shard \<Rightarrow> string \<Rightarrow> (string \<times> versioned) list" where
  "shard_flow now sh flow_id =
     (case tget (sh_memory sh) flow_id of
        None \<Rightarrow> []
      | Some f \<Rightarrow> filter (\<lambda>(k, e). is_live e now) (fm_keys f))"

definition flow_count :: "shard \<Rightarrow> nat" where
  "flow_count sh = length (sh_memory sh)"

definition flow_ids :: "shard \<Rightarrow> string list" where
  "flow_ids sh = tkeys (sh_memory sh)"

definition entries_by_flow :: "u64 \<Rightarrow> shard \<Rightarrow> (string \<times> nat) list" where
  "entries_by_flow now sh =
     map (\<lambda>(i, f). (i, length (filter (\<lambda>(k, e). is_live e now \<and> \<not> vs_deleted e) (fm_keys f)))) (sh_memory sh)"

section \<open>Writes\<close>

definition touch :: "u64 \<Rightarrow> u64 \<Rightarrow> flow_mem \<Rightarrow> flow_mem" where
  "touch now seq f = f\<lparr>fm_last_touch := now, fm_touch_seq := seq\<rparr>"

definition flow_or_default :: "(string, flow_mem) table \<Rightarrow> string \<Rightarrow> flow_mem" where
  "flow_or_default mem flow_id = (case tget mem flow_id of None \<Rightarrow> flow_mem_default | Some f \<Rightarrow> f)"

definition insert_entry :: "u64 \<Rightarrow> string \<Rightarrow> string \<Rightarrow> versioned \<Rightarrow> shard \<Rightarrow> shard" where
  "insert_entry now flow_id key entry sh =
     (let f = flow_or_default (sh_memory sh) flow_id;
          f' = touch now (sh_seq sh) (f\<lparr>fm_keys := tput key entry (fm_keys f)\<rparr>)
      in sh\<lparr>sh_memory := tput flow_id f' (sh_memory sh), sh_seq := sh_seq sh + 1\<rparr>)"

definition send :: "write_request \<Rightarrow> shard \<Rightarrow> shard" where
  "send request sh = (if sh_writer sh then sh\<lparr>sh_queue := sh_queue sh @ [request]\<rparr> else sh)"

definition submit :: "mutation \<Rightarrow> shard_durability \<Rightarrow> shard \<Rightarrow> shard" where
  "submit m durability sh =
     (if durability = DNone then sh else send \<lparr>wq_mutation = m, wq_durability = durability\<rparr> sh)"

definition age_of :: "string \<times> flow_mem \<Rightarrow> u64 \<times> u64" where
  "age_of row = (fm_last_touch (snd row), fm_touch_seq (snd row))"

text \<open>The eviction in its two locked steps: the victims chosen and removed from memory, and their
  clears sent to the writer.\<close>

definition evict_victims :: "shard \<Rightarrow> string list" where
  "evict_victims sh =
     (let over = length (sh_memory sh) - sh_max_flows sh
      in map fst (take over (sort_key age_of (sh_memory sh))))"

definition evict_memory :: "shard \<Rightarrow> shard" where
  "evict_memory sh = sh\<lparr>sh_memory := filter (\<lambda>row. fst row \<notin> set (evict_victims sh)) (sh_memory sh)\<rparr>"

definition evict_send :: "string list \<Rightarrow> shard \<Rightarrow> shard" where
  "evict_send victims sh =
     fold (\<lambda>i. send \<lparr>wq_mutation = MClearFlow i, wq_durability = DAsync\<rparr>) victims sh"

definition evict_if_needed :: "shard \<Rightarrow> shard" where
  "evict_if_needed sh = evict_send (evict_victims sh) (evict_memory sh)"

definition shard_set :: "u64 \<Rightarrow> string \<Rightarrow> string \<Rightarrow> versioned \<Rightarrow> shard_durability \<Rightarrow> shard \<Rightarrow> shard" where
  "shard_set now flow_id key entry durability sh =
     submit (MSet flow_id key entry) durability (evict_if_needed (insert_entry now flow_id key entry sh))"

definition merge_refused :: "u64 \<Rightarrow> string \<Rightarrow> string \<Rightarrow> versioned \<Rightarrow> shard \<Rightarrow> bool" where
  "merge_refused now flow_id key entry sh =
     (case get_versioned now sh flow_id key of None \<Rightarrow> False | Some current \<Rightarrow> \<not> superseded_by current entry)"

definition shard_merge ::
  "u64 \<Rightarrow> string \<Rightarrow> string \<Rightarrow> versioned \<Rightarrow> shard_durability \<Rightarrow> shard \<Rightarrow> shard \<times> bool" where
  "shard_merge now flow_id key entry durability sh =
     (if merge_refused now flow_id key entry sh then (sh, False)
      else (evict_if_needed (submit (MSet flow_id key entry) durability (insert_entry now flow_id key entry sh)), True))"

definition shard_delete :: "u64 \<Rightarrow> string \<Rightarrow> string \<Rightarrow> shard_durability \<Rightarrow> shard \<Rightarrow> shard" where
  "shard_delete now flow_id key durability sh =
     submit (MDelete flow_id key) durability
       (case tget (sh_memory sh) flow_id of
          None \<Rightarrow> sh
        | Some f \<Rightarrow>
            (let f' = touch now (sh_seq sh) (f\<lparr>fm_keys := tdel key (fm_keys f)\<rparr>)
             in sh\<lparr>sh_memory := (if fm_keys f' = [] then tdel flow_id (sh_memory sh)
                                  else tput flow_id f' (sh_memory sh)),
                   sh_seq := sh_seq sh + 1\<rparr>))"

definition shard_clear_flow :: "string \<Rightarrow> shard_durability \<Rightarrow> shard \<Rightarrow> shard" where
  "shard_clear_flow flow_id durability sh =
     submit (MClearFlow flow_id) durability (sh\<lparr>sh_memory := tdel flow_id (sh_memory sh)\<rparr>)"

section \<open>The writer and its file\<close>

definition MAX_BATCH :: nat where "MAX_BATCH = 256"

record 'txt entry_codec =
  ser_entry :: "versioned \<Rightarrow> 'txt"
  de_entry :: "'txt \<Rightarrow> versioned result"
  ser_meta :: "u64 \<Rightarrow> 'txt"
  de_meta :: "'txt \<Rightarrow> u64 result"

record 'txt disk =
  dk_kv :: "(string \<times> string, 'txt) table"
  dk_meta :: "(string, 'txt) table"

fun apply_mutation :: "('txt, 'a) entry_codec_scheme \<Rightarrow> u64 \<Rightarrow> mutation \<Rightarrow> 'txt disk \<Rightarrow> 'txt disk" where
  "apply_mutation C now (MSet flow_id key entry) d =
     d\<lparr>dk_kv := tput (flow_id, key) (ser_entry C entry) (dk_kv d), dk_meta := tput flow_id (ser_meta C now) (dk_meta d)\<rparr>"
| "apply_mutation C now (MDelete flow_id key) d = d\<lparr>dk_kv := tdel (flow_id, key) (dk_kv d)\<rparr>"
| "apply_mutation C now (MClearFlow flow_id) d =
     d\<lparr>dk_kv := fold (\<lambda>key. tdel (flow_id, key))
                   (map (\<lambda>row. snd (fst row)) (filter (\<lambda>row. fst (fst row) = flow_id) (dk_kv d))) (dk_kv d),
       dk_meta := tdel flow_id (dk_meta d)\<rparr>"

definition commit_batch ::
  "('txt, 'a) entry_codec_scheme \<Rightarrow> u64 \<Rightarrow> write_request list \<Rightarrow> 'txt disk \<Rightarrow> 'txt disk" where
  "commit_batch C now batch d = fold (\<lambda>r. apply_mutation C now (wq_mutation r)) batch d"

text \<open>The writer thread: the file as its transactions see it, the file a crash would leave, and the
  commits not yet fsynced.\<close>

record 'txt writer =
  wr_disk :: "'txt disk"
  wr_synced :: "'txt disk"
  wr_unsynced :: nat

definition writer_batch ::
  "('txt, 'a) entry_codec_scheme \<Rightarrow> u64 \<Rightarrow> write_request list \<Rightarrow> 'txt writer \<Rightarrow> 'txt writer" where
  "writer_batch C now batch w =
     (let d = commit_batch C now batch (wr_disk w) in
      if list_ex (\<lambda>r. wq_durability r = DSync) batch
      then \<lparr>wr_disk = d, wr_synced = d, wr_unsynced = 0\<rparr>
      else \<lparr>wr_disk = d, wr_synced = wr_synced w, wr_unsynced = wr_unsynced w + length batch\<rparr>)"

definition sweep_expired :: "u64 \<Rightarrow> (string, flow_mem) table \<Rightarrow> (string, flow_mem) table \<times> (string \<times> string) list" where
  "sweep_expired now mem =
     (filter (\<lambda>row. fm_keys (snd row) \<noteq> [])
        (map (\<lambda>(i, f). (i, f\<lparr>fm_keys := filter (\<lambda>(k, e). is_live e now) (fm_keys f)\<rparr>)) mem),
      concat (map (\<lambda>(i, f). map (\<lambda>(k, e). (i, k)) (filter (\<lambda>(k, e). \<not> is_live e now) (fm_keys f))) mem))"

definition commit_deletes :: "(string \<times> string) list \<Rightarrow> 'txt disk \<Rightarrow> 'txt disk" where
  "commit_deletes deletes d = d\<lparr>dk_kv := fold tdel deletes (dk_kv d)\<rparr>"

definition writer_tick :: "u64 \<Rightarrow> shard \<Rightarrow> 'txt writer \<Rightarrow> shard \<times> 'txt writer" where
  "writer_tick now sh w =
     (let (mem, expired) = sweep_expired now (sh_memory sh);
          sh' = sh\<lparr>sh_memory := mem\<rparr>
      in if wr_unsynced w = 0 \<and> expired = [] then (sh', w)
         else let d = commit_deletes expired (wr_disk w)
              in (sh', \<lparr>wr_disk = d, wr_synced = d, wr_unsynced = 0\<rparr>))"

text \<open>One turn of the loop that receives: what is queued, up to the batch bound.\<close>

definition writer_recv :: "('txt, 'a) entry_codec_scheme \<Rightarrow> u64 \<Rightarrow> shard \<Rightarrow> 'txt writer \<Rightarrow> shard \<times> 'txt writer" where
  "writer_recv C now sh w =
     (if sh_queue sh = [] then (sh, w)
      else (sh\<lparr>sh_queue := drop MAX_BATCH (sh_queue sh)\<rparr>, writer_batch C now (take MAX_BATCH (sh_queue sh)) w))"

section \<open>Recovery\<close>

datatype shard_error = ShardEncoding string

fun recover_rows ::
  "('txt, 'a) entry_codec_scheme \<Rightarrow> u64 \<Rightarrow> (string \<times> string, 'txt) table \<Rightarrow> (string, flow_mem) table \<Rightarrow>
   shard_error + (string, flow_mem) table" where
  "recover_rows C now [] mem = Inr mem"
| "recover_rows C now (((flow_id, key), row) # rows) mem =
     (case de_entry C row of
        Inl e \<Rightarrow> Inl (ShardEncoding e)
      | Inr entry \<Rightarrow>
          if \<not> is_live entry now then recover_rows C now rows mem
          else (let f = flow_or_default mem flow_id
                in recover_rows C now rows (tput flow_id (f\<lparr>fm_keys := tput key entry (fm_keys f)\<rparr>) mem)))"

fun restore_touch ::
  "('txt, 'a) entry_codec_scheme \<Rightarrow> u64 \<Rightarrow> (string, 'txt) table \<Rightarrow> u64 \<Rightarrow> (string, flow_mem) table \<Rightarrow>
   (string, flow_mem) table" where
  "restore_touch C now meta seq [] = []"
| "restore_touch C now meta seq ((i, f) # mem) =
     (i, touch (case tget meta i of
                  None \<Rightarrow> now
                | Some row \<Rightarrow> (case de_meta C row of Inl _ \<Rightarrow> now | Inr last_touch \<Rightarrow> last_touch)) seq f) #
     restore_touch C now meta (seq + 1) mem"

text \<open>\<^verbatim>\<open>Iterator::min_by_key\<close>: the first of the elements whose key is least.\<close>

fun min_by_key :: "('n \<Rightarrow> 'r::linorder) \<Rightarrow> 'n list \<Rightarrow> 'n option" where
  "min_by_key f [] = None"
| "min_by_key f (x # xs) =
     (case min_by_key f xs of None \<Rightarrow> Some x | Some y \<Rightarrow> if f y < f x then Some y else Some x)"

lemma min_by_key_mem: "min_by_key f xs = Some x \<Longrightarrow> x \<in> set xs"
  by (induction xs arbitrary: x) (auto split: option.splits if_splits)

function shed_oldest :: "nat \<Rightarrow> (string, flow_mem) table \<Rightarrow> (string, flow_mem) table" where
  "shed_oldest max_flows mem =
     (if length mem \<le> max_flows then mem
      else case min_by_key age_of mem of
        None \<Rightarrow> mem
      | Some row \<Rightarrow> shed_oldest max_flows (tdel (fst row) mem))"
  by auto

termination
  by (relation "measure (\<lambda>(_, mem). length mem)")
     (auto simp: tdel_def dest!: min_by_key_mem intro!: length_filter_less)

declare shed_oldest.simps [simp del]

definition recover ::
  "('txt, 'a) entry_codec_scheme \<Rightarrow> u64 \<Rightarrow> u64 \<Rightarrow> nat \<Rightarrow> 'txt disk \<Rightarrow> shard_error + (string, flow_mem) table" where
  "recover C now seq max_flows d =
     (case recover_rows C now (dk_kv d) [] of
        Inl e \<Rightarrow> Inl e
      | Inr mem \<Rightarrow> Inr (shed_oldest max_flows (restore_touch C now (dk_meta d) seq mem)))"

section \<open>Runs, views and the predicates of the specification\<close>

definition keep_newest :: "('e \<Rightarrow> 'e \<Rightarrow> bool) \<Rightarrow> 'e \<Rightarrow> 'e option \<Rightarrow> 'e option" where
  "keep_newest newer e cur = (case cur of None \<Rightarrow> Some e | Some c \<Rightarrow> if newer c e then Some e else Some c)"

text \<open>Room for the flow in the memory: it is there already, or fits under the cap.\<close>

definition has_room :: "string \<Rightarrow> shard \<Rightarrow> bool" where
  "has_room i sh \<longleftrightarrow> twf (sh_memory sh) \<and> card (insert i (fst ` set (sh_memory sh))) \<le> sh_max_flows sh"

definition merge_all :: "u64 \<Rightarrow> string \<Rightarrow> string \<Rightarrow> shard_durability \<Rightarrow> versioned list \<Rightarrow> shard \<Rightarrow> shard" where
  "merge_all now i k d es sh = fold (\<lambda>e sh. fst (shard_merge now i k e d sh)) es sh"

type_synonym view = "string \<times> string \<Rightarrow> versioned option"

definition mem_view :: "(string, flow_mem) table \<Rightarrow> view" where
  "mem_view mem = (\<lambda>(i, k). mem_entry mem i k)"

definition disk_view :: "('txt, 'a) entry_codec_scheme \<Rightarrow> 'txt disk \<Rightarrow> view" where
  "disk_view C d x = (case tget (dk_kv d) x of None \<Rightarrow> None | Some row \<Rightarrow> Some (projr (de_entry C row)))"

fun view_apply :: "mutation \<Rightarrow> view \<Rightarrow> view" where
  "view_apply (MSet i k e) v = v((i, k) \<mapsto> e)"
| "view_apply (MDelete i k) v = v((i, k) := None)"
| "view_apply (MClearFlow i) v = (\<lambda>x. if fst x = i then None else v x)"

definition live_view :: "u64 \<Rightarrow> view \<Rightarrow> view" where
  "live_view now v x = (case v x of None \<Rightarrow> None | Some e \<Rightarrow> if is_live e now then Some e else None)"

definition entry_codec_ok :: "('txt, 'a) entry_codec_scheme \<Rightarrow> bool" where
  "entry_codec_ok C \<longleftrightarrow> (\<forall>e. de_entry C (ser_entry C e) = Inr e) \<and> (\<forall>t. de_meta C (ser_meta C t) = Inr t)"

definition rows_decode :: "('txt, 'a) entry_codec_scheme \<Rightarrow> 'txt disk \<Rightarrow> bool" where
  "rows_decode C d = list_all (\<lambda>row. \<not> isl (de_entry C (snd row))) (dk_kv d)"

datatype shard_op =
    OSet string string versioned shard_durability
  | OMerge string string versioned shard_durability
  | ODelete string string shard_durability
  | OClear string shard_durability
  | ORecv
  | OTick

fun shard_exec :: "('txt, 'a) entry_codec_scheme \<Rightarrow> u64 \<Rightarrow> shard_op \<Rightarrow> shard \<times> 'txt writer \<Rightarrow> shard \<times> 'txt writer" where
  "shard_exec C now (OSet i k e d) (sh, w) = (shard_set now i k e d sh, w)"
| "shard_exec C now (OMerge i k e d) (sh, w) = (fst (shard_merge now i k e d sh), w)"
| "shard_exec C now (ODelete i k d) (sh, w) = (shard_delete now i k d sh, w)"
| "shard_exec C now (OClear i d) (sh, w) = (shard_clear_flow i d sh, w)"
| "shard_exec C now ORecv (sh, w) = writer_recv C now sh w"
| "shard_exec C now OTick (sh, w) = writer_tick now sh w"

fun op_persists :: "shard_op \<Rightarrow> bool" where
  "op_persists (OSet _ _ _ d) = (d \<noteq> DNone)"
| "op_persists (OMerge _ _ _ d) = (d \<noteq> DNone)"
| "op_persists (ODelete _ _ d) = (d \<noteq> DNone)"
| "op_persists (OClear _ d) = (d \<noteq> DNone)"
| "op_persists _ = True"

definition pending_view :: "('txt, 'a) entry_codec_scheme \<Rightarrow> shard \<Rightarrow> 'txt writer \<Rightarrow> view" where
  "pending_view C sh w = fold view_apply (map wq_mutation (sh_queue sh)) (disk_view C (wr_disk w))"

definition flow_ok :: "u64 \<Rightarrow> shard \<Rightarrow> string \<times> flow_mem \<Rightarrow> bool" where
  "flow_ok now sh row \<longleftrightarrow>
     twf (fm_keys (snd row)) \<and> fm_last_touch (snd row) \<le> now \<and> fm_touch_seq (snd row) < sh_seq sh"

definition shard_ok :: "u64 \<Rightarrow> nat \<Rightarrow> shard \<Rightarrow> bool" where
  "shard_ok now n sh \<longleftrightarrow>
     sh_writer sh \<and> 1 \<le> sh_max_flows sh \<and> twf (sh_memory sh) \<and> length (sh_memory sh) \<le> sh_max_flows sh \<and>
     list_all (flow_ok now sh) (sh_memory sh) \<and> unat (sh_seq sh) \<le> n"

definition writer_ok :: "('txt, 'a) entry_codec_scheme \<Rightarrow> 'txt writer \<Rightarrow> bool" where
  "writer_ok C w \<longleftrightarrow>
     twf (dk_kv (wr_disk w)) \<and> rows_decode C (wr_disk w) \<and> (wr_unsynced w = 0 \<longrightarrow> wr_synced w = wr_disk w)"

text \<open>The file, once it has taken the queue, holds the live entries the memory holds.\<close>

definition mirrored :: "('txt, 'a) entry_codec_scheme \<Rightarrow> u64 \<Rightarrow> shard \<Rightarrow> 'txt writer \<Rightarrow> bool" where
  "mirrored C now sh w \<longleftrightarrow> live_view now (mem_view (sh_memory sh)) = live_view now (pending_view C sh w)"

definition clear_flows :: "string list \<Rightarrow> view \<Rightarrow> view" where
  "clear_flows is v = (\<lambda>x. if fst x \<in> set is then None else v x)"

definition shard_inv :: "('txt, 'a) entry_codec_scheme \<Rightarrow> u64 \<Rightarrow> nat \<Rightarrow> shard \<times> 'txt writer \<Rightarrow> bool" where
  "shard_inv C now n s \<longleftrightarrow> shard_ok now n (fst s) \<and> writer_ok C (snd s) \<and> mirrored C now (fst s) (snd s)"

definition shard_run ::
  "('txt, 'a) entry_codec_scheme \<Rightarrow> (u64 \<times> shard_op) list \<Rightarrow> shard \<times> 'txt writer \<Rightarrow> shard \<times> 'txt writer" where
  "shard_run C ops s = fold (\<lambda>(now, a). shard_exec C now a) ops s"

text \<open>A shard as \<^verbatim>\<open>Shard::open\<close> makes it on a new file.\<close>

definition fresh_shard :: "nat \<Rightarrow> shard \<times> 'txt writer" where
  "fresh_shard max_flows =
     (\<lparr>sh_memory = [], sh_seq = 0, sh_queue = [], sh_writer = True, sh_max_flows = max_flows\<rparr>,
      \<lparr>wr_disk = \<lparr>dk_kv = [], dk_meta = []\<rparr>, wr_synced = \<lparr>dk_kv = [], dk_meta = []\<rparr>, wr_unsynced = 0\<rparr>)"

text \<open>The codec of a file whose rows are the entries themselves, and sample entries.\<close>

definition plain_codec :: "(versioned + u64) entry_codec" where
  "plain_codec = \<lparr>ser_entry = Inl,
     de_entry = (\<lambda>r. case r of Inl e \<Rightarrow> Inr e | Inr _ \<Rightarrow> Inl ''not an entry''),
     ser_meta = Inr,
     de_meta = (\<lambda>r. case r of Inl _ \<Rightarrow> Inl ''not a touch'' | Inr t \<Rightarrow> Inr t)\<rparr>"

definition sample_entry_at :: "u64 \<Rightarrow> u64 \<Rightarrow> versioned" where
  "sample_entry_at v expires = \<lparr>vs_m_idx = 1, vs_v = v, vs_origin = 1, vs_expires_at = expires, vs_value = JNull, vs_deleted = False\<rparr>"

definition sample_run :: "(u64 \<times> shard_op) list" where
  "sample_run =
     [(10, OSet ''f'' ''a'' (sample_entry_at 1 0) DAsync), (11, OSet ''g'' ''a'' (sample_entry_at 1 0) DAsync),
      (12, OMerge ''g'' ''a'' (sample_entry_at 2 20) DAsync), (13, ORecv), (14, OTick)]"

definition sample_state :: "shard \<times> (versioned + u64) writer" where
  "sample_state = shard_run plain_codec sample_run (fresh_shard 1)"

text \<open>A shard of one flow just before the eviction that the second flow calls for.\<close>

definition crowded_shard :: shard where
  "crowded_shard = insert_entry 11 ''g'' ''a'' (sample_entry_at 1 0)
     (fst (shard_run plain_codec [(10, OSet ''f'' ''a'' (sample_entry_at 1 0) DSync), (10, ORecv)] (fresh_shard 1)))"

text \<open>The eviction sends its clears after it has released the memory. A set of a victim that runs in
  between, durable and acknowledged, is erased from the file by the clear that follows: the running
  shard answers it, the recovered one does not.\<close>

definition raced :: "shard \<times> (versioned + u64) writer" where
  "raced =
     (let w0 = snd (shard_run plain_codec [(10, OSet ''f'' ''a'' (sample_entry_at 1 0) DSync), (10, ORecv)] (fresh_shard 1));
          (sh, w) = writer_recv plain_codec 12
                      (shard_set 12 ''f'' ''a'' (sample_entry_at 2 0) DSync (evict_memory crowded_shard)) w0
      in shard_run plain_codec [(13, ORecv), (14, OTick)] (evict_send (evict_victims crowded_shard) sh, w))"

section \<open>Lemmas: eviction\<close>

lemma take_sort_age:
  assumes "x \<in> set (take n (sort_key f xs))" and "y \<in> set (drop n (sort_key f xs))"
  shows "f x \<le> f y"
proof -
  have "sorted (map f (take n (sort_key f xs) @ drop n (sort_key f xs)))" by simp
  then show ?thesis using assms by (auto simp only: map_append sorted_append set_map)
qed

lemma victims_keys:
  assumes "twf mem" and "row \<in> set mem"
  shows "fst row \<in> set (map fst (take n (sort_key f mem))) \<longleftrightarrow> row \<in> set (take n (sort_key f mem))"
proof
  assume "fst row \<in> set (map fst (take n (sort_key f mem)))"
  then obtain r where r: "r \<in> set (take n (sort_key f mem))" "fst r = fst row" by auto
  then have "r \<in> set mem" by (metis in_set_takeD set_sort)
  with r assms have "r = row" using twf_distinct [OF assms(1)] by (meson distinct_map inj_onD)
  with r show "row \<in> set (take n (sort_key f mem))" by simp
qed auto

lemma filter_victims:
  assumes "twf mem"
  shows "set (filter (\<lambda>row. fst row \<notin> set (map fst (take n (sort_key f mem)))) mem) = set (drop n (sort_key f mem))"
    and "length (filter (\<lambda>row. fst row \<notin> set (map fst (take n (sort_key f mem)))) mem) = length mem - n"
proof -
  let ?s = "sort_key f mem"
  let ?kept = "filter (\<lambda>row. fst row \<notin> set (map fst (take n ?s))) mem"
  have dist: "distinct ?s" using twf_distinct [OF assms] by (simp add: distinct_map)
  have "distinct (take n ?s @ drop n ?s)" using dist by simp
  then have disj: "set (take n ?s) \<inter> set (drop n ?s) = {}" by (simp only: distinct_append)
  have all: "set mem = set (take n ?s) \<union> set (drop n ?s)"
    by (metis append_take_drop_id set_append set_sort)
  show eq: "set ?kept = set (drop n ?s)"
  proof -
    have "?kept = filter (\<lambda>row. row \<notin> set (take n ?s)) mem"
      by (rule filter_cong [OF refl]) (use victims_keys [OF assms] in blast)
    then have "set ?kept = set mem - set (take n ?s)" by auto
    also have "\<dots> = set (drop n ?s)" using disj all by blast
    finally show ?thesis .
  qed
  have "distinct ?kept" using twf_distinct [OF assms] by (simp add: distinct_map)
  then have "length ?kept = card (set (drop n ?s))" by (metis eq distinct_card)
  also have "\<dots> = length mem - n" using dist by (simp add: distinct_card)
  finally show "length ?kept = length mem - n" .
qed

lemma evict_send_memory [simp]:
  "sh_memory (evict_send victims sh) = sh_memory sh" "sh_seq (evict_send victims sh) = sh_seq sh"
  "sh_max_flows (evict_send victims sh) = sh_max_flows sh" "sh_writer (evict_send victims sh) = sh_writer sh"
proof -
  have "sh_memory (evict_send victims sh) = sh_memory sh \<and> sh_seq (evict_send victims sh) = sh_seq sh \<and>
    sh_max_flows (evict_send victims sh) = sh_max_flows sh \<and> sh_writer (evict_send victims sh) = sh_writer sh"
    unfolding evict_send_def by (induction victims arbitrary: sh) (auto simp: send_def)
  then show "sh_memory (evict_send victims sh) = sh_memory sh" "sh_seq (evict_send victims sh) = sh_seq sh"
    "sh_max_flows (evict_send victims sh) = sh_max_flows sh" "sh_writer (evict_send victims sh) = sh_writer sh"
    by simp_all
qed

lemma evict_memory_rows:
  assumes "twf (sh_memory sh)"
  shows "set (sh_memory (evict_memory sh)) =
           set (drop (length (sh_memory sh) - sh_max_flows sh) (sort_key age_of (sh_memory sh)))"
    and "length (sh_memory (evict_memory sh)) = min (length (sh_memory sh)) (sh_max_flows sh)"
  using filter_victims [OF assms, of "length (sh_memory sh) - sh_max_flows sh" age_of]
  by (simp_all add: evict_memory_def evict_victims_def Let_def)

lemma evict_if_needed_memory:
  "sh_memory (evict_if_needed sh) = sh_memory (evict_memory sh)"
  by (simp add: evict_if_needed_def)

section \<open>Last writer wins\<close>

locale lww_register =
  fixes newer :: "'e \<Rightarrow> 'e \<Rightarrow> bool"
  assumes newer_irrefl: "\<not> newer e e"
    and newer_trans: "newer a b \<Longrightarrow> newer b c \<Longrightarrow> newer a c"
begin

text \<open>Writes that can be told apart by their versions.\<close>

definition separated :: "'e set \<Rightarrow> bool" where
  "separated W \<longleftrightarrow> (\<forall>a \<in> W. \<forall>b \<in> W. a = b \<or> newer a b \<or> newer b a)"

lemma fold_newest:
  assumes "separated (insert c (set es))"
  shows "\<exists>m. fold (keep_newest newer) es (Some c) = Some m \<and> m \<in> insert c (set es) \<and>
             (\<forall>x \<in> insert c (set es). x = m \<or> newer x m)"
  using assms
proof (induction es arbitrary: c)
  case (Cons e es)
  define c' where "c' = (if newer c e then e else c)"
  have step: "keep_newest newer e (Some c) = Some c'" by (simp add: keep_newest_def c'_def)
  have "separated (insert c' (set es))" using Cons.prems by (auto simp: separated_def c'_def)
  from Cons.IH [OF this] obtain m where m: "fold (keep_newest newer) es (Some c') = Some m"
    "m \<in> insert c' (set es)" "\<forall>x \<in> insert c' (set es). x = m \<or> newer x m" by blast
  have "x = c' \<or> newer x c'" if "x \<in> {c, e}" for x
    using that Cons.prems by (auto simp: c'_def separated_def)
  with m have "x = m \<or> newer x m" if "x \<in> {c, e}" for x
    using that by (metis insertI1 newer_trans)
  moreover have "m \<in> insert c (set (e # es))" using m(2) by (auto simp: c'_def split: if_splits)
  ultimately show ?case using m step by auto
qed simp

lemma newest_unique:
  assumes "m \<in> W" "\<forall>x \<in> W. x = m \<or> newer x m" "m' \<in> W" "\<forall>x \<in> W. x = m' \<or> newer x m'"
  shows "m = m'"
  using assms by (metis newer_irrefl newer_trans)

lemma fold_order:
  assumes "set es = set es'" and "separated (set es)"
  shows "fold (keep_newest newer) es None = fold (keep_newest newer) es' None"
proof (cases es)
  case Nil
  with assms show ?thesis by simp
next
  case (Cons a as)
  with assms obtain b bs where es': "es' = b # bs" by (cases es') auto
  from fold_newest [of a as] Cons assms obtain m where
    m: "fold (keep_newest newer) es None = Some m" "m \<in> set es" "\<forall>x \<in> set es. x = m \<or> newer x m"
    by (auto simp: keep_newest_def)
  from fold_newest [of b bs] es' assms obtain m' where
    m': "fold (keep_newest newer) es' None = Some m'" "m' \<in> set es'" "\<forall>x \<in> set es'. x = m' \<or> newer x m'"
    by (auto simp: keep_newest_def)
  with m assms(1) show ?thesis using newest_unique [of m "set es" m'] by simp
qed

end

interpretation lww: lww_register superseded_by
  by unfold_locales (auto simp: superseded_by_def intro: order.strict_trans)

section \<open>Lemmas: merging\<close>

lemma evict_noop: "length (sh_memory sh) \<le> sh_max_flows sh \<Longrightarrow> evict_if_needed sh = sh"
  by (simp add: evict_if_needed_def evict_memory_def evict_victims_def evict_send_def)

lemma submit_fields [simp]:
  "sh_memory (submit m d sh) = sh_memory sh" "sh_max_flows (submit m d sh) = sh_max_flows sh"
  "sh_seq (submit m d sh) = sh_seq sh" "sh_writer (submit m d sh) = sh_writer sh"
  by (simp_all add: submit_def send_def)

lemma mem_entry_insert:
  "mem_entry (sh_memory (insert_entry now i k e sh)) j l =
     (if j = i \<and> l = k then Some e else mem_entry (sh_memory sh) j l)"
  by (auto simp: mem_entry_def insert_entry_def Let_def touch_def flow_or_default_def flow_mem_default_def
      split: option.splits)

lemma insert_entry_fields:
  "sh_max_flows (insert_entry now i k e sh) = sh_max_flows sh"
  "fst ` set (sh_memory (insert_entry now i k e sh)) = insert i (fst ` set (sh_memory sh))"
  "twf (sh_memory sh) \<Longrightarrow> twf (sh_memory (insert_entry now i k e sh))"
  by (simp_all add: insert_entry_def Let_def)

lemma insert_entry_room:
  "has_room i sh \<Longrightarrow> length (sh_memory (insert_entry now i k e sh)) \<le> sh_max_flows sh"
  using length_table [of "sh_memory (insert_entry now i k e sh)"]
  by (simp add: has_room_def insert_entry_fields)

lemma merge_get_versioned:
  assumes "length (sh_memory (insert_entry now i k e sh)) \<le> sh_max_flows sh" and "is_live e now"
  shows "get_versioned now (fst (shard_merge now i k e d sh)) i k =
           keep_newest superseded_by e (get_versioned now sh i k)"
proof -
  have "sh_max_flows (insert_entry now i k e sh) = sh_max_flows sh"
    by (simp add: insert_entry_def Let_def)
  with assms(1) have "fst (shard_merge now i k e d sh) =
      (if merge_refused now i k e sh then sh else submit (MSet i k e) d (insert_entry now i k e sh))"
    by (simp add: shard_merge_def evict_noop)
  then show ?thesis using assms(2)
    by (auto simp: keep_newest_def merge_refused_def get_versioned_def mem_entry_insert split: option.splits)
qed

lemma merge_room:
  assumes "has_room i sh" shows "has_room i (fst (shard_merge now i k e d sh))"
proof -
  have "evict_if_needed (submit (MSet i k e) d (insert_entry now i k e sh)) =
        submit (MSet i k e) d (insert_entry now i k e sh)"
    using insert_entry_room [OF assms] by (intro evict_noop) (simp add: insert_entry_fields)
  with assms show ?thesis by (simp add: shard_merge_def has_room_def insert_entry_fields)
qed

lemma merge_all_get:
  "has_room i sh \<Longrightarrow> list_all (\<lambda>e. is_live e now) es \<Longrightarrow>
   get_versioned now (merge_all now i k d es sh) i k =
     fold (keep_newest superseded_by) es (get_versioned now sh i k)"
proof (induction es arbitrary: sh)
  case (Cons e es)
  then have "get_versioned now (fst (shard_merge now i k e d sh)) i k =
      keep_newest superseded_by e (get_versioned now sh i k)"
    by (intro merge_get_versioned) (simp_all add: insert_entry_room)
  with Cons merge_room [OF Cons.prems(1)] show ?case by (simp add: merge_all_def)
qed (simp add: merge_all_def)

section \<open>Lemmas: the views of memory and file\<close>

lemma disk_view_apply:
  assumes "entry_codec_ok C"
  shows "disk_view C (apply_mutation C now m d) = view_apply m (disk_view C d)"
proof (cases m)
  case (MClearFlow i)
  let ?keys = "map (\<lambda>row. snd (fst row)) (filter (\<lambda>row. fst (fst row) = i) (dk_kv d))"
  have all: "tget (dk_kv d) (i, l) = None" if "(i, l) \<notin> Pair i ` set ?keys" for l
    using that by (force simp: map_of_eq_None_iff)
  have "tget (dk_kv (apply_mutation C now m d)) (j, l) = (if j = i then None else tget (dk_kv d) (j, l))" for j l
    using all [of l] tget_fold_tdel [of "Pair i" ?keys "dk_kv d" "(j, l)"] MClearFlow by auto
  then show ?thesis using MClearFlow by (auto simp: disk_view_def fun_eq_iff)
qed (use assms in \<open>auto simp: disk_view_def fun_eq_iff entry_codec_ok_def\<close>)

lemma apply_mutation_wf:
  "twf (dk_kv d) \<Longrightarrow> twf (dk_kv (apply_mutation C now m d))"
  by (cases m) (auto simp: fold_tdel_wf)

lemma apply_mutation_rows:
  assumes "entry_codec_ok C" and "rows_decode C d" shows "rows_decode C (apply_mutation C now m d)"
proof (cases m)
  case (MClearFlow i)
  from assms(2) show ?thesis
    using fold_tdel_set [of "Pair i" "map (\<lambda>row. snd (fst row)) (filter (\<lambda>row. fst (fst row) = i) (dk_kv d))" "dk_kv d"]
    by (auto simp: rows_decode_def list_all_iff MClearFlow)
qed (use assms in \<open>auto simp: rows_decode_def list_all_iff entry_codec_ok_def tdel_def
        dest!: set_mp [OF set_tput]\<close>)

section \<open>Operations of one shard, in order\<close>

section \<open>Lemmas: live views\<close>

lemma live_live:
  assumes "now \<le> now'" shows "live_view now' (live_view now v) = live_view now' v"
proof
  fix x
  have "is_live e now' \<Longrightarrow> is_live e now" for e using assms by (auto simp: is_live_def)
  then show "live_view now' (live_view now v) x = live_view now' v x"
    by (cases "v x") (auto simp: live_view_def)
qed

lemma live_view_mono:
  "now \<le> now' \<Longrightarrow> live_view now v = live_view now v' \<Longrightarrow> live_view now' v = live_view now' v'"
  by (metis live_live)

lemma live_view_apply:
  assumes "live_view now v = live_view now v'"
  shows "live_view now (view_apply m v) = live_view now (view_apply m v')"
proof
  fix x
  have "live_view now v x = live_view now v' x" using assms by simp
  then show "live_view now (view_apply m v) x = live_view now (view_apply m v') x"
    by (cases m) (auto simp: live_view_def)
qed

lemma fold_clear: "fold view_apply (map MClearFlow is) v = clear_flows is v"
  by (induction "is" arbitrary: v) (auto simp: clear_flows_def fun_eq_iff)

lemma live_clear:
  assumes "live_view now v = live_view now v'"
  shows "live_view now (clear_flows is v) = live_view now (clear_flows is v')"
proof
  fix x
  have "live_view now v x = live_view now v' x" using assms by simp
  then show "live_view now (clear_flows is v) x = live_view now (clear_flows is v') x"
    by (simp add: live_view_def clear_flows_def)
qed

lemma mem_view_insert: "mem_view (sh_memory (insert_entry now i k e sh)) = (mem_view (sh_memory sh))((i, k) \<mapsto> e)"
  by (auto simp: mem_view_def fun_eq_iff mem_entry_insert)

lemma mem_view_evict: "mem_view (sh_memory (evict_memory sh)) = clear_flows (evict_victims sh) (mem_view (sh_memory sh))"
proof -
  have "tget (filter (\<lambda>row. fst row \<notin> V) t) i = (if i \<in> V then None else tget t i)"
    for V and t :: "(string, flow_mem) table" and i
    by (induction t) auto
  then show ?thesis by (auto simp: mem_view_def mem_entry_def evict_memory_def clear_flows_def fun_eq_iff)
qed

lemma queue_submit:
  "sh_writer sh \<Longrightarrow> d \<noteq> DNone \<Longrightarrow> map wq_mutation (sh_queue (submit m d sh)) = map wq_mutation (sh_queue sh) @ [m]"
  by (simp add: submit_def send_def)

lemma queue_evict_send:
  "sh_writer sh \<Longrightarrow>
   map wq_mutation (sh_queue (evict_send is sh)) = map wq_mutation (sh_queue sh) @ map MClearFlow is"
  unfolding evict_send_def by (induction "is" arbitrary: sh) (auto simp: send_def)

lemma pending_submit:
  "sh_writer sh \<Longrightarrow> d \<noteq> DNone \<Longrightarrow> pending_view C (submit m d sh) w = view_apply m (pending_view C sh w)"
  by (simp add: pending_view_def queue_submit)

lemma pending_evict:
  assumes "sh_writer sh"
  shows "pending_view C (evict_if_needed sh) w = clear_flows (evict_victims sh) (pending_view C sh w)"
proof -
  have "sh_writer (evict_memory sh)" "sh_queue (evict_memory sh) = sh_queue sh"
    using assms by (simp_all add: evict_memory_def)
  then show ?thesis by (simp add: pending_view_def evict_if_needed_def queue_evict_send fold_clear)
qed

section \<open>Lemmas: every operation keeps the shard in order\<close>

lemma shard_ok_mono:
  assumes "shard_ok now n sh" and "now \<le> now'" and "n \<le> m" shows "shard_ok now' m sh"
proof -
  have "list_all (flow_ok now' sh) (sh_memory sh)"
    using assms by (auto simp: shard_ok_def flow_ok_def elim!: list.pred_mono_strong)
  with assms show ?thesis by (simp add: shard_ok_def)
qed

lemma seq_grows:
  fixes seq :: u64
  assumes "unat seq \<le> n" and "Suc n < 2 ^ 64"
  shows "seq < seq + 1" and "unat (seq + 1) \<le> Suc n"
proof -
  have "unat (seq + 1) = Suc (unat seq)" using assms by (simp add: unat_word_ariths)
  with assms show "seq < seq + 1" "unat (seq + 1) \<le> Suc n" by (simp_all add: word_less_nat_alt)
qed

text \<open>A touched flow is the newest of its shard.\<close>

lemma touched_newest:
  assumes "shard_ok now n sh" and "row \<in> set (sh_memory sh)"
    and "fm_last_touch f = now" and "fm_touch_seq f = sh_seq sh"
  shows "age_of row < age_of (i, f)"
  using assms by (auto simp: shard_ok_def list_all_iff flow_ok_def age_of_def less_prod_def)

lemma insert_memory:
  "sh_memory (insert_entry now i k e sh) =
     tput i (touch now (sh_seq sh) ((flow_or_default (sh_memory sh) i)
        \<lparr>fm_keys := tput k e (fm_keys (flow_or_default (sh_memory sh) i))\<rparr>)) (sh_memory sh)"
  "sh_seq (insert_entry now i k e sh) = sh_seq sh + 1"
  "sh_writer (insert_entry now i k e sh) = sh_writer sh"
  "sh_queue (insert_entry now i k e sh) = sh_queue sh"
  by (simp_all add: insert_entry_def Let_def)

lemma insert_rows:
  assumes "row \<in> set (sh_memory (insert_entry now i k e sh))"
  obtains (new) f where "row = (i, f)" "fm_last_touch f = now" "fm_touch_seq f = sh_seq sh"
      "fm_keys f = tput k e (fm_keys (flow_or_default (sh_memory sh) i))"
    | (old) "row \<in> set (sh_memory sh)"
proof -
  let ?f = "touch now (sh_seq sh) ((flow_or_default (sh_memory sh) i)
        \<lparr>fm_keys := tput k e (fm_keys (flow_or_default (sh_memory sh) i))\<rparr>)"
  have "row = (i, ?f) \<or> row \<in> set (sh_memory sh)"
    using assms set_tput [of i ?f "sh_memory sh"] by (auto simp only: insert_memory)
  then show thesis using new [of ?f] old by (auto simp: touch_def)
qed

lemma insert_not_victim:
  assumes ok: "shard_ok now n sh" shows "i \<notin> set (evict_victims (insert_entry now i k e sh))"
proof
  let ?sh = "insert_entry now i k e sh"
  let ?mem = "sh_memory ?sh"
  let ?over = "length ?mem - sh_max_flows sh"
  assume "i \<in> set (evict_victims ?sh)"
  then obtain f where f: "(i, f) \<in> set (take ?over (sort_key age_of ?mem))"
    by (auto simp: evict_victims_def insert_entry_fields)
  then have "0 < ?over" by (cases ?over) auto
  then have "?over < length ?mem" using ok unfolding shard_ok_def by linarith
  then obtain y where y: "y \<in> set (drop ?over (sort_key age_of ?mem))"
    by (metis drop_eq_Nil length_sort list.set_intros(1) neq_Nil_conv not_less)
  have twf: "twf ?mem" using ok by (simp add: shard_ok_def insert_entry_fields)
  then have dist: "distinct (take ?over (sort_key age_of ?mem) @ drop ?over (sort_key age_of ?mem))"
    using twf_distinct [OF twf] by (simp add: distinct_map)
  have mem: "(i, f) \<in> set ?mem" "y \<in> set ?mem"
    using f y by (metis in_set_takeD set_sort) (use y in \<open>metis in_set_dropD set_sort\<close>)
  have "(i, f) \<noteq> y" using f y dist by (auto simp only: distinct_append)
  then have "fst y \<noteq> i" using mem twf by (cases y) (auto simp: twf_row)
  then have "y \<in> set (sh_memory sh)" using mem(2) by (auto elim: insert_rows)
  moreover obtain "fm_last_touch f = now" "fm_touch_seq f = sh_seq sh"
  proof -
    have "tget ?mem i = Some f" using mem(1) twf by (simp add: twf_row)
    then show thesis using that by (auto simp: insert_memory touch_def)
  qed
  ultimately have "age_of y < age_of (i, f)" using touched_newest [OF ok] by blast
  moreover have "age_of (i, f) \<le> age_of y" using take_sort_age [OF f y] .
  ultimately show False by simp
qed

text \<open>The order of the shard is about its memory, its counter and its bounds.\<close>

lemma shard_ok_cong:
  assumes "sh_memory a = sh_memory b" "sh_seq a = sh_seq b" "sh_writer a = sh_writer b"
    "sh_max_flows a = sh_max_flows b"
  shows "shard_ok now n a = shard_ok now n b"
proof -
  have "flow_ok now a = flow_ok now b" using assms by (simp add: flow_ok_def fun_eq_iff)
  with assms show ?thesis by (simp add: shard_ok_def)
qed

lemma shard_ok_submit [simp]: "shard_ok now n (submit m d sh) = shard_ok now n sh"
  by (rule shard_ok_cong) simp_all

lemma evict_submit:
  "evict_victims (submit m d sh) = evict_victims sh"
  "shard_ok now n (evict_if_needed (submit m d sh)) = shard_ok now n (evict_if_needed sh)"
  by (simp add: evict_victims_def)
     (rule shard_ok_cong; simp add: evict_if_needed_def evict_memory_def evict_victims_def)

lemma default_keys_wf: "shard_ok now n sh \<Longrightarrow> twf (fm_keys (flow_or_default (sh_memory sh) i))"
  by (auto simp: flow_or_default_def flow_mem_default_def shard_ok_def list_all_iff flow_ok_def
      split: option.split dest!: map_of_SomeD)

lemma insert_flows_ok:
  assumes ok: "shard_ok now n sh" and "Suc n < 2 ^ 64" and "row \<in> set (sh_memory (insert_entry now i k e sh))"
  shows "flow_ok now (insert_entry now i k e sh) row"
proof -
  have seq: "sh_seq sh < sh_seq sh + 1"
    using seq_grows [of "sh_seq sh" n] assms by (simp add: shard_ok_def)
  show ?thesis using assms(3)
  proof (cases rule: insert_rows)
    case (new f)
    with seq default_keys_wf [OF ok] show ?thesis by (simp add: flow_ok_def insert_memory)
  next
    case old
    then have "flow_ok now sh row" using ok by (auto simp: shard_ok_def list_all_iff)
    with seq show ?thesis by (auto simp: flow_ok_def insert_memory)
  qed
qed

lemma insert_evict_ok:
  assumes ok: "shard_ok now n sh" and "Suc n < 2 ^ 64"
  shows "shard_ok now (Suc n) (evict_if_needed (insert_entry now i k e sh))"
proof -
  let ?sh = "insert_entry now i k e sh"
  have seq: "unat (sh_seq sh + 1) \<le> Suc n"
    using seq_grows [of "sh_seq sh" n] assms by (simp add: shard_ok_def)
  have twf: "twf (sh_memory ?sh)" using ok by (simp add: shard_ok_def insert_entry_fields)
  have len: "length (sh_memory (evict_memory ?sh)) \<le> sh_max_flows sh"
    using evict_memory_rows(2) [OF twf] by (simp add: insert_entry_fields)
  have flows: "flow_ok now (evict_if_needed ?sh) row" if "row \<in> set (sh_memory (evict_memory ?sh))" for row
    using insert_flows_ok [OF assms, of row i k e] that by (simp add: evict_memory_def flow_ok_def evict_if_needed_def)
  have fields: "sh_writer (evict_memory ?sh)" "sh_max_flows (evict_memory ?sh) = sh_max_flows sh"
    "sh_seq (evict_memory ?sh) = sh_seq sh + 1" "1 \<le> sh_max_flows sh"
    using ok by (simp_all add: evict_memory_def insert_memory insert_entry_fields shard_ok_def)
  have "twf (sh_memory (evict_memory ?sh))" using twf by (simp add: evict_memory_def twf_filter)
  with fields seq len flows show ?thesis
    by (simp add: shard_ok_def list_all_iff evict_if_needed_memory) (simp add: evict_if_needed_def)
qed

lemma delete_memory:
  "sh_memory (shard_delete now i k d sh) =
     (case tget (sh_memory sh) i of
        None \<Rightarrow> sh_memory sh
      | Some f \<Rightarrow> if tdel k (fm_keys f) = [] then tdel i (sh_memory sh)
          else tput i (touch now (sh_seq sh) (f\<lparr>fm_keys := tdel k (fm_keys f)\<rparr>)) (sh_memory sh))"
  by (simp add: shard_delete_def Let_def touch_def split: option.split)

lemma mem_view_delete: "mem_view (sh_memory (shard_delete now i k d sh)) = (mem_view (sh_memory sh))((i, k) := None)"
proof -
  have empty: "tget keys l = None" if "tdel k keys = []" "l \<noteq> k" for l and keys :: "(string, versioned) table"
  proof -
    have "tget keys l = tget (tdel k keys) l" using that(2) by simp
    also have "\<dots> = None" using that(1) by simp
    finally show ?thesis .
  qed
  show ?thesis
    by (auto simp: mem_view_def mem_entry_def delete_memory fun_eq_iff touch_def empty split: option.split)
qed

lemma mem_view_clear: "mem_view (tdel i mem) = view_apply (MClearFlow i) (mem_view mem)"
  by (auto simp: mem_view_def mem_entry_def fun_eq_iff)

lemma shard_ok_sub:
  assumes ok: "shard_ok now n sh" and twf: "twf mem" and len: "length mem \<le> length (sh_memory sh)"
    and rows: "\<And>row. row \<in> set mem \<Longrightarrow> flow_ok now sh row"
  shows "shard_ok now n (sh\<lparr>sh_memory := mem\<rparr>)"
  using assms by (auto simp: shard_ok_def list_all_iff flow_ok_def)

lemma delete_ok:
  assumes ok: "shard_ok now n sh" and "Suc n < 2 ^ 64" shows "shard_ok now (Suc n) (shard_delete now i k d sh)"
proof (cases "tget (sh_memory sh) i")
  case None
  with shard_ok_mono [OF ok order_refl, of "Suc n"] show ?thesis by (simp add: shard_delete_def)
next
  case (Some f)
  let ?sh = "sh\<lparr>sh_seq := sh_seq sh + 1\<rparr>"
  let ?mem = "sh_memory (shard_delete now i k d sh)"
  have seq: "sh_seq sh < sh_seq sh + 1" "unat (sh_seq sh + 1) \<le> Suc n"
    using seq_grows [of "sh_seq sh" n] assms by (simp_all add: shard_ok_def)
  have f: "flow_ok now sh (i, f)" using ok Some by (auto simp: shard_ok_def list_all_iff dest: map_of_SomeD)
  have old: "flow_ok now ?sh row" if "row \<in> set (sh_memory sh)" for row
    using ok that seq by (auto simp: shard_ok_def list_all_iff flow_ok_def)
  have wf: "twf ?mem" using ok Some by (auto simp: delete_memory shard_ok_def)
  have new: "flow_ok now ?sh (i, touch now (sh_seq sh) (f\<lparr>fm_keys := tdel k (fm_keys f)\<rparr>))"
    using f seq by (simp add: flow_ok_def touch_def)
  have rows: "flow_ok now ?sh row" if "row \<in> set ?mem" for row
  proof -
    have "row = (i, touch now (sh_seq sh) (f\<lparr>fm_keys := tdel k (fm_keys f)\<rparr>)) \<or> row \<in> set (sh_memory sh)"
      using that Some by (auto simp: delete_memory tdel_def split: if_splits dest: set_mp [OF set_tput])
    then show ?thesis using new old by blast
  qed
  have keys: "fst ` set ?mem \<subseteq> fst ` set (sh_memory sh)"
    using Some by (auto simp: delete_memory tkeys_tget)
  have "length ?mem \<le> length (sh_memory sh)"
    using length_table [OF wf] length_table [of "sh_memory sh"] ok card_mono [OF _ keys]
    by (simp add: shard_ok_def)
  moreover have "shard_ok now (Suc n) ?sh" using ok seq old by (simp add: shard_ok_def list_all_iff)
  ultimately have "shard_ok now (Suc n) (?sh\<lparr>sh_memory := ?mem\<rparr>)" using wf rows by (intro shard_ok_sub) simp_all
  then show ?thesis
    by (subst shard_ok_cong) (use Some in \<open>simp_all add: shard_delete_def Let_def touch_def\<close>)
qed

lemma clear_ok:
  assumes "shard_ok now n sh" shows "shard_ok now n (shard_clear_flow i d sh)"
proof -
  have "shard_ok now n (sh\<lparr>sh_memory := tdel i (sh_memory sh)\<rparr>)"
    using assms by (intro shard_ok_sub) (auto simp: shard_ok_def tdel_def twf_filter list_all_iff)
  then show ?thesis by (simp add: shard_clear_flow_def)
qed

section \<open>Lemmas: memory and file stay in step\<close>

lemma mirrored_mono: "now \<le> now' \<Longrightarrow> mirrored C now sh w \<Longrightarrow> mirrored C now' sh w"
  unfolding mirrored_def by (rule live_view_mono)

lemma set_mirrored:
  assumes ok: "shard_ok now n sh" and m: "mirrored C now sh w" and d: "d \<noteq> DNone"
  shows "mirrored C now (shard_set now i k e d sh) w"
proof -
  let ?sh = "insert_entry now i k e sh"
  have w: "sh_writer ?sh" "sh_writer (evict_if_needed ?sh)"
    using ok by (simp_all add: shard_ok_def insert_memory evict_if_needed_def evict_memory_def)
  have swap: "view_apply (MSet i k e) (clear_flows V v) = clear_flows V (view_apply (MSet i k e) v)"
    if "i \<notin> set V" for V v using that by (auto simp: clear_flows_def fun_eq_iff)
  have "pending_view C (shard_set now i k e d sh) w =
        clear_flows (evict_victims ?sh) (view_apply (MSet i k e) (pending_view C ?sh w))"
    using w d swap [OF insert_not_victim [OF ok]] by (simp add: shard_set_def pending_submit pending_evict)
  moreover have "mem_view (sh_memory (shard_set now i k e d sh)) =
        clear_flows (evict_victims ?sh) (view_apply (MSet i k e) (mem_view (sh_memory sh)))"
    by (simp add: shard_set_def evict_if_needed_memory mem_view_evict mem_view_insert)
  moreover have "pending_view C ?sh w = pending_view C sh w" by (simp add: pending_view_def insert_memory)
  ultimately show ?thesis using live_clear [OF live_view_apply [OF m [unfolded mirrored_def]]]
    by (simp only: mirrored_def)
qed

lemma merge_mirrored:
  assumes ok: "shard_ok now n sh" and m: "mirrored C now sh w" and d: "d \<noteq> DNone"
  shows "mirrored C now (fst (shard_merge now i k e d sh)) w"
proof (cases "merge_refused now i k e sh")
  case False
  let ?sh = "submit (MSet i k e) d (insert_entry now i k e sh)"
  have w: "sh_writer (insert_entry now i k e sh)" using ok by (simp add: shard_ok_def insert_memory)
  have "pending_view C (evict_if_needed ?sh) w = clear_flows (evict_victims ?sh) (view_apply (MSet i k e) (pending_view C sh w))"
    using w d by (simp add: pending_evict pending_submit) (simp add: pending_view_def insert_memory)
  moreover have "mem_view (sh_memory (evict_if_needed ?sh)) =
      clear_flows (evict_victims ?sh) (view_apply (MSet i k e) (mem_view (sh_memory sh)))"
    by (simp add: evict_if_needed_memory mem_view_evict mem_view_insert)
  ultimately show ?thesis using False live_clear [OF live_view_apply [OF m [unfolded mirrored_def]]]
    by (simp only: mirrored_def shard_merge_def if_False fst_conv)
qed (use m in \<open>simp add: shard_merge_def\<close>)

lemma delete_mirrored:
  assumes "shard_ok now n sh" and m: "mirrored C now sh w" and "d \<noteq> DNone"
  shows "mirrored C now (shard_delete now i k d sh) w"
proof -
  have "pending_view C (shard_delete now i k d sh) w = view_apply (MDelete i k) (pending_view C sh w)"
    using assms by (simp add: shard_delete_def shard_ok_def Let_def pending_view_def queue_submit split: option.split)
  moreover have "mem_view (sh_memory (shard_delete now i k d sh)) = view_apply (MDelete i k) (mem_view (sh_memory sh))"
    by (simp add: mem_view_delete)
  ultimately show ?thesis using live_view_apply [OF m [unfolded mirrored_def]] by (simp only: mirrored_def)
qed

lemma clear_mirrored:
  assumes "shard_ok now n sh" and m: "mirrored C now sh w" and "d \<noteq> DNone"
  shows "mirrored C now (shard_clear_flow i d sh) w"
proof -
  have "pending_view C (shard_clear_flow i d sh) w = view_apply (MClearFlow i) (pending_view C sh w)"
    using assms by (simp add: shard_clear_flow_def shard_ok_def pending_view_def queue_submit)
  moreover have "mem_view (sh_memory (shard_clear_flow i d sh)) = view_apply (MClearFlow i) (mem_view (sh_memory sh))"
    by (simp add: shard_clear_flow_def mem_view_clear)
  ultimately show ?thesis using live_view_apply [OF m [unfolded mirrored_def]] by (simp only: mirrored_def)
qed

lemma commit_batch_view:
  assumes "entry_codec_ok C"
  shows "disk_view C (commit_batch C now batch d) = fold view_apply (map wq_mutation batch) (disk_view C d)"
  unfolding commit_batch_def by (induction batch arbitrary: d) (simp_all add: disk_view_apply [OF assms])

lemma commit_batch_ok:
  assumes "entry_codec_ok C" and "twf (dk_kv d)" and "rows_decode C d"
  shows "twf (dk_kv (commit_batch C now batch d))" and "rows_decode C (commit_batch C now batch d)"
  using assms(2,3) unfolding commit_batch_def
  by (induction batch arbitrary: d) (simp_all add: apply_mutation_wf apply_mutation_rows [OF assms(1)])

lemma recv_mirrored:
  assumes "entry_codec_ok C" and "mirrored C now sh w" and "writer_recv C t sh w = (sh', w')"
  shows "mirrored C now sh' w'"
proof (cases "sh_queue sh = []")
  case False
  have "wr_disk w' = commit_batch C t (take MAX_BATCH (sh_queue sh)) (wr_disk w)"
    "sh_queue sh' = drop MAX_BATCH (sh_queue sh)" "sh_memory sh' = sh_memory sh"
    using assms(3) False by (auto simp: writer_recv_def writer_batch_def Let_def split: if_splits)
  then have "pending_view C sh' w' =
      fold view_apply (map wq_mutation (take MAX_BATCH (sh_queue sh) @ drop MAX_BATCH (sh_queue sh))) (disk_view C (wr_disk w))"
    unfolding pending_view_def by (simp only: commit_batch_view [OF assms(1)] map_append fold_append comp_def)
  then have "pending_view C sh' w' = pending_view C sh w" by (simp add: pending_view_def)
  with assms(2) \<open>sh_memory sh' = sh_memory sh\<close> show ?thesis by (simp add: mirrored_def)
qed (use assms in \<open>simp add: writer_recv_def\<close>)

lemma recv_writer_ok:
  assumes "entry_codec_ok C" and "writer_ok C w" and "writer_recv C t sh w = (sh', w')"
  shows "writer_ok C w'"
proof (cases "sh_queue sh = []")
  case False
  then have "length (take MAX_BATCH (sh_queue sh)) \<noteq> 0" by (simp add: MAX_BATCH_def)
  with assms False commit_batch_ok [OF assms(1), of "wr_disk w" t "take MAX_BATCH (sh_queue sh)"] show ?thesis
    by (auto simp: writer_recv_def writer_batch_def Let_def writer_ok_def min_def split: if_splits)
qed (use assms in \<open>simp add: writer_recv_def\<close>)

lemma fold_view_pointwise:
  "fold view_apply q v' x = fold view_apply q v x \<or> (fold view_apply q v' x = v' x \<and> fold view_apply q v x = v x)"
proof (induction q arbitrary: v v')
  case (Cons m q)
  have "view_apply m v' x = view_apply m v x \<or> (view_apply m v' x = v' x \<and> view_apply m v x = v x)"
    by (cases m) auto
  then show ?case using Cons.IH [of "view_apply m v'" "view_apply m v"] by auto
qed simp

lemma fold_view_same: "v' x = v x \<Longrightarrow> fold view_apply q v' x = fold view_apply q v x"
  using fold_view_pointwise [of q v' x v] by auto

lemma keys_wf: "\<forall>row \<in> set mem. twf (fm_keys (snd row)) \<Longrightarrow> tget mem i = Some f \<Longrightarrow> twf (fm_keys f)"
  by (force dest: map_of_SomeD)

lemma sweep_expired_mem:
  assumes "x \<in> set (snd (sweep_expired now mem))" and "twf mem" and "\<forall>row \<in> set mem. twf (fm_keys (snd row))"
  shows "live_view now (mem_view mem) x = None"
proof -
  from assms(1) obtain i f k e where x: "x = (i, k)" "(i, f) \<in> set mem" "(k, e) \<in> set (fm_keys f)" "\<not> is_live e now"
    by (auto simp: sweep_expired_def)
  with assms(2) have f: "tget mem i = Some f" by (simp add: twf_row)
  from keys_wf [OF assms(3) f] x(3) have "tget (fm_keys f) k = Some e" by (simp add: twf_row)
  with x f show ?thesis by (simp add: live_view_def mem_view_def mem_entry_def)
qed

lemma sweep_map:
  "tget (map (\<lambda>(i, f). (i, f\<lparr>fm_keys := filter (\<lambda>(k, e). is_live e now) (fm_keys f)\<rparr>)) mem) i =
     map_option (\<lambda>f. f\<lparr>fm_keys := filter (\<lambda>(k, e). is_live e now) (fm_keys f)\<rparr>) (tget mem i)"
  by (induction mem) auto

lemma sweep_keys:
  "tkeys (map (\<lambda>(i, f). (i, f\<lparr>fm_keys := filter (\<lambda>(k, e). is_live e now) (fm_keys f)\<rparr>)) mem) = tkeys mem"
  by auto

lemma sweep_flow:
  assumes "twf mem"
  shows "tget (fst (sweep_expired now mem)) i =
    (case tget mem i of None \<Rightarrow> None
     | Some f \<Rightarrow> let keys = filter (\<lambda>(k, e). is_live e now) (fm_keys f) in
         if keys = [] then None else Some (f\<lparr>fm_keys := keys\<rparr>))"
proof -
  have "distinct (tkeys (map (\<lambda>(i, f). (i, f\<lparr>fm_keys := filter (\<lambda>(k, e). is_live e now) (fm_keys f)\<rparr>)) mem))"
    using twf_distinct [OF assms] by (simp only: sweep_keys)
  from tget_filter [OF this] show ?thesis
    by (simp add: sweep_expired_def sweep_map Let_def split: option.split)
qed

lemma sweep_view:
  assumes "twf mem" and "\<forall>row \<in> set mem. twf (fm_keys (snd row))"
  shows "mem_view (fst (sweep_expired now mem)) = live_view now (mem_view mem)"
proof
  fix x :: "string \<times> string"
  obtain i k where x: "x = (i, k)" by force
  show "mem_view (fst (sweep_expired now mem)) x = live_view now (mem_view mem) x"
  proof (cases "tget mem i")
    case (Some f)
    let ?keys = "filter (\<lambda>(k, e). is_live e now) (fm_keys f)"
    have "tget ?keys k = (case tget (fm_keys f) k of None \<Rightarrow> None | Some e \<Rightarrow> if is_live e now then Some e else None)"
      using keys_wf [OF assms(2) Some] by (simp add: tget_filter twf_distinct split: option.split)
    moreover have "mem_view (fst (sweep_expired now mem)) x = tget ?keys k"
      by (cases "?keys = []") (simp_all add: x mem_view_def mem_entry_def sweep_flow [OF assms(1)] Some)
    ultimately show ?thesis using Some by (simp add: x mem_view_def mem_entry_def live_view_def)
  qed (simp add: x mem_view_def mem_entry_def live_view_def sweep_flow [OF assms(1)])
qed

lemma tick_mirrored:
  assumes ok: "shard_ok now n sh" and m: "mirrored C now sh w" and tick: "writer_tick now sh w = (sh', w')"
  shows "mirrored C now sh' w'"
proof -
  let ?expired = "snd (sweep_expired now (sh_memory sh))"
  have wf: "twf (sh_memory sh)" "\<forall>row \<in> set (sh_memory sh). twf (fm_keys (snd row))"
    using ok by (auto simp: shard_ok_def list_all_iff flow_ok_def)
  have fields: "sh_memory sh' = fst (sweep_expired now (sh_memory sh))" "sh_queue sh' = sh_queue sh"
    using tick by (auto simp: writer_tick_def Let_def split: prod.splits if_splits)
  have rows: "tget (dk_kv (wr_disk w')) x = (if x \<in> set ?expired then None else tget (dk_kv (wr_disk w)) x)" for x
    using tick by (auto simp: writer_tick_def Let_def commit_deletes_def tget_fold_tdel split: prod.splits if_splits)
  have "live_view now (pending_view C sh' w') x = live_view now (pending_view C sh w) x" for x
  proof (cases "x \<in> set ?expired")
    case True
    then have none: "disk_view C (wr_disk w') x = None" by (simp add: disk_view_def rows)
    have "live_view now (pending_view C sh w) x = None"
      using sweep_expired_mem [OF True wf] m by (metis mirrored_def)
    then show ?thesis
      using none fold_view_pointwise [of "map wq_mutation (sh_queue sh)" "disk_view C (wr_disk w')" x "disk_view C (wr_disk w)"]
      by (auto simp: pending_view_def fields live_view_def)
  next
    case False
    then have "disk_view C (wr_disk w') x = disk_view C (wr_disk w) x" by (simp add: disk_view_def rows)
    then have "fold view_apply q (disk_view C (wr_disk w')) x = fold view_apply q (disk_view C (wr_disk w)) x" for q
      by (rule fold_view_same)
    then show ?thesis by (simp add: pending_view_def fields live_view_def)
  qed
  then have "live_view now (pending_view C sh' w') = live_view now (pending_view C sh w)" by (rule ext)
  moreover have "live_view now (mem_view (sh_memory sh')) = live_view now (mem_view (sh_memory sh))"
    using live_live [of now now] by (simp add: fields sweep_view [OF wf])
  ultimately show ?thesis using m by (simp add: mirrored_def)
qed

lemma sweep_wf:
  assumes "twf mem" shows "twf (fst (sweep_expired now mem))" and "length (fst (sweep_expired now mem)) \<le> length mem"
proof -
  have "twf (map (\<lambda>(i, f). (i, f\<lparr>fm_keys := filter (\<lambda>(k, e). is_live e now) (fm_keys f)\<rparr>)) mem)"
    using assms unfolding twf_def sweep_keys .
  then show "twf (fst (sweep_expired now mem))" by (simp add: sweep_expired_def twf_filter)
  show "length (fst (sweep_expired now mem)) \<le> length mem"
    unfolding sweep_expired_def fst_conv by (rule order_trans [OF length_filter_le]) simp
qed

lemma tick_ok:
  assumes ok: "shard_ok now n sh" and w: "writer_ok C w" and tick: "writer_tick now sh w = (sh', w')"
  shows "shard_ok now n sh'" and "writer_ok C w'"
proof -
  have sh': "sh' = sh\<lparr>sh_memory := fst (sweep_expired now (sh_memory sh))\<rparr>"
    using tick by (auto simp: writer_tick_def Let_def split: prod.splits if_splits)
  have "flow_ok now sh row" if "row \<in> set (fst (sweep_expired now (sh_memory sh)))" for row
    using that ok by (auto simp: sweep_expired_def shard_ok_def list_all_iff flow_ok_def twf_filter)
  with ok show "shard_ok now n sh'" unfolding sh'
    by (intro shard_ok_sub) (simp_all add: sweep_wf shard_ok_def)
  have "rows_decode C (commit_deletes ks (wr_disk w))" for ks
    using w fold_tdel_set [of "\<lambda>x. x" ks "dk_kv (wr_disk w)"]
    by (auto simp: writer_ok_def rows_decode_def commit_deletes_def list_all_iff)
  then have swept: "writer_ok C \<lparr>wr_disk = commit_deletes ks (wr_disk w), wr_synced = commit_deletes ks (wr_disk w), wr_unsynced = 0\<rparr>" for ks
    using w by (simp add: writer_ok_def commit_deletes_def fold_tdel_wf)
  have "w' = w \<or> (\<exists>ks. w' = \<lparr>wr_disk = commit_deletes ks (wr_disk w), wr_synced = commit_deletes ks (wr_disk w), wr_unsynced = 0\<rparr>)"
    using tick by (auto simp: writer_tick_def Let_def split: prod.splits if_splits)
  with w swept show "writer_ok C w'" by blast
qed

section \<open>Lemmas: runs\<close>

lemma fresh_inv: "1 \<le> max_flows \<Longrightarrow> shard_inv C now 0 (fresh_shard max_flows)"
  by (simp add: shard_inv_def fresh_shard_def shard_ok_def writer_ok_def rows_decode_def mirrored_def
      pending_view_def mem_view_def mem_entry_def disk_view_def live_view_def fun_eq_iff)

lemma exec_ok:
  assumes C: "entry_codec_ok C" and inv: "shard_inv C t n (sh, w)" and t: "t \<le> now" and n: "Suc n < 2 ^ 64"
    and p: "op_persists a"
  shows "shard_inv C now (Suc n) (shard_exec C now a (sh, w))"
proof -
  from inv have "shard_ok t n sh" and w: "writer_ok C w" and "mirrored C t sh w" by (simp_all add: shard_inv_def)
  then have ok: "shard_ok now n sh" and m: "mirrored C now sh w"
    using shard_ok_mono [OF _ t order_refl] mirrored_mono [OF t] by blast+
  have ok': "shard_ok now (Suc n) sh" using shard_ok_mono [OF ok order_refl, of "Suc n"] by simp
  show ?thesis
  proof (cases a)
    case (OSet i k e d)
    moreover have "shard_ok now (Suc n) (shard_set now i k e d sh)"
      using insert_evict_ok [OF ok n] by (simp add: shard_set_def)
    moreover have "mirrored C now (shard_set now i k e d sh) w" using OSet p by (intro set_mirrored [OF ok m]) simp
    ultimately show ?thesis using w by (simp add: shard_inv_def)
  next
    case (OMerge i k e d)
    moreover have "shard_ok now (Suc n) (fst (shard_merge now i k e d sh))"
      using insert_evict_ok [OF ok n] ok' by (simp add: shard_merge_def evict_submit)
    moreover have "mirrored C now (fst (shard_merge now i k e d sh)) w"
      using OMerge p by (intro merge_mirrored [OF ok m]) simp
    ultimately show ?thesis using w by (simp add: shard_inv_def)
  next
    case (ODelete i k d)
    with p delete_ok [OF ok n] delete_mirrored [OF ok m] w show ?thesis by (simp add: shard_inv_def)
  next
    case (OClear i d)
    with p clear_ok [OF ok'] clear_mirrored [OF ok m] w show ?thesis by (simp add: shard_inv_def)
  next
    case ORecv
    obtain sh' w' where r: "writer_recv C now sh w = (sh', w')" by force
    have "shard_ok now (Suc n) sh' = shard_ok now (Suc n) sh"
      by (rule shard_ok_cong) (use r in \<open>auto simp: writer_recv_def split: if_splits\<close>)
    with r ORecv ok' recv_mirrored [OF C m r] recv_writer_ok [OF C w r] show ?thesis by (simp add: shard_inv_def)
  next
    case OTick
    obtain sh' w' where r: "writer_tick now sh w = (sh', w')" by force
    with OTick tick_mirrored [OF ok m r] tick_ok [OF ok' w r] show ?thesis by (simp add: shard_inv_def)
  qed
qed

lemma run_ok:
  assumes C: "entry_codec_ok C" and "shard_inv C t n s" and "sorted (t # map fst ops)"
    and "n + length ops < 2 ^ 64" and "list_all (op_persists \<circ> snd) ops"
  shows "shard_inv C (last (t # map fst ops)) (n + length ops) (shard_run C ops s)"
  using assms(2-)
proof (induction ops arbitrary: t n s)
  case Nil
  then show ?case by (simp add: shard_run_def)
next
  case (Cons a ops)
  obtain now b where a: "a = (now, b)" by force
  obtain sh w where s: "s = (sh, w)" by force
  have "shard_inv C now (Suc n) (shard_exec C now b s)"
    using Cons.prems unfolding s by (intro exec_ok [OF C]) (auto simp: a)
  from Cons.IH [OF this] Cons.prems show ?case by (simp add: a shard_run_def)
qed

section \<open>Lemmas: recovery\<close>

lemma mem_view_put:
  "mem_view (tput i ((flow_or_default mem i)\<lparr>fm_keys := tput k e (fm_keys (flow_or_default mem i))\<rparr>) mem) =
     (mem_view mem)((i, k) \<mapsto> e)"
  by (auto simp: mem_view_def mem_entry_def flow_or_default_def flow_mem_default_def fun_eq_iff split: option.splits)

lemma recover_rows_view:
  assumes "distinct (tkeys rows)" and "list_all (\<lambda>row. \<not> isl (de_entry C (snd row))) rows"
  shows "\<exists>mem'. recover_rows C now rows mem = Inr mem' \<and>
    (\<forall>x. mem_view mem' x =
       (case tget rows x of None \<Rightarrow> mem_view mem x
        | Some row \<Rightarrow> if is_live (projr (de_entry C row)) now then Some (projr (de_entry C row)) else mem_view mem x))"
  using assms
proof (induction rows arbitrary: mem)
  case (Cons r rows)
  obtain i k row where r: "r = ((i, k), row)" by (cases r) auto
  with Cons.prems obtain e where e: "de_entry C row = Inr e" by (cases "de_entry C row") auto
  let ?f = "flow_or_default mem i"
  let ?mem = "if is_live e now then tput i (?f\<lparr>fm_keys := tput k e (fm_keys ?f)\<rparr>) mem else mem"
  from Cons.IH [of ?mem] Cons.prems obtain mem' where mem': "recover_rows C now rows ?mem = Inr mem'"
    "\<And>x. mem_view mem' x =
       (case tget rows x of None \<Rightarrow> mem_view ?mem x
        | Some row \<Rightarrow> if is_live (projr (de_entry C row)) now then Some (projr (de_entry C row)) else mem_view ?mem x)"
    by auto
  have "tget rows (i, k) = None" using Cons.prems r by (auto simp: map_of_eq_None_iff)
  then show ?case using mem'(1) e r by (auto simp: mem'(2) mem_view_put Let_def split: option.split)
qed simp

lemma restore_touch_view: "mem_view (restore_touch C now meta seq mem) = mem_view mem"
proof -
  have "map_option fm_keys (tget (restore_touch C now meta seq mem) i) = map_option fm_keys (tget mem i)" for i
    by (induction C now meta seq mem rule: restore_touch.induct) (auto simp: touch_def)
  moreover have "mem_entry m i k = Option.bind (map_option fm_keys (tget m i)) (\<lambda>ks. tget ks k)" for m i k
    by (cases "tget m i") (simp_all add: mem_entry_def)
  ultimately show ?thesis by (auto simp: mem_view_def fun_eq_iff)
qed

lemma restore_touch_keys: "tkeys (restore_touch C now meta seq mem) = tkeys mem"
  by (induction C now meta seq mem rule: restore_touch.induct) auto

text \<open>Every flow recovered has an entry, and the table of flows is ordered.\<close>

lemma recover_rows_flows:
  assumes "recover_rows C now rows mem = Inr mem'" and "twf mem" and "\<forall>row \<in> set mem. fm_keys (snd row) \<noteq> []"
  shows "twf mem' \<and> (\<forall>row \<in> set mem'. fm_keys (snd row) \<noteq> [])"
  using assms
proof (induction C now rows mem rule: recover_rows.induct)
  case (2 C now flow_id key row rows mem)
  show ?case
  proof (cases "de_entry C row")
    case (Inr e)
    let ?f = "(flow_or_default mem flow_id)\<lparr>fm_keys := tput key e (fm_keys (flow_or_default mem flow_id))\<rparr>"
    have new: "fm_keys ?f \<noteq> []" by (cases "fm_keys (flow_or_default mem flow_id)") auto
    have "\<forall>row \<in> set (tput flow_id ?f mem). fm_keys (snd row) \<noteq> []"
      using 2(5) new set_tput [of flow_id ?f mem] by fastforce
    with 2 Inr show ?thesis by (cases "is_live e now") (simp_all add: Let_def)
  qed (use 2(3) in simp)
qed simp

lemma shed_noop: "length mem \<le> max_flows \<Longrightarrow> shed_oldest max_flows mem = mem"
  by (simp add: shed_oldest.simps)

lemma shed_bound: "length (shed_oldest max_flows mem) \<le> max_flows"
proof (induction max_flows mem rule: shed_oldest.induct)
  case (1 max_flows mem)
  have "mem = []" if "min_by_key age_of mem = None"
    using that by (cases mem) (auto split: option.splits if_splits)
  with 1 show ?case by (subst shed_oldest.simps) (auto split: option.split)
qed

lemma recover_view:
  assumes wf: "twf (dk_kv d)" and rows: "rows_decode C d"
  obtains mem where "recover_rows C now (dk_kv d) [] = Inr mem" "twf mem"
    "mem_view mem = live_view now (disk_view C d)" "\<And>i f. tget mem i = Some f \<Longrightarrow> fm_keys f \<noteq> []"
proof -
  from recover_rows_view [OF twf_distinct [OF wf] rows [unfolded rows_decode_def], of now "[]"] obtain mem where
    mem: "recover_rows C now (dk_kv d) [] = Inr mem"
    "\<And>x. mem_view mem x =
       (case tget (dk_kv d) x of None \<Rightarrow> mem_view [] x
        | Some row \<Rightarrow> if is_live (projr (de_entry C row)) now then Some (projr (de_entry C row)) else mem_view [] x)"
    by blast
  from recover_rows_flows [OF mem(1)] have flows: "twf mem" "\<forall>row \<in> set mem. fm_keys (snd row) \<noteq> []" by simp_all
  have "mem_view [] x = None" for x by (cases x) (simp add: mem_view_def mem_entry_def)
  with mem(2) have "mem_view mem = live_view now (disk_view C d)"
    by (auto simp: fun_eq_iff live_view_def disk_view_def split: option.split)
  moreover have "fm_keys f \<noteq> []" if "tget mem i = Some f" for i f
    using flows(2) map_of_SomeD [OF that] by force
  ultimately show thesis using that mem(1) flows(1) by blast
qed

text \<open>A flow with an entry shows in the view.\<close>

lemma flow_in_view:
  assumes "twf mem" and "i \<in> fst ` set mem" and "\<And>f. tget mem i = Some f \<Longrightarrow> fm_keys f \<noteq> []"
  obtains k where "mem_view mem (i, k) \<noteq> None"
proof -
  from assms(2) obtain f where f: "tget mem i = Some f" by (auto simp: tkeys_tget)
  with assms(3) obtain k e where "(k, e) \<in> set (fm_keys f)" by (cases "fm_keys f") auto
  then have "tget (fm_keys f) k \<noteq> None" by (auto simp: map_of_eq_None_iff rev_image_eqI)
  with f that show thesis by (simp add: mem_view_def mem_entry_def)
qed

lemma view_in_flow: "mem_view mem (i, k) \<noteq> None \<Longrightarrow> i \<in> fst ` set mem"
  by (auto simp: mem_view_def mem_entry_def tkeys_tget bind_eq_Some_conv)

lemma recover_reads:
  assumes inv: "shard_inv C now n (sh, w)" and "sh_queue sh = []" and "wr_unsynced w = 0" and "now \<le> later"
  shows "\<exists>mem. recover C later seq (sh_max_flows sh) (wr_synced w) = Inr mem \<and>
               mem_view mem = live_view later (mem_view (sh_memory sh))"
proof -
  let ?d = "wr_disk w"
  from inv have ok: "shard_ok now n sh" and w: "twf (dk_kv ?d)" "rows_decode C ?d" "wr_synced w = ?d"
    using assms(3) by (auto simp: shard_inv_def writer_ok_def)
  have "live_view now (mem_view (sh_memory sh)) = live_view now (disk_view C ?d)"
    using inv assms(2) by (simp add: shard_inv_def mirrored_def pending_view_def)
  then have views: "live_view later (mem_view (sh_memory sh)) = live_view later (disk_view C ?d)"
    by (rule live_view_mono [OF assms(4)])
  from recover_view [OF w(1,2), of later] obtain mem where mem: "recover_rows C later (dk_kv ?d) [] = Inr mem" "twf mem"
    "mem_view mem = live_view later (disk_view C ?d)" "\<And>i f. tget mem i = Some f \<Longrightarrow> fm_keys f \<noteq> []" by blast
  have sub: "fst ` set mem \<subseteq> fst ` set (sh_memory sh)"
  proof
    fix i assume "i \<in> fst ` set mem"
    with flow_in_view [OF mem(2)] mem(4) obtain k where "mem_view mem (i, k) \<noteq> None" by blast
    then have "mem_view (sh_memory sh) (i, k) \<noteq> None"
      using mem(3) views by (simp add: live_view_def fun_eq_iff split: option.splits if_splits)
         (metis option.distinct(1))
    then show "i \<in> fst ` set (sh_memory sh)" by (rule view_in_flow)
  qed
  have "length mem \<le> sh_max_flows sh"
    using length_table [OF mem(2)] length_table [of "sh_memory sh"] card_mono [OF _ sub] ok
    by (simp add: shard_ok_def)
  then have "length (restore_touch C later (dk_meta ?d) seq mem) \<le> sh_max_flows sh"
    using restore_touch_keys [of C later "dk_meta ?d" seq mem] by (metis length_map)
  with mem(1,3) views w(3) show ?thesis by (simp add: recover_def shed_noop restore_touch_view)
qed

lemma exec_max_flows: "sh_max_flows (fst (shard_exec C now a s)) = sh_max_flows (fst s)"
proof -
  obtain sh w where s: "s = (sh, w)" by force
  show ?thesis unfolding s
    by (cases a) (simp_all add: shard_set_def shard_merge_def shard_delete_def shard_clear_flow_def writer_recv_def
        writer_tick_def evict_if_needed_def evict_memory_def insert_entry_fields Let_def split: option.split prod.split)
qed

lemma run_max_flows: "sh_max_flows (fst (shard_run C ops s)) = sh_max_flows (fst s)"
  unfolding shard_run_def by (induction ops arbitrary: s) (auto simp: exec_max_flows)

section \<open>Properties\<close>

lemma plain_codec_ok: "entry_codec_ok plain_codec"
  by (simp add: entry_codec_ok_def plain_codec_def)



text \<open>C23. Replicas converge: two shards that hold nothing under a key and merge the same writes in any
  order, repetitions included, answer the versioned read alike, and the answer is a write that no
  other supersedes. The writes are live, no two of them carry the same version, and the flow fits
  under the cap.\<close>

theorem merge_order_irrelevant:
  assumes "has_room flow_id a" and "has_room flow_id b"
    and "get_versioned now a flow_id key = None" and "get_versioned now b flow_id key = None"
    and "set writes = set writes'" and "list_all (\<lambda>e. is_live e now) writes"
    and "inj_on version_of (set writes)" and "writes \<noteq> []"
  shows "\<exists>e \<in> set writes. (\<forall>x \<in> set writes. \<not> superseded_by e x) \<and>
           get_versioned now (merge_all now flow_id key d writes a) flow_id key = Some e \<and>
           get_versioned now (merge_all now flow_id key d' writes' b) flow_id key = Some e"
proof -
  have sep: "lww.separated (set writes)"
    using assms(7) unfolding lww.separated_def superseded_by_def by (metis inj_onD linorder_less_linear)
  from assms(5,6) have "list_all (\<lambda>e. is_live e now) writes'" by (simp add: list_all_iff)
  with assms(1-6) have "get_versioned now (merge_all now flow_id key d writes a) flow_id key =
        fold (keep_newest superseded_by) writes None"
    "get_versioned now (merge_all now flow_id key d' writes' b) flow_id key =
        fold (keep_newest superseded_by) writes' None" by (simp_all add: merge_all_get)
  moreover have "fold (keep_newest superseded_by) writes None = fold (keep_newest superseded_by) writes' None"
    by (rule lww.fold_order [OF assms(5) sep])
  moreover obtain e es where "writes = e # es" using assms(8) by (cases writes) auto
  moreover from lww.fold_newest [of e es] sep this obtain m where
    "fold (keep_newest superseded_by) es (Some e) = Some m" "m \<in> set writes" "\<forall>x \<in> set writes. x = m \<or> superseded_by x m"
    by auto
  moreover have "\<forall>x \<in> set writes. \<not> superseded_by m x" using calculation by (metis lww.newer_irrefl lww.newer_trans)
  moreover have "keep_newest superseded_by e None = Some e" by (simp add: keep_newest_def)
  ultimately show ?thesis by (intro bexI [of _ m]) simp_all
qed

theorem merge_order_irrelevant_witness:
  "\<exists>e. \<not> superseded_by e (sample_entry_at 3 0) \<and>
     get_versioned 5 (merge_all 5 ''f'' ''k'' DSync [sample_entry_at 1 0, sample_entry_at 3 0, sample_entry_at 2 0]
       (fst (fresh_shard 4 :: shard \<times> (versioned + u64) writer))) ''f'' ''k'' = Some e \<and>
     get_versioned 5 (merge_all 5 ''f'' ''k'' DAsync [sample_entry_at 3 0, sample_entry_at 2 0, sample_entry_at 3 0, sample_entry_at 1 0]
       (fst (fresh_shard 2 :: shard \<times> (versioned + u64) writer))) ''f'' ''k'' = Some e"
proof -
  have "\<exists>e \<in> set [sample_entry_at 1 0, sample_entry_at 3 0, sample_entry_at 2 0].
     (\<forall>x \<in> set [sample_entry_at 1 0, sample_entry_at 3 0, sample_entry_at 2 0]. \<not> superseded_by e x) \<and>
     get_versioned 5 (merge_all 5 ''f'' ''k'' DSync [sample_entry_at 1 0, sample_entry_at 3 0, sample_entry_at 2 0]
       (fst (fresh_shard 4 :: shard \<times> (versioned + u64) writer))) ''f'' ''k'' = Some e \<and>
     get_versioned 5 (merge_all 5 ''f'' ''k'' DAsync [sample_entry_at 3 0, sample_entry_at 2 0, sample_entry_at 3 0, sample_entry_at 1 0]
       (fst (fresh_shard 2 :: shard \<times> (versioned + u64) writer))) ''f'' ''k'' = Some e"
    by (rule merge_order_irrelevant)
       (auto simp: has_room_def fresh_shard_def get_versioned_def mem_entry_def sample_entry_at_def is_live_def
         inj_on_def version_of_def)
  then show ?thesis by auto
qed

text \<open>C27. A merge never takes a key back: what a versioned read answers after it is what it answered
  before or the merged write, and never an older version; and a merge that reports a refusal leaves the
  whole shard, queue included, as it was. The flow fits under the cap, so the merge itself evicts
  nothing.\<close>

theorem merge_monotone:
  assumes "has_room flow_id sh" and "is_live entry now" and "get_versioned now sh flow_id key = Some e"
  shows "\<exists>e'. get_versioned now (fst (shard_merge now flow_id key entry d sh)) flow_id key = Some e' \<and>
           e' \<in> {e, entry} \<and> \<not> superseded_by e' e \<and> \<not> superseded_by e' entry \<and>
           (snd (shard_merge now flow_id key entry d sh) \<longleftrightarrow> superseded_by e entry) \<and>
           (\<not> superseded_by e entry \<longrightarrow> fst (shard_merge now flow_id key entry d sh) = sh)"
proof -
  have "get_versioned now (fst (shard_merge now flow_id key entry d sh)) flow_id key =
      keep_newest superseded_by entry (Some e)"
    using merge_get_versioned [OF insert_entry_room [OF assms(1)] assms(2)] assms(3) by simp
  moreover have "merge_refused now flow_id key entry sh \<longleftrightarrow> \<not> superseded_by e entry"
    by (simp add: merge_refused_def assms(3))
  ultimately show ?thesis
    by (auto simp: keep_newest_def shard_merge_def lww.newer_irrefl dest: lww.newer_trans)
qed

theorem merge_monotone_witness:
  "get_versioned 15 (fst (shard_merge 15 ''g'' ''a'' (sample_entry_at 1 0) DSync (fst sample_state))) ''g'' ''a'' =
     Some (sample_entry_at 2 20) \<and>
   \<not> snd (shard_merge 15 ''g'' ''a'' (sample_entry_at 1 0) DSync (fst sample_state)) \<and>
   fst (shard_merge 15 ''g'' ''a'' (sample_entry_at 1 0) DSync (fst sample_state)) = fst sample_state"
proof -
  have "has_room ''g'' (fst sample_state)" unfolding has_room_def by code_simp
  moreover have "is_live (sample_entry_at 1 0) 15"
    "get_versioned 15 (fst sample_state) ''g'' ''a'' = Some (sample_entry_at 2 20)" by code_simp+
  moreover have "\<not> superseded_by (sample_entry_at 2 20) (sample_entry_at 1 0)" by code_simp
  ultimately show ?thesis
    using merge_monotone [of "''g''" "fst sample_state" "sample_entry_at 1 0" 15 "''a''" "sample_entry_at 2 20" DSync] by auto
qed

text \<open>Eviction is least recently touched first and whole-flow: the flows kept are exactly the
  cap's worth, each with every entry it had, and no flow kept was touched before a flow evicted.\<close>

theorem evict_least_recently_touched:
  assumes "twf (sh_memory sh)"
  shows "flow_count (evict_if_needed sh) = min (flow_count sh) (sh_max_flows sh) \<and>
         set (sh_memory (evict_if_needed sh)) \<subseteq> set (sh_memory sh) \<and>
         (\<forall>kept \<in> set (sh_memory (evict_if_needed sh)).
            \<forall>gone \<in> set (sh_memory sh) - set (sh_memory (evict_if_needed sh)). age_of gone \<le> age_of kept)"
proof -
  let ?n = "length (sh_memory sh) - sh_max_flows sh"
  let ?s = "sort_key age_of (sh_memory sh)"
  have rows: "set (sh_memory (evict_if_needed sh)) = set (drop ?n ?s)"
    "length (sh_memory (evict_if_needed sh)) = min (length (sh_memory sh)) (sh_max_flows sh)"
    using evict_memory_rows [OF assms] by (simp_all add: evict_if_needed_memory)
  have all: "set (sh_memory sh) = set (take ?n ?s) \<union> set (drop ?n ?s)"
    by (metis append_take_drop_id set_append set_sort)
  have "age_of gone \<le> age_of kept" if "kept \<in> set (drop ?n ?s)" "gone \<in> set (sh_memory sh) - set (drop ?n ?s)" for kept gone
    using take_sort_age [of gone ?n age_of "sh_memory sh" kept] that unfolding all by blast
  then show ?thesis unfolding rows(1) flow_count_def rows(2) all by blast
qed

theorem evict_least_recently_touched_witness:
  "flow_count (evict_if_needed crowded_shard) = min (flow_count crowded_shard) (sh_max_flows crowded_shard) \<and>
   set (sh_memory (evict_if_needed crowded_shard)) \<subseteq> set (sh_memory crowded_shard) \<and>
   age_of (hd (sh_memory crowded_shard)) \<le> age_of (hd (sh_memory (evict_if_needed crowded_shard)))"
proof -
  have "twf (sh_memory crowded_shard)" by code_simp
  note evict = evict_least_recently_touched [OF this]
  have "hd (sh_memory crowded_shard) \<in> set (sh_memory crowded_shard) - set (sh_memory (evict_if_needed crowded_shard))"
    "hd (sh_memory (evict_if_needed crowded_shard)) \<in> set (sh_memory (evict_if_needed crowded_shard))" by code_simp+
  with evict show ?thesis by blast
qed





lemma sync_set_lost_to_late_clear:
  "map_option vs_v (shard_get 15 (fst raced) ''f'' ''a'') = Some 2 \<and>
   sh_queue (fst raced) = [] \<and> wr_unsynced (snd raced) = 0 \<and>
   dk_kv (wr_synced (snd raced)) = []"
  by code_simp

end
