(* ===== verification/LogStore.thy ===== *)
theory LogStore
  imports StateMachine
begin

text \<open>
  The Raft log on disk (\<^verbatim>\<open>crates/rift-cluster/src/raft/store.rs\<close>, \<^verbatim>\<open>RedbLogStore\<close>): entries by index,
  the purge mark, the vote, and the state format row of the directory. Rows are bytes of the type \<open>'b\<close>;
  the serializers are the fields of \<open>log_codec\<close>. The specification is a log as \<^verbatim>\<open>openraft\<close> sees it: a
  purge mark and a list of entries with consecutive indices after it.
\<close>

section \<open>The database\<close>

record vote =
  vt_term :: u64
  vt_node :: u64
  vt_committed :: bool

record 'b log_codec =
  ser_log_entry :: "entry \<Rightarrow> 'b"
  de_log_entry :: "'b \<Rightarrow> entry result"
  ser_log_meta :: "log_id option \<Rightarrow> 'b"
  de_log_meta :: "'b \<Rightarrow> log_id option result"
  ser_vote :: "vote \<Rightarrow> 'b"
  de_vote :: "'b \<Rightarrow> vote result"

record ('b, 'txt) node_db =
  db_log :: "(u64, 'b) table"
  db_log_meta :: "'b option"
  db_vote :: "'b option"
  db_snapshot :: "'b option"
  db_format :: "u32 option"
  db_tables :: "'txt tables"

definition STATE_FORMAT :: u32 where "STATE_FORMAT = 1"

definition holds_state :: "('b, 'txt) node_db \<Rightarrow> bool" where
  "holds_state D \<longleftrightarrow>
     db_log D \<noteq> [] \<or> db_vote D \<noteq> None \<or> sm_applied (db_tables D) \<noteq> None \<or> db_snapshot D \<noteq> None \<or>
     sm_configs (db_tables D) \<noteq> []"

definition check_state_format :: "('b, 'txt) node_db \<Rightarrow> storage_error + ('b, 'txt) node_db" where
  "check_state_format D =
     (let refuse = (\<lambda>found. Inl (StorageRead (''cluster state directory format '' @ show_word found @
                       '', but this binary needs format '' @ show_word STATE_FORMAT)))
      in case db_format D of
           Some format \<Rightarrow> if format = STATE_FORMAT then Inr D else refuse format
         | None \<Rightarrow>
             if \<not> holds_state D then Inr (D\<lparr>db_format := Some STATE_FORMAT\<rparr>)
             else if (0 :: u32) = STATE_FORMAT then Inr D else refuse 0)"

section \<open>The log\<close>

datatype bound = Included u64 | Excluded u64 | Unbounded

definition start_bound :: "bound \<Rightarrow> bound" where
  "start_bound b = (case b of Included x \<Rightarrow> Included x | Excluded x \<Rightarrow> Included (sat_add x 1) | Unbounded \<Rightarrow> Unbounded)"

definition end_bound :: "bound \<Rightarrow> bound" where
  "end_bound b = (case b of Included x \<Rightarrow> Excluded (sat_add x 1) | Excluded x \<Rightarrow> Excluded x | Unbounded \<Rightarrow> Unbounded)"

definition above :: "bound \<Rightarrow> u64 \<Rightarrow> bool" where
  "above b i \<longleftrightarrow> (case b of Included x \<Rightarrow> x \<le> i | Excluded x \<Rightarrow> x < i | Unbounded \<Rightarrow> True)"

definition below :: "bound \<Rightarrow> u64 \<Rightarrow> bool" where
  "below b i \<longleftrightarrow> (case b of Included x \<Rightarrow> i \<le> x | Excluded x \<Rightarrow> i < x | Unbounded \<Rightarrow> True)"

fun decode_entries :: "('b, 'c) log_codec_scheme \<Rightarrow> (u64, 'b) table \<Rightarrow> storage_error + entry list" where
  "decode_entries C [] = Inr []"
| "decode_entries C ((i, row) # rows) =
     (case de_log_entry C row of
        Inl e \<Rightarrow> Inl (StorageRead e)
      | Inr entry \<Rightarrow> (case decode_entries C rows of Inl e \<Rightarrow> Inl e | Inr es \<Rightarrow> Inr (entry # es)))"

definition try_get_log_entries ::
  "('b, 'c) log_codec_scheme \<Rightarrow> bound \<Rightarrow> bound \<Rightarrow> ('b, 'txt) node_db \<Rightarrow> storage_error + entry list" where
  "try_get_log_entries C lo hi D =
     decode_entries C (filter (\<lambda>row. above (start_bound lo) (fst row) \<and> below (end_bound hi) (fst row)) (db_log D))"

record log_state =
  ls_last_purged_log_id :: "log_id option"
  ls_last_log_id :: "log_id option"

definition get_log_state :: "('b, 'c) log_codec_scheme \<Rightarrow> ('b, 'txt) node_db \<Rightarrow> storage_error + log_state" where
  "get_log_state C D =
     (case (if db_log D = [] then Inr None
            else case de_log_entry C (snd (last (db_log D))) of
              Inl e \<Rightarrow> Inl (StorageRead e)
            | Inr entry \<Rightarrow> Inr (Some (ent_log_id entry))) of
        Inl e \<Rightarrow> Inl e
      | Inr last_log_id \<Rightarrow>
          (case (case db_log_meta D of
                   None \<Rightarrow> Inr None
                 | Some row \<Rightarrow> (case de_log_meta C row of Inl e \<Rightarrow> Inl (StorageRead e) | Inr purged \<Rightarrow> Inr purged)) of
             Inl e \<Rightarrow> Inl e
           | Inr last_purged_log_id \<Rightarrow>
               Inr \<lparr>ls_last_purged_log_id = last_purged_log_id,
                    ls_last_log_id = (case last_log_id of None \<Rightarrow> last_purged_log_id | Some i \<Rightarrow> Some i)\<rparr>))"

definition save_vote :: "('b, 'c) log_codec_scheme \<Rightarrow> vote \<Rightarrow> ('b, 'txt) node_db \<Rightarrow> ('b, 'txt) node_db" where
  "save_vote C v D = D\<lparr>db_vote := Some (ser_vote C v)\<rparr>"

definition read_vote :: "('b, 'c) log_codec_scheme \<Rightarrow> ('b, 'txt) node_db \<Rightarrow> storage_error + vote option" where
  "read_vote C D =
     (case db_vote D of
        None \<Rightarrow> Inr None
      | Some row \<Rightarrow> (case de_vote C row of Inl e \<Rightarrow> Inl (StorageRead e) | Inr v \<Rightarrow> Inr (Some v)))"

definition entry_index :: "entry \<Rightarrow> u64" where
  "entry_index e = lid_index (ent_log_id e)"

definition append_entries :: "('b, 'c) log_codec_scheme \<Rightarrow> entry list \<Rightarrow> ('b, 'txt) node_db \<Rightarrow> ('b, 'txt) node_db" where
  "append_entries C entries D =
     D\<lparr>db_log := fold (\<lambda>e. tput (entry_index e) (ser_log_entry C e)) entries (db_log D)\<rparr>"

definition truncate_log :: "log_id \<Rightarrow> ('b, 'txt) node_db \<Rightarrow> ('b, 'txt) node_db" where
  "truncate_log log_id D = D\<lparr>db_log := tretain (\<lambda>i _. \<not> lid_index log_id \<le> i) (db_log D)\<rparr>"

definition purge_log :: "('b, 'c) log_codec_scheme \<Rightarrow> log_id \<Rightarrow> ('b, 'txt) node_db \<Rightarrow> ('b, 'txt) node_db" where
  "purge_log C log_id D =
     D\<lparr>db_log := tretain (\<lambda>i _. \<not> i \<le> lid_index log_id) (db_log D),
       db_log_meta := Some (ser_log_meta C (Some log_id))\<rparr>"

section \<open>The specification\<close>

record alog =
  al_purged :: "log_id option"
  al_entries :: "entry list"
  al_vote :: "vote option"

text \<open>Indices that follow one another, without wrapping around.\<close>

fun chained :: "u64 option \<Rightarrow> entry list \<Rightarrow> bool" where
  "chained prev [] \<longleftrightarrow> True"
| "chained prev (e # es) \<longleftrightarrow>
     (case prev of None \<Rightarrow> True | Some p \<Rightarrow> p < p + 1 \<and> entry_index e = p + 1) \<and> chained (Some (entry_index e)) es"

definition last_index :: "alog \<Rightarrow> u64 option" where
  "last_index L = (if al_entries L = [] then map_option lid_index (al_purged L) else Some (entry_index (last (al_entries L))))"

datatype log_op = LAppend "entry list" | LTruncate log_id | LPurge log_id | LVote vote

fun spec_log_step :: "log_op \<Rightarrow> alog \<Rightarrow> alog" where
  "spec_log_step (LAppend es) L = L\<lparr>al_entries := al_entries L @ es\<rparr>"
| "spec_log_step (LTruncate i) L = L\<lparr>al_entries := takeWhile (\<lambda>e. entry_index e < lid_index i) (al_entries L)\<rparr>"
| "spec_log_step (LPurge i) L =
     L\<lparr>al_purged := Some i, al_entries := dropWhile (\<lambda>e. entry_index e \<le> lid_index i) (al_entries L)\<rparr>"
| "spec_log_step (LVote v) L = L\<lparr>al_vote := Some v\<rparr>"

text \<open>What \<^verbatim>\<open>openraft\<close> promises of its calls: appends go on from the end of the log, and the purge mark
  moves forward, from no further back than just before the first entry.\<close>

fun log_op_ok :: "log_op \<Rightarrow> alog \<Rightarrow> bool" where
  "log_op_ok (LAppend es) L \<longleftrightarrow> chained (last_index L) es"
| "log_op_ok (LPurge i) L \<longleftrightarrow>
     (case al_purged L of Some p \<Rightarrow> lid_index p \<le> lid_index i
      | None \<Rightarrow> al_entries L = [] \<or> entry_index (hd (al_entries L)) \<le> lid_index i \<or>
                (lid_index i < lid_index i + 1 \<and> entry_index (hd (al_entries L)) = lid_index i + 1))"
| "log_op_ok _ L \<longleftrightarrow> True"

fun log_step :: "('b, 'c) log_codec_scheme \<Rightarrow> log_op \<Rightarrow> ('b, 'txt) node_db \<Rightarrow> ('b, 'txt) node_db" where
  "log_step C (LAppend es) D = append_entries C es D"
| "log_step C (LTruncate i) D = truncate_log i D"
| "log_step C (LPurge i) D = purge_log C i D"
| "log_step C (LVote v) D = save_vote C v D"

fun log_run_ok :: "log_op list \<Rightarrow> alog \<Rightarrow> bool" where
  "log_run_ok [] L \<longleftrightarrow> True"
| "log_run_ok (a # as) L \<longleftrightarrow> log_op_ok a L \<and> log_run_ok as (spec_log_step a L)"

definition log_codec_ok :: "('b, 'c) log_codec_scheme \<Rightarrow> bool" where
  "log_codec_ok C \<longleftrightarrow>
     (\<forall>e. de_log_entry C (ser_log_entry C e) = Inr e) \<and> (\<forall>m. de_log_meta C (ser_log_meta C m) = Inr m) \<and>
     (\<forall>v. de_vote C (ser_vote C v) = Inr v)"

text \<open>The database holds the log: the rows are the entries under their indices.\<close>

definition log_rows :: "('b, 'c) log_codec_scheme \<Rightarrow> entry list \<Rightarrow> (u64, 'b) table" where
  "log_rows C es = map (\<lambda>e. (entry_index e, ser_log_entry C e)) es"

definition holds_log :: "('b, 'c) log_codec_scheme \<Rightarrow> ('b, 'txt) node_db \<Rightarrow> alog \<Rightarrow> bool" where
  "holds_log C D L \<longleftrightarrow>
     db_log D = log_rows C (al_entries L) \<and>
     db_log_meta D = map_option (\<lambda>i. ser_log_meta C (Some i)) (al_purged L) \<and>
     db_vote D = map_option (ser_vote C) (al_vote L) \<and>
     chained (map_option lid_index (al_purged L)) (al_entries L)"

definition empty_alog :: alog where
  "empty_alog = \<lparr>al_purged = None, al_entries = [], al_vote = None\<rparr>"

definition empty_db :: "('b, 'txt) node_db" where
  "empty_db = \<lparr>db_log = [], db_log_meta = None, db_vote = None, db_snapshot = None, db_format = None,
     db_tables = empty_tables\<rparr>"

section \<open>Sample log\<close>

definition sample_log_codec :: "(entry + log_id option + vote) log_codec" where
  "sample_log_codec =
     \<lparr>ser_log_entry = Inl, de_log_entry = (\<lambda>b. case b of Inl e \<Rightarrow> Inr e | _ \<Rightarrow> Inl ''not an entry''),
      ser_log_meta = (\<lambda>m. Inr (Inl m)), de_log_meta = (\<lambda>b. case b of Inr (Inl m) \<Rightarrow> Inr m | _ \<Rightarrow> Inl ''not a meta row''),
      ser_vote = (\<lambda>v. Inr (Inr v)), de_vote = (\<lambda>b. case b of Inr (Inr v) \<Rightarrow> Inr v | _ \<Rightarrow> Inl ''not a vote'')\<rparr>"

definition blank_at :: "u64 \<Rightarrow> u64 \<Rightarrow> entry" where
  "blank_at term index = \<lparr>ent_log_id = \<lparr>lid_term = term, lid_node = 1, lid_index = index\<rparr>, ent_payload = Blank\<rparr>"

definition sample_log_ops :: "log_op list" where
  "sample_log_ops =
     [LVote \<lparr>vt_term = 1, vt_node = 1, vt_committed = True\<rparr>, LAppend [blank_at 1 0, blank_at 1 1, blank_at 1 2],
      LTruncate \<lparr>lid_term = 1, lid_node = 1, lid_index = 2\<rparr>, LAppend [blank_at 2 2, blank_at 2 3],
      LPurge \<lparr>lid_term = 1, lid_node = 1, lid_index = 1\<rparr>]"

section \<open>Lemmas: chained entries\<close>

lemma chained_weaken: "chained prev es \<Longrightarrow> chained None es"
  by (cases es) auto

lemma chained_greater: "chained (Some p) es \<Longrightarrow> e \<in> set es \<Longrightarrow> p < entry_index e"
proof (induction es arbitrary: p)
  case (Cons a es)
  then have "p < entry_index a" "chained (Some (entry_index a)) es" by auto
  with Cons show ?case by (auto intro: order.strict_trans)
qed simp

lemma chained_sorted: "chained prev es \<Longrightarrow> sorted_wrt (<) (map entry_index es)"
proof (induction es arbitrary: prev)
  case (Cons a es)
  then have "chained (Some (entry_index a)) es" by simp
  with Cons show ?case by (auto dest: chained_greater)
qed simp

lemma chained_append:
  "chained prev (xs @ ys) \<longleftrightarrow>
   chained prev xs \<and> chained (if xs = [] then prev else Some (entry_index (last xs))) ys"
  by (induction xs arbitrary: prev) auto

lemma chained_takeWhile: "chained prev es \<Longrightarrow> chained prev (takeWhile P es)"
  using chained_append [of prev "takeWhile P es" "dropWhile P es"] by simp

lemma takeWhile_sorted:
  fixes n :: "'n::linorder"
  assumes "sorted_wrt (<) (map f es)" shows "takeWhile (\<lambda>e. f e < n) es = filter (\<lambda>e. f e < n) es"
  using assms
proof (induction es)
  case (Cons a es)
  then have "filter (\<lambda>e. f e < n) es = []" if "\<not> f a < n" using that by (fastforce simp: filter_empty_conv)
  with Cons show ?case by auto
qed simp

lemma dropWhile_sorted:
  fixes n :: "'n::linorder"
  assumes "sorted_wrt (<) (map f es)" shows "dropWhile (\<lambda>e. f e \<le> n) es = filter (\<lambda>e. \<not> f e \<le> n) es"
  using assms
proof (induction es)
  case (Cons a es)
  then have "filter (\<lambda>e. \<not> f e \<le> n) es = es" if "\<not> f a \<le> n" using that by (fastforce simp: filter_id_conv)
  with Cons show ?case by auto
qed simp

lemma last_index_chained:
  assumes "chained (map_option lid_index (al_purged L)) (al_entries L)"
  shows "chained (map_option lid_index (al_purged L)) (al_entries L @ es) \<longleftrightarrow> chained (last_index L) es"
  using assms by (simp add: chained_append last_index_def)

text \<open>What is left of a chain after its front is purged starts just after the purge mark.\<close>

lemma chained_dropWhile:
  assumes "chained (Some p) es" and "p \<le> n"
  shows "chained (Some n) (dropWhile (\<lambda>e. entry_index e \<le> n) es)"
  using assms
proof (induction es arbitrary: p)
  case (Cons a es)
  show ?case
  proof (cases "entry_index a \<le> n")
    case True
    from Cons.prems have "chained (Some (entry_index a)) es" unfolding chained.simps by blast
    from Cons.IH [OF this True] True show ?thesis by simp
  next
    case False
    with Cons.prems have "n < p + 1" "p < p + 1" "entry_index a = p + 1" by auto
    then have "n = p" using Cons.prems(2) by (metis inc_le not_less order_antisym)
    with Cons.prems False show ?thesis by auto
  qed
qed simp

section \<open>Lemmas: the rows hold the log\<close>

lemma log_rows_keys: "tkeys (log_rows C es) = map entry_index es"
  by (simp add: log_rows_def)

lemma put_last: "\<forall>j \<in> fst ` set t. j < k \<Longrightarrow> tput k v t = t @ [(k, v)]"
  by (induction t) auto

lemma append_rows:
  assumes "chained (last_index L) es" and "chained (map_option lid_index (al_purged L)) (al_entries L)"
  shows "fold (\<lambda>e. tput (entry_index e) (ser_log_entry C e)) es (log_rows C (al_entries L)) =
         log_rows C (al_entries L @ es)"
proof -
  have "chained (map_option lid_index (al_purged L)) (al_entries L @ es)" using assms by (simp add: last_index_chained)
  then have "sorted_wrt (<) (map entry_index (al_entries L @ es))" by (rule chained_sorted)
  then show ?thesis
  proof (induction es rule: rev_induct)
    case (snoc e es)
    then have "\<forall>j \<in> fst ` set (log_rows C (al_entries L @ es)). j < entry_index e"
      by (auto simp: sorted_wrt_append log_rows_def)
    with snoc show ?case by (simp add: put_last sorted_wrt_append log_rows_def)
  qed simp
qed

lemma log_step_refines:
  assumes holds: "holds_log C D L" and ok: "log_op_ok a L"
  shows "holds_log C (log_step C a D) (spec_log_step a L)"
proof -
  have chain: "chained (map_option lid_index (al_purged L)) (al_entries L)" using holds by (simp add: holds_log_def)
  have rows: "filter (\<lambda>(i, _). P i) (log_rows C es) = log_rows C (filter (\<lambda>e. P (entry_index e)) es)" for P es
    by (simp add: log_rows_def filter_map comp_def)
  show ?thesis
  proof (cases a)
    case (LAppend es)
    with holds ok show ?thesis
      by (simp add: holds_log_def append_entries_def append_rows last_index_chained)
  next
    case (LTruncate i)
    with holds chain show ?thesis
      by (simp add: holds_log_def truncate_log_def tretain_def rows not_le
          takeWhile_sorted [OF chained_sorted [OF chain]] chained_takeWhile
          flip: takeWhile_sorted [OF chained_sorted [OF chain]])
  next
    case (LPurge i)
    have "chained (Some (lid_index i)) (dropWhile (\<lambda>e. entry_index e \<le> lid_index i) (al_entries L))"
    proof (cases "al_purged L")
      case None
      show ?thesis
      proof (cases "al_entries L")
        case (Cons e es)
        with None ok LPurge chain show ?thesis
          using chained_dropWhile [of "entry_index e" es "lid_index i"] by auto
      qed simp
    next
      case (Some p)
      with ok LPurge chain show ?thesis by (intro chained_dropWhile) auto
    qed
    with LPurge holds show ?thesis
      by (simp add: holds_log_def purge_log_def tretain_def rows dropWhile_sorted [OF chained_sorted [OF chain]])
  next
    case (LVote v)
    with holds show ?thesis by (simp add: holds_log_def save_vote_def)
  qed
qed

lemma log_run_refines:
  "holds_log C D L \<Longrightarrow> log_run_ok as L \<Longrightarrow> holds_log C (fold (log_step C) as D) (fold spec_log_step as L)"
  by (induction as arbitrary: D L) (simp_all add: log_step_refines)

lemma decode_log_rows:
  assumes "log_codec_ok C" shows "decode_entries C (log_rows C es) = Inr es"
  using assms by (induction es) (simp_all add: log_rows_def log_codec_ok_def)

lemma holds_empty: "holds_log C empty_db empty_alog"
  by (simp add: holds_log_def empty_db_def empty_alog_def log_rows_def)

lemma log_rows_filter: "filter (\<lambda>row. P (fst row)) (log_rows C es) = log_rows C (filter (\<lambda>e. P (entry_index e)) es)"
  by (simp add: log_rows_def filter_map comp_def)

lemma unat_sat_add_one:
  assumes "x \<noteq> - 1" shows "unat (sat_add x 1) = Suc (unat x)"
proof -
  have "unat x \<noteq> unat (- 1 :: u64)" using assms by (simp only: word_unat_eq_iff not_False_eq_True)
  moreover have "unat (- 1 :: u64) = 2 ^ 64 - 1" by (simp add: unsigned_minus_1_eq_mask mask_eq_exp_minus_1)
  moreover have "unat x < 2 ^ 64" using unsigned_less [where w = x and ?'a = nat] by simp
  ultimately show ?thesis by (simp add: unat_sat_add)
qed

lemma start_bound_above: "lo \<noteq> Excluded (- 1) \<Longrightarrow> above (start_bound lo) i = above lo i"
  by (cases lo) (auto simp: start_bound_def above_def unat_sat_add_one word_le_nat_alt word_less_nat_alt)

lemma end_bound_below: "hi \<noteq> Included (- 1) \<Longrightarrow> below (end_bound hi) i = below hi i"
  by (cases hi) (auto simp: end_bound_def below_def unat_sat_add_one word_le_nat_alt word_less_nat_alt)

lemma holds_log_state:
  assumes "log_codec_ok C" and "holds_log C D L"
  shows "get_log_state C D =
     Inr \<lparr>ls_last_purged_log_id = al_purged L,
          ls_last_log_id = (if al_entries L = [] then al_purged L else Some (ent_log_id (last (al_entries L))))\<rparr>"
proof (cases "al_entries L = []")
  case True
  with assms show ?thesis
    by (cases "al_purged L") (simp_all add: get_log_state_def holds_log_def log_rows_def log_codec_ok_def)
next
  case False
  with assms show ?thesis
    by (cases "al_purged L") (simp_all add: get_log_state_def holds_log_def log_rows_def log_codec_ok_def last_map)
qed

section \<open>Properties\<close>

lemma sample_log_codec_ok: "log_codec_ok sample_log_codec"
  by (simp add: log_codec_ok_def sample_log_codec_def)

text \<open>C21. The log store implements a log: after any appends, truncations, purges and votes that
  \<^verbatim>\<open>openraft\<close> may make on a new database, the state read back is the purge mark and the last id of
  the log so made, the vote is the last one saved, and a read of any range gives exactly the entries
  whose index is in it, in order. The two ranges bounded by the largest index, which the saturating
  bound of the reader cannot express, are left out.\<close>

theorem log_store_implements_log:
  assumes "log_codec_ok C" and "log_run_ok ops empty_alog"
  shows "\<exists>L. L = fold spec_log_step ops empty_alog \<and>
    get_log_state C (fold (log_step C) ops (empty_db :: ('b, 'txt) node_db)) =
      Inr \<lparr>ls_last_purged_log_id = al_purged L,
           ls_last_log_id = (if al_entries L = [] then al_purged L else Some (ent_log_id (last (al_entries L))))\<rparr> \<and>
    read_vote C (fold (log_step C) ops (empty_db :: ('b, 'txt) node_db)) = Inr (al_vote L) \<and>
    (\<forall>lo hi. lo \<noteq> Excluded (- 1) \<and> hi \<noteq> Included (- 1) \<longrightarrow>
       try_get_log_entries C lo hi (fold (log_step C) ops (empty_db :: ('b, 'txt) node_db)) =
         Inr (filter (\<lambda>e. above lo (entry_index e) \<and> below hi (entry_index e)) (al_entries L)))"
proof (rule exI, intro conjI allI impI, rule refl)
  let ?D = "fold (log_step C) ops (empty_db :: ('b, 'txt) node_db)"
  let ?L = "fold spec_log_step ops empty_alog"
  have holds: "holds_log C ?D ?L" by (rule log_run_refines [OF holds_empty assms(2)])
  show "get_log_state C ?D = Inr \<lparr>ls_last_purged_log_id = al_purged ?L,
      ls_last_log_id = (if al_entries ?L = [] then al_purged ?L else Some (ent_log_id (last (al_entries ?L))))\<rparr>"
    by (rule holds_log_state [OF assms(1) holds])
  show "read_vote C ?D = Inr (al_vote ?L)"
    using holds assms(1) by (cases "al_vote ?L") (simp_all add: holds_log_def read_vote_def log_codec_ok_def)
  fix lo hi assume "lo \<noteq> Excluded (- 1) \<and> hi \<noteq> Included (- 1)"
  moreover have "db_log ?D = log_rows C (al_entries ?L)" using holds by (simp add: holds_log_def)
  ultimately show "try_get_log_entries C lo hi ?D =
      Inr (filter (\<lambda>e. above lo (entry_index e) \<and> below hi (entry_index e)) (al_entries ?L))"
    by (simp add: try_get_log_entries_def start_bound_above end_bound_below decode_log_rows [OF assms(1)]
        log_rows_filter [of "\<lambda>i. above lo i \<and> below hi i"])
qed

theorem log_store_implements_log_witness:
  "get_log_state sample_log_codec (fold (log_step sample_log_codec) sample_log_ops (empty_db :: (_, unit) node_db)) =
     Inr \<lparr>ls_last_purged_log_id = Some \<lparr>lid_term = 1, lid_node = 1, lid_index = 1\<rparr>,
          ls_last_log_id = Some \<lparr>lid_term = 2, lid_node = 1, lid_index = 3\<rparr>\<rparr> \<and>
   try_get_log_entries sample_log_codec (Included 2) Unbounded
     (fold (log_step sample_log_codec) sample_log_ops (empty_db :: (_, unit) node_db)) = Inr [blank_at 2 2, blank_at 2 3]"
proof -
  have ok: "log_run_ok sample_log_ops empty_alog" by code_simp
  have L: "fold spec_log_step sample_log_ops empty_alog =
      \<lparr>al_purged = Some \<lparr>lid_term = 1, lid_node = 1, lid_index = 1\<rparr>, al_entries = [blank_at 2 2, blank_at 2 3],
       al_vote = Some \<lparr>vt_term = 1, vt_node = 1, vt_committed = True\<rparr>\<rparr>" by code_simp
  have "filter (\<lambda>e. above (Included 2) (entry_index e) \<and> below Unbounded (entry_index e)) [blank_at 2 2, blank_at 2 3] =
      [blank_at 2 2, blank_at 2 3]" by code_simp
  moreover have "ent_log_id (blank_at 2 3) = \<lparr>lid_term = 2, lid_node = 1, lid_index = 3\<rparr>" by code_simp
  ultimately show ?thesis
    using log_store_implements_log [OF sample_log_codec_ok ok, where ?'txt = unit] by (auto simp: L)
qed

text \<open>At the largest index the saturating bound drops the entry an inclusive range asks for.\<close>

lemma last_index_unreadable:
  "try_get_log_entries sample_log_codec (Included (- 1)) (Included (- 1))
     (append_entries sample_log_codec [blank_at 1 (- 1)] (empty_db :: (_, unit) node_db)) = Inr []"
  by code_simp



end
