(* ===== verification/Snapshot.thy ===== *)
theory Snapshot
  imports ApplyLog LogStore
begin

text \<open>
  Snapshots of the state machine (\<^verbatim>\<open>crates/rift-cluster/src/raft/store.rs\<close>): the payload read from the
  tables, the file it is written to and the row that names it, and the installation of a payload
  received from a peer. Payload bytes are of the type \<open>'f\<close>; \<^verbatim>\<open>serde_json\<close> and \<^verbatim>\<open>zstd\<close> are the fields of
  \<open>payload_codec\<close>. The file operations of a build and of an installation are also given as the steps a
  crash can fall between.
\<close>

section \<open>Payload and metadata\<close>

record 'txt snapshot_payload =
  sp_format :: u32
  sp_configs :: "(u16 \<times> 'txt) list"
  sp_routes :: "(string \<times> 'txt) list"
  sp_routes_revision :: "u64 option"
  sp_session_key :: "'txt option"
  sp_fleet_name :: "string option"
  sp_proxy_recorded :: "(u16 \<times> string \<times> 'txt) list"
  sp_dedup :: "(string \<times> 'txt) list"
  sp_last_applied_log :: "log_id option"
  sp_last_membership :: stored_membership
  sp_logical_clock_secs :: u64

record snapshot_meta =
  sn_last_log_id :: "log_id option"
  sn_last_membership :: stored_membership
  sn_snapshot_id :: string

record ('f, 'txt) payload_codec =
  ser_payload :: "'txt snapshot_payload \<Rightarrow> 'f"
  de_payload :: "'f \<Rightarrow> 'txt snapshot_payload result"
  zstd_encode :: "'f \<Rightarrow> 'f"
  zstd_decode :: "'f \<Rightarrow> 'f result"
  has_magic :: "'f \<Rightarrow> bool"

definition RECEIVING_PREFIX :: string where "RECEIVING_PREFIX = ''receiving-''"
definition TMP_PREFIX :: string where "TMP_PREFIX = ''tmp-''"

definition snapshot_id_is_safe :: "string \<Rightarrow> bool" where
  "snapshot_id_is_safe i \<longleftrightarrow>
     i \<noteq> [] \<and> list_all (\<lambda>c. is_ascii_alphanumeric c \<or> c = CHR ''-'' \<or> c = CHR ''_'') i"

text \<open>The state machine's durable state: its tables, the snapshot row (metadata and file name), the
  files of the snapshot directory and the counter snapshot names are made from.\<close>

record ('f, 'txt) sm_store =
  ss_tables :: "'txt tables"
  ss_row :: "(snapshot_meta \<times> string) option"
  ss_files :: "(string, 'f) table"
  ss_idx :: u64

section \<open>Building\<close>

definition nested_row :: "('txt, 'a) seams_scheme \<Rightarrow> 'txt \<Rightarrow> 'txt" where
  "nested_row S row = (case raw_value S row of Some nested \<Rightarrow> nested | None \<Rightarrow> ser_str S row)"

definition stored_row :: "('txt, 'a) seams_scheme \<Rightarrow> 'txt \<Rightarrow> storage_error + 'txt" where
  "stored_row S nested =
     (if starts_quote S nested
      then (case de_str S nested of Inl e \<Rightarrow> Inl (StorageRead e) | Inr row \<Rightarrow> Inr row)
      else Inr nested)"

definition snapshot_payload_of :: "('txt, 'a) seams_scheme \<Rightarrow> 'txt tables \<Rightarrow> 'txt snapshot_payload" where
  "snapshot_payload_of S T =
     (let applied = read_applied T in
      \<lparr>sp_format = STATE_FORMAT,
       sp_configs = map (\<lambda>(port, row). (port, nested_row S row)) (sm_configs T),
       sp_routes = map (\<lambda>(i, row). (i, nested_row S row)) (sm_routes T),
       sp_routes_revision = sm_routes_revision T,
       sp_session_key = sm_session_key T,
       sp_fleet_name = sm_fleet_name T,
       sp_proxy_recorded = map (\<lambda>((port, sig_hash), row). (port, sig_hash, nested_row S row)) (sm_proxy_recorded T),
       sp_dedup = map (\<lambda>(op_id, row). (op_id, nested_row S row)) (sm_op_dedup T),
       sp_last_applied_log = last_applied_log applied,
       sp_last_membership = last_membership applied,
       sp_logical_clock_secs = logical_clock_secs applied\<rparr>)"

definition write_snapshot_file :: "snapshot_meta \<Rightarrow> 'f \<Rightarrow> ('f, 'txt) sm_store \<Rightarrow> ('f, 'txt) sm_store" where
  "write_snapshot_file meta bytes s =
     s\<lparr>ss_files := tput (sn_snapshot_id meta) bytes (tdel (TMP_PREFIX @ sn_snapshot_id meta) (ss_files s))\<rparr>"

text \<open>The sweep of the directory: \<open>recent\<close> says which files were touched within the grace period.\<close>

definition gc_snapshot_files :: "(string \<Rightarrow> bool) \<Rightarrow> string \<Rightarrow> ('f, 'txt) sm_store \<Rightarrow> ('f, 'txt) sm_store" where
  "gc_snapshot_files recent keep s = s\<lparr>ss_files := tretain (\<lambda>name _. name = keep \<or> recent name) (ss_files s)\<rparr>"

definition commit_snapshot_row ::
  "(string \<Rightarrow> bool) \<Rightarrow> snapshot_meta \<Rightarrow> ('f, 'txt) sm_store \<Rightarrow> ('f, 'txt) sm_store" where
  "commit_snapshot_row recent meta s =
     gc_snapshot_files recent (sn_snapshot_id meta) (s\<lparr>ss_row := Some (meta, sn_snapshot_id meta)\<rparr>)"

definition snapshot_id_of :: "(log_id \<Rightarrow> string) \<Rightarrow> log_id option \<Rightarrow> u64 \<Rightarrow> string" where
  "snapshot_id_of show_leader last_log idx =
     (case last_log of
        Some l \<Rightarrow> show_leader l @ ''-'' @ show_word (lid_index l) @ ''-'' @ show_word idx
      | None \<Rightarrow> ''--'' @ show_word idx)"

definition open_snapshot_file :: "string \<Rightarrow> ('f, 'txt) sm_store \<Rightarrow> storage_error + 'f" where
  "open_snapshot_file i s =
     (case tget (ss_files s) i of None \<Rightarrow> Inl (StorageReadSnapshot ''not found'') | Some bytes \<Rightarrow> Inr bytes)"

definition build_snapshot ::
  "('txt, 'a) seams_scheme \<Rightarrow> ('f, 'txt, 'b) payload_codec_scheme \<Rightarrow> (log_id \<Rightarrow> string) \<Rightarrow> (string \<Rightarrow> bool) \<Rightarrow>
   ('f, 'txt) sm_store \<Rightarrow> ('f, 'txt) sm_store \<times> (storage_error + (snapshot_meta \<times> 'f))" where
  "build_snapshot S P show_leader recent s =
     (let payload = snapshot_payload_of S (ss_tables s);
          idx = ss_idx s + 1;
          meta = \<lparr>sn_last_log_id = sp_last_applied_log payload, sn_last_membership = sp_last_membership payload,
                  sn_snapshot_id = snapshot_id_of show_leader (sp_last_applied_log payload) idx\<rparr>;
          s1 = write_snapshot_file meta (zstd_encode P (ser_payload P payload)) (s\<lparr>ss_idx := idx\<rparr>);
          s2 = commit_snapshot_row recent meta s1
      in (s2, case open_snapshot_file (sn_snapshot_id meta) s2 of Inl e \<Rightarrow> Inl e | Inr bytes \<Rightarrow> Inr (meta, bytes)))"

definition begin_receiving_snapshot :: "'f \<Rightarrow> ('f, 'txt) sm_store \<Rightarrow> ('f, 'txt) sm_store \<times> string" where
  "begin_receiving_snapshot nothing s =
     (let name = RECEIVING_PREFIX @ show_word (ss_idx s)
      in (s\<lparr>ss_idx := ss_idx s + 1, ss_files := tput name nothing (ss_files s)\<rparr>, name))"

section \<open>Installing\<close>

definition parse_snapshot ::
  "('f, 'txt, 'b) payload_codec_scheme \<Rightarrow> 'f \<Rightarrow> storage_error + 'txt snapshot_payload" where
  "parse_snapshot P received =
     (case (if has_magic P received then zstd_decode P received else Inr received) of
        Inl e \<Rightarrow> Inl (StorageReadSnapshot e)
      | Inr text \<Rightarrow>
          (case de_payload P text of
             Inl e \<Rightarrow> Inl (StorageReadSnapshot e)
           | Inr payload \<Rightarrow>
               if sp_format payload \<noteq> STATE_FORMAT
               then Inl (StorageReadSnapshot (''snapshot format '' @ show_word (sp_format payload) @
                      '' cannot be installed by a binary that needs format '' @ show_word STATE_FORMAT))
               else Inr payload))"

fun install_rows :: "('txt, 'a) seams_scheme \<Rightarrow> ('k::linorder \<times> 'txt) list \<Rightarrow> ('k, 'txt) table \<Rightarrow> storage_error + ('k, 'txt) table" where
  "install_rows S [] t = Inr t"
| "install_rows S ((k, nested) # rows) t =
     (case stored_row S nested of Inl e \<Rightarrow> Inl e | Inr row \<Rightarrow> install_rows S rows (tput k row t))"

definition install_tables ::
  "('txt, 'a) seams_scheme \<Rightarrow> 'txt snapshot_payload \<Rightarrow> 'txt tables \<Rightarrow> storage_error + 'txt tables" where
  "install_tables S payload T =
     (case install_rows S (sp_configs payload) [] of
        Inl e \<Rightarrow> Inl e
      | Inr configs \<Rightarrow>
          (case install_rows S (sp_routes payload) [] of
             Inl e \<Rightarrow> Inl e
           | Inr routes \<Rightarrow>
               (case install_rows S (map (\<lambda>(port, sig_hash, resp). ((port, sig_hash), resp)) (sp_proxy_recorded payload)) [] of
                  Inl e \<Rightarrow> Inl e
                | Inr recorded \<Rightarrow>
                    (case install_rows S (sp_dedup payload) [] of
                       Inl e \<Rightarrow> Inl e
                     | Inr dedup \<Rightarrow>
                         Inr (T\<lparr>sm_configs := configs, sm_routes := routes,
                                sm_routes_revision := sp_routes_revision payload,
                                sm_session_key := sp_session_key payload,
                                sm_fleet_name := sp_fleet_name payload,
                                sm_proxy_recorded := recorded, sm_op_dedup := dedup,
                                sm_applied := Some \<lparr>last_applied_log = sp_last_applied_log payload,
                                                    last_membership = sp_last_membership payload,
                                                    logical_clock_secs = sp_logical_clock_secs payload\<rparr>\<rparr>)))))"

definition install_snapshot_blocking ::
  "('txt, 'a) seams_scheme \<Rightarrow> (string \<Rightarrow> bool) \<Rightarrow> snapshot_meta \<Rightarrow> 'txt snapshot_payload \<Rightarrow> 'f \<Rightarrow>
   ('f, 'txt) sm_store \<Rightarrow> ('f, 'txt) sm_store \<times> (storage_error + attributed_action list)" where
  "install_snapshot_blocking S recent meta payload received s =
     (let s1 = write_snapshot_file meta received s in
      case install_tables S payload (ss_tables s1) of
        Inl e \<Rightarrow> (s1, Inl e)
      | Inr T \<Rightarrow>
          (gc_snapshot_files recent (sn_snapshot_id meta)
             (s1\<lparr>ss_tables := T, ss_row := Some (meta, sn_snapshot_id meta)\<rparr>),
           Inr [\<lparr>aa_principal = None, aa_action = sync_action S (sm_configs T)\<rparr>,
                \<lparr>aa_principal = None, aa_action = sync_routes_action S (sm_routes T)\<rparr>]))"

definition install_snapshot ::
  "('txt, 'a) seams_scheme \<Rightarrow> ('f, 'txt, 'b) payload_codec_scheme \<Rightarrow> (string \<Rightarrow> bool) \<Rightarrow> snapshot_meta \<Rightarrow> 'f \<Rightarrow>
   ('f, 'txt) sm_store \<Rightarrow> ('f, 'txt) sm_store \<times> (storage_error + attributed_action list)" where
  "install_snapshot S P recent meta received s =
     (if \<not> snapshot_id_is_safe (sn_snapshot_id meta)
      then (s, Inl (StorageReadSnapshot ''peer sent an unusable snapshot id''))
      else case parse_snapshot P received of
        Inl e \<Rightarrow> (s, Inl e)
      | Inr payload \<Rightarrow> install_snapshot_blocking S recent meta payload received s)"

definition get_current_snapshot :: "('f, 'txt) sm_store \<Rightarrow> (snapshot_meta \<times> 'f) option" where
  "get_current_snapshot s =
     (case ss_row s of
        None \<Rightarrow> None
      | Some (meta, file) \<Rightarrow> (case tget (ss_files s) file of None \<Rightarrow> None | Some bytes \<Rightarrow> Some (meta, bytes)))"

section \<open>The steps a crash can fall between\<close>

datatype ('f, 'txt) disk_step =
    WriteTmp string 'f
  | RenameTmp string
  | CommitRow snapshot_meta
  | CommitInstall snapshot_meta "'txt tables"
  | RemoveFile string

fun disk_exec :: "('f, 'txt) disk_step \<Rightarrow> ('f, 'txt) sm_store \<Rightarrow> ('f, 'txt) sm_store" where
  "disk_exec (WriteTmp i bytes) s = s\<lparr>ss_files := tput (TMP_PREFIX @ i) bytes (ss_files s)\<rparr>"
| "disk_exec (RenameTmp i) s =
     s\<lparr>ss_files := (case tget (ss_files s) (TMP_PREFIX @ i) of
                      None \<Rightarrow> ss_files s
                    | Some bytes \<Rightarrow> tput i bytes (tdel (TMP_PREFIX @ i) (ss_files s)))\<rparr>"
| "disk_exec (CommitRow meta) s = s\<lparr>ss_row := Some (meta, sn_snapshot_id meta)\<rparr>"
| "disk_exec (CommitInstall meta T) s = s\<lparr>ss_tables := T, ss_row := Some (meta, sn_snapshot_id meta)\<rparr>"
| "disk_exec (RemoveFile name) s = s\<lparr>ss_files := tdel name (ss_files s)\<rparr>"

text \<open>The payload written in part, then whole, renamed, the row committed, the superseded files removed.\<close>

definition snapshot_steps ::
  "snapshot_meta \<Rightarrow> 'f \<Rightarrow> 'f \<Rightarrow> ('f, 'txt) disk_step \<Rightarrow> string list \<Rightarrow> ('f, 'txt) disk_step list" where
  "snapshot_steps meta part bytes commit swept =
     [WriteTmp (sn_snapshot_id meta) part, WriteTmp (sn_snapshot_id meta) bytes, RenameTmp (sn_snapshot_id meta), commit] @
     map RemoveFile swept"

section \<open>Predicates of the specification\<close>

text \<open>What the theorems rely on of \<^verbatim>\<open>serde_json\<close>'s raw values: the text of a serialized struct is the
  compact text of an object, which a raw value keeps and which does not start with a quote; a string
  written as JSON starts with one and reads back.\<close>

definition plain_row :: "('txt, 'a) seams_scheme \<Rightarrow> 'txt \<Rightarrow> bool" where
  "plain_row S row \<longleftrightarrow> (raw_value S row = Some row \<and> \<not> starts_quote S row) \<or> raw_value S row = None"

definition raw_ok :: "('txt, 'a) seams_scheme \<Rightarrow> bool" where
  "raw_ok S \<longleftrightarrow>
     (\<forall>t. starts_quote S (ser_str S t) \<and> de_str S (ser_str S t) = Inr t) \<and>
     (\<forall>x. plain_row S (ser_stored S x)) \<and> (\<forall>x. plain_row S (ser_route S x)) \<and>
     (\<forall>x. plain_row S (ser_dedup S x)) \<and> (\<forall>x. plain_row S (ser_recorded S x))"

definition payload_codec_ok :: "('f, 'txt, 'b) payload_codec_scheme \<Rightarrow> bool" where
  "payload_codec_ok P \<longleftrightarrow>
     (\<forall>p. de_payload P (ser_payload P p) = Inr p) \<and>
     (\<forall>b. has_magic P (zstd_encode P b) \<and> zstd_decode P (zstd_encode P b) = Inr b)"

text \<open>The rows the ops write, and the dedup rows the log writes beside them, are plain.\<close>

definition rows_plain :: "('txt, 'a) seams_scheme \<Rightarrow> 'txt tables \<Rightarrow> bool" where
  "rows_plain S T \<longleftrightarrow> raw_ok S \<and>
     list_all (plain_row S \<circ> snd) (sm_configs T) \<and> list_all (plain_row S \<circ> snd) (sm_routes T) \<and>
     list_all (plain_row S \<circ> snd) (sm_proxy_recorded T)"

definition dedup_plain :: "('txt, 'a) seams_scheme \<Rightarrow> 'txt tables \<Rightarrow> bool" where
  "dedup_plain S T \<longleftrightarrow> list_all (plain_row S \<circ> snd) (sm_op_dedup T)"

definition tables_sorted :: "'txt tables \<Rightarrow> bool" where
  "tables_sorted T \<longleftrightarrow> twf (sm_configs T) \<and> twf (sm_routes T) \<and> twf (sm_proxy_recorded T) \<and> twf (sm_op_dedup T)"

text \<open>The row names a file that is there, under no working name, and that parses as a payload.\<close>

definition row_durable :: "('f, 'txt, 'b) payload_codec_scheme \<Rightarrow> ('f, 'txt) sm_store \<Rightarrow> bool" where
  "row_durable P s \<longleftrightarrow>
     (case ss_row s of
        None \<Rightarrow> True
      | Some (meta, file) \<Rightarrow>
          \<not> starts_with TMP_PREFIX file \<and>
          (case tget (ss_files s) file of None \<Rightarrow> False | Some bytes \<Rightarrow> \<not> isl (parse_snapshot P bytes)))"

section \<open>Samples\<close>

text \<open>A payload codec whose bytes are the payload itself, wrapped by the compression.\<close>

datatype sample_bytes = PlainBytes "doc snapshot_payload" | ZstdBytes sample_bytes | NoBytes

definition sample_payload_codec :: "(sample_bytes, doc) payload_codec" where
  "sample_payload_codec =
     \<lparr>ser_payload = PlainBytes, de_payload = (\<lambda>b. case b of PlainBytes p \<Rightarrow> Inr p | _ \<Rightarrow> Inl ''not JSON''),
      zstd_encode = ZstdBytes, zstd_decode = (\<lambda>b. case b of ZstdBytes p \<Rightarrow> Inr p | _ \<Rightarrow> Inl ''not a frame''),
      has_magic = (\<lambda>b. case b of ZstdBytes _ \<Rightarrow> True | _ \<Rightarrow> False)\<rparr>"

definition sample_leader :: "log_id \<Rightarrow> string" where
  "sample_leader l = ''T'' @ show_word (lid_term l) @ ''-N'' @ show_word (lid_node l)"

definition sample_before :: "(bool \<times> entry list) list" where
  "sample_before = [(False, [sample_entry 1 (sample_request ''a'' 0 None (DeleteRoute ''x''))])]"

definition sample_after :: "(bool \<times> entry list) list" where
  "sample_after = [(True, [sample_entry 2 (sample_request ''b'' 0 None DeleteAll)])]"

definition sample_store :: "doc tables \<Rightarrow> (sample_bytes, doc) sm_store" where
  "sample_store T = \<lparr>ss_tables = T, ss_row = None, ss_files = [], ss_idx = 0\<rparr>"

definition sample_leader_tables :: "doc tables" where
  "sample_leader_tables = fst (projr (apply_log doc_seams sample_before empty_tables))"

definition sample_build :: "(sample_bytes, doc) sm_store \<times> (storage_error + (snapshot_meta \<times> sample_bytes))" where
  "sample_build = build_snapshot doc_seams sample_payload_codec sample_leader (\<lambda>_. True) (sample_store sample_leader_tables)"

section \<open>Lemmas: rows survive the payload\<close>

lemma stored_nested: "raw_ok S \<Longrightarrow> plain_row S row \<Longrightarrow> stored_row S (nested_row S row) = Inr row"
  by (auto simp: plain_row_def raw_ok_def nested_row_def stored_row_def)

lemma install_own_rows:
  assumes "raw_ok S" and "list_all (plain_row S \<circ> snd) t"
  shows "install_rows S (map (\<lambda>(k, row). (k, nested_row S row)) t) u = Inr (fold (\<lambda>(k, v). tput k v) t u)"
  using assms(2) by (induction t arbitrary: u) (auto simp: stored_nested [OF assms(1)])

lemma install_own_table:
  assumes "raw_ok S" and "twf t" and "list_all (plain_row S \<circ> snd) t"
  shows "install_rows S (map (\<lambda>(k, row). (k, nested_row S row)) t) [] = Inr t"
  using install_own_rows [OF assms(1,3)] put_own_rows [OF assms(2)] by simp

lemma install_payload:
  assumes "rows_plain S T" and "dedup_plain S T" and "tables_sorted T"
  shows "install_tables S (snapshot_payload_of S T) N = Inr (T\<lparr>sm_applied := Some (read_applied T)\<rparr>)"
proof -
  have raw: "raw_ok S" using assms(1) by (simp add: rows_plain_def)
  have keys: "map (\<lambda>(port, sig_hash, resp). ((port, sig_hash), resp)) (sp_proxy_recorded (snapshot_payload_of S T)) =
      map (\<lambda>(k, row). (k, nested_row S row)) (sm_proxy_recorded T)"
    by (auto simp: snapshot_payload_of_def Let_def)
  from assms show ?thesis
    unfolding install_tables_def keys
    by (simp add: snapshot_payload_of_def Let_def rows_plain_def dedup_plain_def tables_sorted_def
        install_own_table [OF raw])
qed

section \<open>Lemmas: the rows of a log are plain\<close>

lemma rows_plain_store: "rows_plain S T \<Longrightarrow> rows_plain S (store_imposter S port record config index T)"
  by (simp add: rows_plain_def store_imposter_def list_all_tput raw_ok_def)

lemma rows_plain_forget:
  assumes plain: "rows_plain S T"
  shows "rows_plain S (forget_port port T)" and "rows_plain S (forget_markers port hs T)"
proof -
  from plain show "rows_plain S (forget_port port T)" by (simp add: rows_plain_def forget_port_def list_all_tretain)
  show "rows_plain S (forget_markers port hs T)"
    using plain fold_tdel_set [of "\<lambda>h. (port, h)" hs "sm_proxy_recorded T"]
    by (auto simp: rows_plain_def forget_markers_def list_all_iff)
qed

lemma rows_plain_updates:
  assumes "rows_plain S T"
  shows "rows_plain S (T\<lparr>sm_configs := tdel port (sm_configs T)\<rparr>)"
    and "rows_plain S (T\<lparr>sm_configs := [], sm_proxy_recorded := []\<rparr>)"
    and "rows_plain S (T\<lparr>sm_routes := tdel i (sm_routes T), sm_routes_revision := v\<rparr>)"
    and "rows_plain S (T\<lparr>sm_session_key := k\<rparr>)" and "rows_plain S (T\<lparr>sm_fleet_name := name\<rparr>)"
  using assms by (simp_all add: rows_plain_def list_all_tdel)

lemma rows_plain_replaced: "rows_plain S T \<Longrightarrow> rows_plain S (forget_replaced S port config T)"
  by (simp add: forget_replaced_def rows_plain_forget split: option.split sum.split)

lemma rows_plain_marker:
  "rows_plain S T \<Longrightarrow> rows_plain S (T\<lparr>sm_proxy_recorded := tput k (ser_recorded S resp) (sm_proxy_recorded T)\<rparr>)"
  by (simp add: rows_plain_def list_all_tput raw_ok_def)

lemma rows_plain_routes:
  assumes "rows_plain S T"
  shows "rows_plain S (T\<lparr>sm_routes := fold (\<lambda>r. tput (route_id r) (ser_route S r)) table [], sm_routes_revision := v\<rparr>)"
proof -
  have "list_all (plain_row S \<circ> snd) t \<Longrightarrow> list_all (plain_row S \<circ> snd) (fold (\<lambda>r. tput (route_id r) (ser_route S r)) table t)" for t
    using assms by (induction table arbitrary: t) (auto simp: list_all_tput rows_plain_def raw_ok_def)
  with assms show ?thesis by (simp add: rows_plain_def)
qed

lemmas rows_plain_rules = rows_plain_updates rows_plain_store rows_plain_forget rows_plain_replaced rows_plain_marker rows_plain_routes

lemma rows_plain_mutate: "rows_plain S T \<Longrightarrow> rows_plain S (fst (mutate_tables S cop n d T))"
proof (cases cop)
  case (ProxyRecorded port h resp rstub)
  assume "rows_plain S T"
  with ProxyRecorded show ?thesis
    by (auto simp: proxy_recorded_def record_with_stub_def Let_def rows_plain_rules split: option.split sum.split prod.split)
qed (auto simp: put_imposter_def patch_stubs_def delete_imposter_def delete_all_def set_enabled_def
        put_routes_def delete_route_def session_key_put_def fleet_name_put_def
        proxy_recorded_clear_def Let_def rows_plain_rules split: option.split sum.split prod.split)

interpretation plain: replicated S 0 "rows_plain S"
  for S :: "('txt, 'a) seams_scheme"
proof
  show "rows_plain S (with_meta t a T) = rows_plain S T" for t a T by (simp add: rows_plain_def)
  show "rows_plain S (fst (run_op S d m request T))" if "rows_plain S T" for m T d request
    using that by (simp add: run_op_def rows_plain_mutate split: sum.split)
qed

lemma dedup_plain_put:
  "raw_ok S \<Longrightarrow> dedup_plain S T \<Longrightarrow> dedup_plain S (T\<lparr>sm_op_dedup := tput k (ser_dedup S x) (sm_op_dedup T)\<rparr>)"
  by (simp add: dedup_plain_def list_all_tput raw_ok_def)

lemma dedup_plain_run: "dedup_plain S T \<Longrightarrow> dedup_plain S (fst (run_op S d n r T))"
  by (simp add: dedup_plain_def run_op_keeps)

lemma dedup_plain_request:
  assumes "raw_ok S" and "dedup_plain S (bt_tables b)" and "apply_request S d n r b = Inr b'"
  shows "dedup_plain S (bt_tables b')"
proof -
  obtain T out where run: "run_op S d n r (bt_tables b) = (T, out)" by force
  then have "dedup_plain S T" using dedup_plain_run [OF assms(2), of d n r] by simp
  note put = dedup_plain_put [OF assms(1) this]
  from assms(2,3) run show ?thesis
    by (auto simp: apply_request_def Let_def put split: sum.splits option.splits)
qed

lemma dedup_plain_entry:
  assumes "raw_ok S" and "dedup_plain S (bt_tables b)" and "apply_entry S d e b = Inr b'"
  shows "dedup_plain S (bt_tables b')"
proof (cases "ent_payload e")
  case (Normal r)
  with assms(3) have "apply_request S d (lid_index (ent_log_id e)) r
      (b\<lparr>bt_applied := (bt_applied b)\<lparr>last_applied_log := Some (ent_log_id e)\<rparr>\<rparr>) = Inr b'"
    by (simp add: apply_entry_def Let_def)
  from dedup_plain_request [OF assms(1) _ this] assms(2) show ?thesis by simp
qed (use assms(2,3) in \<open>auto simp: apply_entry_def Let_def\<close>)

lemma dedup_plain_entries:
  assumes "raw_ok S"
  shows "dedup_plain S (bt_tables b) \<Longrightarrow> apply_entries S d es b = Inr b' \<Longrightarrow> dedup_plain S (bt_tables b')"
  by (induction es arbitrary: b) (auto split: sum.splits dest: dedup_plain_entry [OF assms])

lemma dedup_plain_batch:
  assumes "raw_ok S" and "dedup_plain S T" and "apply_batch S d es T = Inr (T', rs, acts)"
  shows "dedup_plain S T'"
proof -
  let ?b = "\<lparr>bt_applied = read_applied T,
      bt_tables = T\<lparr>sm_op_dedup := gc_dedup S (logical_clock_secs (read_applied T)) (sm_op_dedup T)\<rparr>,
      bt_responses = [], bt_actions = []\<rparr>"
  from assms(3) obtain b where b: "apply_entries S d es ?b = Inr b" "T' = (bt_tables b)\<lparr>sm_applied := Some (bt_applied b)\<rparr>"
    by (auto simp: apply_batch_def Let_def split: sum.splits)
  have "dedup_plain S (bt_tables ?b)" using assms(2) by (simp add: dedup_plain_def gc_dedup_def list_all_tretain)
  from dedup_plain_entries [OF assms(1) this b(1)] b(2) show ?thesis by (simp add: dedup_plain_def)
qed

lemma dedup_plain_log:
  assumes "raw_ok S"
  shows "dedup_plain S T \<Longrightarrow> apply_log S batches T = Inr (T', rs) \<Longrightarrow> dedup_plain S T'"
proof (induction batches arbitrary: T rs)
  case (Cons p batches)
  obtain d es where p: "p = (d, es)" by (cases p)
  with Cons.prems(2) obtain T1 rs1 acts rs2 where
    "apply_batch S d es T = Inr (T1, rs1, acts)" "apply_log S batches T1 = Inr (T', rs2)"
    by (auto split: sum.splits)
  with Cons.IH dedup_plain_batch [OF assms Cons.prems(1)] show ?case by blast
qed simp

lemma apply_log_follows:
  "apply_log S batches T = Inr (T', rs) \<Longrightarrow>
   log_follows (last_applied_log (read_applied T)) (concat (map snd batches) @ es) \<Longrightarrow>
   log_follows (last_applied_log (read_applied T')) es"
proof (induction batches arbitrary: T rs)
  case (Cons p batches)
  obtain d b where p: "p = (d, b)" by (cases p)
  with Cons.prems(1) obtain T1 rs1 acts rs2 where
    "apply_batch S d b T = Inr (T1, rs1, acts)" "apply_log S batches T1 = Inr (T', rs2)"
    by (auto split: sum.splits)
  with Cons p show ?case by (auto dest: apply_batch_follows)
qed simp

lemma wf_sorted: "tables_wf S n T \<Longrightarrow> tables_sorted T"
  by (simp add: tables_wf_def tables_sorted_def)

text \<open>A log from the empty state leaves tables a snapshot restores.\<close>

lemma log_installs:
  assumes "codec_ok S" and "raw_ok S" and "log_follows None (concat (map snd batches))"
    and "apply_log S batches empty_tables = Inr (T, rs)"
  shows "install_tables S (snapshot_payload_of S T) N = Inr (T\<lparr>sm_applied := Some (read_applied T)\<rparr>)"
    and "tables_wf S (applied_index (read_applied T)) T"
proof -
  have wf0: "tables_wf S (applied_index (read_applied empty_tables)) (empty_tables :: 'a tables)"
    by (simp add: empty_tables_def tables_wf_def)
  show wf: "tables_wf S (applied_index (read_applied T)) T"
    using apply_log_wf [OF assms(1) wf0 _ assms(4)] assms(3) by (simp add: read_applied_empty last_applied_default)
  have "rows_plain S (empty_tables :: 'a tables)" using assms(2) by (simp add: rows_plain_def empty_tables_def)
  then have "rows_plain S T"
    using plain.log [OF _ _ assms(4)] by (simp add: indices_from_def list_all_iff)
  moreover have "dedup_plain S (empty_tables :: 'a tables)" by (simp add: dedup_plain_def empty_tables_def)
  then have "dedup_plain S T" using dedup_plain_log [OF assms(2) _ assms(4)] by blast
  ultimately show "install_tables S (snapshot_payload_of S T) N = Inr (T\<lparr>sm_applied := Some (read_applied T)\<rparr>)"
    by (rule install_payload) (rule wf_sorted [OF wf])
qed

section \<open>Lemmas: files\<close>

lemma tget_tretain_kept: "(\<And>v. Q k v) \<Longrightarrow> tget (tretain Q t) k = tget t k"
  by (induction t) (auto simp: tretain_def)

lemma build_result:
  "build_snapshot S P show_leader recent s =
     (let payload = snapshot_payload_of S (ss_tables s);
          meta = \<lparr>sn_last_log_id = sp_last_applied_log payload, sn_last_membership = sp_last_membership payload,
                  sn_snapshot_id = snapshot_id_of show_leader (sp_last_applied_log payload) (ss_idx s + 1)\<rparr>;
          bytes = zstd_encode P (ser_payload P payload)
      in (commit_snapshot_row recent meta (write_snapshot_file meta bytes (s\<lparr>ss_idx := ss_idx s + 1\<rparr>)), Inr (meta, bytes)))"
  by (simp add: build_snapshot_def Let_def open_snapshot_file_def commit_snapshot_row_def gc_snapshot_files_def
      write_snapshot_file_def tget_tretain_kept)

lemma parse_built:
  "payload_codec_ok P \<Longrightarrow> parse_snapshot P (zstd_encode P (ser_payload P (snapshot_payload_of S T))) = Inr (snapshot_payload_of S T)"
  by (simp add: parse_snapshot_def payload_codec_ok_def snapshot_payload_of_def Let_def)

lemma tmp_not_own: "i \<noteq> TMP_PREFIX @ i"
  by (simp add: TMP_PREFIX_def)

text \<open>The steps, run to the end, are the operations.\<close>

lemma fold_remove: "fold disk_exec (map RemoveFile names) s = s\<lparr>ss_files := fold tdel names (ss_files s)\<rparr>"
  by (induction names arbitrary: s) simp_all

lemma steps_before_commit:
  "fold disk_exec [WriteTmp i part, WriteTmp i bytes, RenameTmp i] s =
     s\<lparr>ss_files := tput i bytes (tdel (TMP_PREFIX @ i) (tput (TMP_PREFIX @ i) bytes (tput (TMP_PREFIX @ i) part (ss_files s))))\<rparr>"
  by simp

lemma durable_write_tmp:
  assumes "row_durable P s" shows "row_durable P (disk_exec (WriteTmp i bytes) s)"
  using assms by (auto simp: row_durable_def TMP_PREFIX_def starts_with_iff split: option.splits)

lemma durable_rename:
  assumes "row_durable P s" and "\<not> isl (parse_snapshot P bytes)" and "tget (ss_files s) (TMP_PREFIX @ i) = Some bytes"
  shows "row_durable P (disk_exec (RenameTmp i) s)"
  using assms by (auto simp: row_durable_def TMP_PREFIX_def starts_with_iff split: option.splits)

lemma durable_commit:
  assumes "tget (ss_files s) (sn_snapshot_id meta) = Some bytes" and "\<not> isl (parse_snapshot P bytes)"
    and "\<not> starts_with TMP_PREFIX (sn_snapshot_id meta)"
  shows "row_durable P (disk_exec (CommitRow meta) s)" and "row_durable P (disk_exec (CommitInstall meta T) s)"
  using assms by (simp_all add: row_durable_def)

lemma durable_remove:
  assumes "row_durable P s" and "ss_row s = Some (meta, file)" and "file \<notin> set names"
  shows "row_durable P (fold disk_exec (map RemoveFile names) s)"
proof -
  have "tget (fold tdel names (ss_files s)) file = tget (ss_files s) file"
    using tget_fold_tdel [of "\<lambda>x. x" names "ss_files s" "file"] assms(3) by simp
  with assms(1,2) show ?thesis by (simp add: fold_remove row_durable_def)
qed

section \<open>Properties\<close>

lemma sample_payload_codec_ok: "payload_codec_ok sample_payload_codec"
  by (simp add: payload_codec_ok_def sample_payload_codec_def)

lemma doc_raw_ok: "raw_ok doc_seams"
  by (simp add: raw_ok_def plain_row_def doc_seams_def)

text \<open>C7. Catching up by snapshot is catching up by replication: a leader that has applied a log from the
  empty state builds a snapshot; a follower in any state at all that installs it then stands at the
  leader's applied position, and the rest of the log, in whatever batches it reaches the two, gets
  the same responses and leaves the same tables on both, expired dedup rows apart.\<close>

theorem snapshot_catches_up:
  assumes "codec_ok S" and "raw_ok S" and "payload_codec_ok P"
    and "log_follows None (concat (map snd before) @ concat (map snd after))"
    and "concat (map snd after) = concat (map snd after')"
    and "apply_log S before empty_tables = Inr (ss_tables leader, rs)"
    and "build_snapshot S P show_leader recent leader = (leader', Inr (meta, bytes))"
    and "snapshot_id_is_safe (sn_snapshot_id meta)"
  shows "\<exists>follower' acts T1 T2 rs'.
    install_snapshot S P recent' meta bytes follower = (follower', Inr acts) \<and>
    read_applied (ss_tables follower') = read_applied (ss_tables leader) \<and>
    apply_log S after (ss_tables leader) = Inr (T1, rs') \<and>
    apply_log S after' (ss_tables follower') = Inr (T2, rs') \<and>
    read_applied T1 = read_applied T2 \<and> same_live S (logical_clock_secs (read_applied T1)) T1 T2"
proof -
  let ?T = "ss_tables leader"
  let ?T' = "?T\<lparr>sm_applied := Some (read_applied ?T)\<rparr>"
  have prefix: "log_follows None (concat (map snd before))" using assms(4) by (rule log_follows_append)
  note T = log_installs [OF assms(1,2) prefix assms(6)]
  have parse: "parse_snapshot P bytes = Inr (snapshot_payload_of S ?T)"
    using assms(7) parse_built [OF assms(3), of S ?T] by (auto simp: build_result Let_def)
  obtain follower' acts where inst: "install_snapshot S P recent' meta bytes follower = (follower', Inr acts)"
    "ss_tables follower' = ?T'"
    using assms(8) parse T(1)
    by (auto simp: install_snapshot_def install_snapshot_blocking_def Let_def gc_snapshot_files_def)
  have rel: "batch_rel S (open_batch ?T) (open_batch ?T')"
    using T(2) by (simp add: batch_rel_def batch_wf_def open_batch_def same_live_def read_applied_def tables_wf_def
        marker_ok_def [abs_def])
  have "log_follows (last_applied_log (read_applied ?T)) (concat (map snd after))"
    using apply_log_follows [OF assms(6)] assms(4) by (simp add: read_applied_empty last_applied_default)
  then have follows: "log_follows (last_applied_log (bt_applied (open_batch ?T))) (concat (map snd after))"
    by (simp add: open_batch_def)
  obtain c T1 rs1 where 1: "apply_entries S False (concat (map snd after)) (open_batch ?T) = Inr c"
    "apply_log S after ?T = Inr (T1, rs1)" "batch_rel S c (open_batch T1)" "bt_responses c = rs1"
    using apply_log_rel [OF assms(1) batch_rel_refl [OF T(2)] follows] by (auto simp: open_batch_def)
  obtain c' T2 rs2 where 2: "apply_entries S False (concat (map snd after')) (open_batch ?T) = Inr c'"
    "apply_log S after' ?T' = Inr (T2, rs2)" "batch_rel S c' (open_batch T2)" "bt_responses c' = rs2"
    using apply_log_rel [OF assms(1) rel follows [unfolded assms(5)]] by (auto simp: open_batch_def)
  have "c' = c" using 1(1) 2(1) assms(5) by simp
  with 1 2 inst show ?thesis by (auto simp: batch_rel_def open_batch_def same_live_def read_applied_def)
qed

theorem snapshot_catches_up_witness:
  "\<exists>follower' acts T1 T2 rs'.
    install_snapshot doc_seams sample_payload_codec (\<lambda>_. False)
      (fst (projr (snd sample_build))) (snd (projr (snd sample_build))) (sample_store empty_tables) = (follower', Inr acts) \<and>
    read_applied (ss_tables follower') = read_applied (ss_tables (sample_store sample_leader_tables)) \<and>
    apply_log doc_seams sample_after (ss_tables (sample_store sample_leader_tables)) = Inr (T1, rs') \<and>
    apply_log doc_seams sample_after (ss_tables follower') = Inr (T2, rs') \<and>
    read_applied T1 = read_applied T2 \<and> same_live doc_seams (logical_clock_secs (read_applied T1)) T1 T2"
proof (rule snapshot_catches_up [OF doc_codec_ok doc_raw_ok sample_payload_codec_ok])
  show "log_follows None (concat (map snd sample_before) @ concat (map snd sample_after))" by code_simp
  have "\<not> isl (apply_log doc_seams sample_before empty_tables)" by code_simp
  then show "apply_log doc_seams sample_before empty_tables =
      Inr (ss_tables (sample_store sample_leader_tables), snd (projr (apply_log doc_seams sample_before empty_tables)))"
    by (auto simp: sample_store_def sample_leader_tables_def isl_def split: sum.splits)
  have "\<not> isl (snd sample_build)" by (simp add: sample_build_def build_result Let_def)
  then show "build_snapshot doc_seams sample_payload_codec sample_leader (\<lambda>_. True) (sample_store sample_leader_tables) =
      (fst sample_build, Inr (fst (projr (snd sample_build)), snd (projr (snd sample_build))))"
    by (simp add: sample_build_def [symmetric] prod_eq_iff) 
  show "snapshot_id_is_safe (sn_snapshot_id (fst (projr (snd sample_build))))" by code_simp
qed simp





text \<open>A row whose text is itself a JSON string is unwrapped on the way through the payload.\<close>

lemma string_row_unwrapped: "stored_row doc_seams (nested_row doc_seams (DocStr (DocJunk 0))) = Inr (DocJunk 0)"
  by code_simp

text \<open>C31. The id a build gives its snapshot is one an installation accepts, whenever the leader id prints as
  letters, digits and dashes.\<close>

theorem built_id_is_safe:
  assumes "\<And>l. list_all (\<lambda>c. is_ascii_alphanumeric c \<or> c = CHR ''-'' \<or> c = CHR ''_'') (show_leader l)"
  shows "snapshot_id_is_safe (snapshot_id_of show_leader last_log idx)"
proof -
  have "list_all (\<lambda>c. is_ascii_alphanumeric c \<or> c = CHR ''-'' \<or> c = CHR ''_'') (show_word w)" for w :: u64
    using show_nat_digits [of "unat w"] by (auto simp: list_all_iff is_ascii_alphanumeric_def)
  with assms show ?thesis
    by (simp add: snapshot_id_is_safe_def snapshot_id_of_def split: option.split)
qed

theorem built_id_is_safe_witness:
  "snapshot_id_is_safe (snapshot_id_of (\<lambda>_. ''T1-N1'') (Some \<lparr>lid_term = 1, lid_node = 1, lid_index = 7\<rparr>) 3)"
proof (rule built_id_is_safe)
  show "list_all (\<lambda>c. is_ascii_alphanumeric c \<or> c = CHR ''-'' \<or> c = CHR ''_'') ''T1-N1''" by code_simp
qed

end
