(* ===== verification/Sequencer.thy ===== *)
theory Sequencer
  imports Ring Control
begin

text \<open>
  Fleet-wide response cycling (\<^verbatim>\<open>crates/rift-cluster/src/stores/sequencer.rs\<close>): the per-port modes, a
  node's cursors, the decision routed to the owner of a cursor, and the reset fan-out. The core's
  \<^verbatim>\<open>RuleCycler\<close> is a parameter, and so is what the network does to a call. The specification is one
  node with one table of cursors.
\<close>

section \<open>Modes\<close>

datatype sequencing_mode = SeqLocal | SeqOwner

definition sequencing_from_imposter :: "imposter_config \<Rightarrow> sequencing_mode result" where
  "sequencing_from_imposter config =
     (case Option.bind (ic_rift config) rift_sequencing_mode of
        None \<Rightarrow> Inr SeqLocal
      | Some None \<Rightarrow> Inr SeqLocal
      | Some (Some mode) \<Rightarrow>
          if mode = ''local'' then Inr SeqLocal
          else if mode = ''owner'' then Inr SeqOwner
          else Inl (''sequencing.mode must be '' @ debug_str ''local'' @ '' or '' @ debug_str ''owner'' @ '', got '' @ debug_str mode))"

type_synonym seq_registry = "(u16, sequencing_mode) table"

definition mode_of :: "imposter_config \<Rightarrow> sequencing_mode" where
  "mode_of config = (case sequencing_from_imposter config of Inr m \<Rightarrow> m | Inl _ \<Rightarrow> SeqLocal)"

definition registry_apply_holding :: "imposter_config list \<Rightarrow> u16 list \<Rightarrow> seq_registry \<Rightarrow> seq_registry" where
  "registry_apply_holding desired held modes =
     fold (\<lambda>config t. case ic_port config of None \<Rightarrow> t | Some port \<Rightarrow> tput port (mode_of config) t) desired
       (tretain (\<lambda>port _. port \<in> set held) modes)"

definition registry_apply :: "imposter_config list \<Rightarrow> seq_registry \<Rightarrow> seq_registry" where
  "registry_apply desired modes = registry_apply_holding desired (List.map_filter ic_port desired) modes"

definition registry_set :: "u16 \<Rightarrow> imposter_config \<Rightarrow> seq_registry \<Rightarrow> seq_registry" where
  "registry_set port config modes = tput port (mode_of config) modes"

definition registry_remove :: "u16 \<Rightarrow> seq_registry \<Rightarrow> seq_registry" where
  "registry_remove port modes = tdel port modes"

definition registry_mode :: "seq_registry \<Rightarrow> u16 \<Rightarrow> sequencing_mode" where
  "registry_mode modes port = (case tget modes port of None \<Rightarrow> SeqLocal | Some m \<Rightarrow> m)"

section \<open>Cursors\<close>

type_synonym cursor_key = "u16 \<times> string \<times> string"

record 'c cycler_ops =
  cy_new :: 'c
  cy_advance :: "u32 \<Rightarrow> (u32 \<Rightarrow> u32 option) \<Rightarrow> 'c \<Rightarrow> u32 \<times> 'c"
  cy_peek :: "u32 \<Rightarrow> 'c \<Rightarrow> u32 \<times> 'c"

definition locally ::
  "('c, 'x) cycler_ops_scheme \<Rightarrow> cursor_key \<Rightarrow> nat \<Rightarrow> u32 list \<Rightarrow> bool \<Rightarrow> (cursor_key, 'c) table \<Rightarrow>
   nat \<times> (cursor_key, 'c) table" where
  "locally cy key response_count repeats advance cursors =
     (if response_count = 0 then (0, cursors)
      else let cycler = (case tget cursors key of None \<Rightarrow> cy_new cy | Some c \<Rightarrow> c);
               (index, cycler') =
                 (if advance
                  then cy_advance cy (of_nat response_count)
                         (\<lambda>i. if unat i < length repeats then Some (repeats ! unat i) else None) cycler
                  else cy_peek cy (of_nat response_count) cycler)
           in (min (unat index) (response_count - 1), tput key cycler' cursors))"

definition wire_key :: "cursor_key \<Rightarrow> string" where
  "wire_key key = (case key of (port, stub_key, scope) \<Rightarrow> show_word port @ [CHR 0x01] @ stub_key @ [CHR 0x01] @ scope)"

definition seq_owned_key :: "cursor_key \<Rightarrow> owned_key" where
  "seq_owned_key key = \<lparr>ok_class = ClassSequence, ok_key = wire_key key\<rparr>"

record 'c seq_node =
  sq_bridge :: bool
  sq_ring :: "ring option"
  sq_isolated :: bool
  sq_cursors :: "(cursor_key, 'c) table"
  sq_modes :: seq_registry

definition seq_view :: "('c, 'x) seq_node_scheme \<Rightarrow> ring option" where
  "seq_view n = (case sq_ring n of None \<Rightarrow> None | Some r \<Rightarrow> if rg_members r = [] then None else Some r)"

definition seq_forget :: "u16 \<Rightarrow> string option \<Rightarrow> 'c seq_node \<Rightarrow> 'c seq_node" where
  "seq_forget port stub_key n =
     n\<lparr>sq_cursors :=
         (case stub_key of
            None \<Rightarrow> tretain (\<lambda>(p, _, _) _. p \<noteq> port) (sq_cursors n)
          | Some k' \<Rightarrow> tretain (\<lambda>(p, k, _) _. p \<noteq> port \<or> k \<noteq> k') (sq_cursors n))\<rparr>"

section \<open>Decisions\<close>

record seq_req =
  sr_m_idx :: u64
  sr_key :: cursor_key
  sr_response_count :: nat
  sr_repeats :: "u32 list"

datatype seq_reply =
    ReplyIndex nat
  | ReplyFenced u64
  | ReplyNotOwner node_id
  | ReplyError string

definition owner_decide ::
  "(u8 list \<Rightarrow> u64 \<Rightarrow> u64) \<Rightarrow> ('c, 'x) cycler_ops_scheme \<Rightarrow> node_id \<Rightarrow> seq_req \<Rightarrow> bool \<Rightarrow> 'c seq_node \<Rightarrow>
   seq_reply \<times> 'c seq_node" where
  "owner_decide xxh64 cy me req advance n =
     (case seq_view n of
        None \<Rightarrow> (ReplyError ''sequencer: no applied membership yet'', n)
      | Some r \<Rightarrow>
          if sr_m_idx req \<noteq> rg_m_idx r then (ReplyFenced (rg_m_idx r), n)
          else case owner xxh64 r (seq_owned_key (sr_key req)) of
            None \<Rightarrow> (ReplyError ''sequencer: ring has no members'', n)
          | Some o' \<Rightarrow>
              if o' \<noteq> me then (ReplyNotOwner o', n)
              else if sq_isolated n then (ReplyError ''sequencer: owner is isolated from the cluster'', n)
              else let (index, cursors) = locally cy (sr_key req) (sr_response_count req) (sr_repeats req) advance (sq_cursors n)
                   in (ReplyIndex index, n\<lparr>sq_cursors := cursors\<rparr>))"

datatype decision_path = PathOwner | PathForward | PathLocal | PathFallback

text \<open>
  What becomes of one call. The client retries a lost answer, so the peer may have run the handler
  several times: \<open>Answered n\<close> ran it \<open>n\<close> times before the run whose answer came back, and
  \<open>Unanswered n\<close> ran it \<open>n\<close> times with no answer. The runs of one call are taken as one step.
\<close>

datatype hop = Answered nat | Unanswered nat

fun hop_runs :: "hop \<Rightarrow> nat" where
  "hop_runs (Answered n) = Suc n"
| "hop_runs (Unanswered n) = n"

fun run_handler :: "nat \<Rightarrow> ('s \<Rightarrow> 'r \<times> 's) \<Rightarrow> 's \<Rightarrow> 'r option \<times> 's" where
  "run_handler 0 h s = (None, s)"
| "run_handler (Suc n) h s = (let (_, s') = run_handler n h s; (r, s'') = h s' in (Some r, s''))"

definition call_peer :: "hop \<Rightarrow> ('s \<Rightarrow> 'r \<times> 's) \<Rightarrow> 's \<Rightarrow> 'r option \<times> 's" where
  "call_peer hop h s =
     (let (r, s') = run_handler (hop_runs hop) h s
      in (case hop of Answered _ \<Rightarrow> r | Unanswered _ \<Rightarrow> None, s'))"

type_synonym 'c seq_fleet = "node_id \<Rightarrow> 'c seq_node"

definition owner_index ::
  "(u8 list \<Rightarrow> u64 \<Rightarrow> u64) \<Rightarrow> ('c, 'x) cycler_ops_scheme \<Rightarrow> hop \<Rightarrow> node_id \<Rightarrow> cursor_key \<Rightarrow> nat \<Rightarrow> u32 list \<Rightarrow> bool \<Rightarrow>
   'c seq_fleet \<Rightarrow> (nat \<times> decision_path) option \<times> 'c seq_fleet" where
  "owner_index xxh64 cy hop me key response_count repeats advance fleet =
     (if \<not> sq_bridge (fleet me) then (None, fleet)
      else case seq_view (fleet me) of
        None \<Rightarrow> (None, fleet)
      | Some r \<Rightarrow>
          (case owner xxh64 r (seq_owned_key key) of
             None \<Rightarrow> (None, fleet)
           | Some o' \<Rightarrow>
               if o' = me
               then (if sq_isolated (fleet me) then (None, fleet)
                     else let (index, cursors) = locally cy key response_count repeats advance (sq_cursors (fleet me))
                          in (Some (index, PathOwner), fleet(me := (fleet me)\<lparr>sq_cursors := cursors\<rparr>)))
               else let req = \<lparr>sr_m_idx = rg_m_idx r, sr_key = key, sr_response_count = response_count, sr_repeats = repeats\<rparr>;
                        (reply, n) = call_peer hop (owner_decide xxh64 cy o' req advance) (fleet o')
                    in (case reply of
                          Some (ReplyIndex index) \<Rightarrow> if index < response_count then Some (index, PathForward) else None
                        | _ \<Rightarrow> None,
                        fleet(o' := n))))"

definition seq_route ::
  "(u8 list \<Rightarrow> u64 \<Rightarrow> u64) \<Rightarrow> ('c, 'x) cycler_ops_scheme \<Rightarrow> hop \<Rightarrow> node_id \<Rightarrow> cursor_key \<Rightarrow> nat \<Rightarrow> u32 list \<Rightarrow> bool \<Rightarrow>
   'c seq_fleet \<Rightarrow> (nat \<times> decision_path) \<times> 'c seq_fleet" where
  "seq_route xxh64 cy hop me key response_count repeats advance fleet =
     (let local_answer = (\<lambda>path fleet.
            let (index, cursors) = locally cy key response_count repeats advance (sq_cursors (fleet me))
            in ((index, path), fleet(me := (fleet me)\<lparr>sq_cursors := cursors\<rparr>)))
      in if registry_mode (sq_modes (fleet me)) (fst key) \<noteq> SeqOwner then local_answer PathLocal fleet
         else case owner_index xxh64 cy hop me key response_count repeats advance fleet of
           (Some answer, fleet') \<Rightarrow> (answer, fleet')
         | (None, fleet') \<Rightarrow> local_answer PathFallback fleet')"

section \<open>Resets\<close>

definition RESET_MAX_ATTEMPTS :: nat where "RESET_MAX_ATTEMPTS = 5"

text \<open>
  One delivery attempt: the peer dropped the cursors, it has left the membership, the call failed
  (the flag says whether the peer had run the handler all the same), or the task panicked.
\<close>

datatype attempt = AttemptDone | AttemptNotAMember | AttemptFailed bool | AttemptPanicked

text \<open>The attempts made on one peer, at most \<open>left\<close> of them, from number \<open>i\<close> on.\<close>

fun attempts_made :: "nat \<Rightarrow> nat \<Rightarrow> (nat \<Rightarrow> attempt) \<Rightarrow> attempt list" where
  "attempts_made i 0 send = []"
| "attempts_made i (Suc left) send =
     send i # (case send i of AttemptFailed _ \<Rightarrow> attempts_made (Suc i) left send | _ \<Rightarrow> [])"

abbreviation peer_attempts :: "(nat \<Rightarrow> attempt) \<Rightarrow> attempt list" where
  "peer_attempts send \<equiv> attempts_made 1 RESET_MAX_ATTEMPTS send"

fun settles :: "attempt \<Rightarrow> bool" where
  "settles AttemptDone \<longleftrightarrow> True"
| "settles AttemptNotAMember \<longleftrightarrow> True"
| "settles (AttemptFailed _) \<longleftrightarrow> False"
| "settles AttemptPanicked \<longleftrightarrow> False"

fun drops_cursors :: "attempt \<Rightarrow> bool" where
  "drops_cursors AttemptDone \<longleftrightarrow> True"
| "drops_cursors AttemptNotAMember \<longleftrightarrow> False"
| "drops_cursors (AttemptFailed handled) \<longleftrightarrow> handled"
| "drops_cursors AttemptPanicked \<longleftrightarrow> False"

definition deliver_reset :: "node_id list \<Rightarrow> (node_id \<Rightarrow> nat \<Rightarrow> attempt) \<Rightarrow> node_id list" where
  "deliver_reset peers send = sort (filter (\<lambda>peer. \<not> list_ex settles (peer_attempts (send peer))) peers)"

text \<open>
  A reset on node \<open>me\<close>. \<open>budget\<close> is the fan-out running out of time: with \<open>Some k\<close> the first \<open>k peer\<close>
  attempts on a peer were made and nothing is reported. The fleet after the fan-out, and its report.
\<close>

definition reset_scope ::
  "bool \<Rightarrow> (node_id \<Rightarrow> nat) option \<Rightarrow> (node_id \<Rightarrow> nat \<Rightarrow> attempt) \<Rightarrow> node_id \<Rightarrow> u16 \<Rightarrow> string option \<Rightarrow> 'c seq_fleet \<Rightarrow>
   'c seq_fleet \<times> node_id list option" where
  "reset_scope applying_committed_op budget send me port stub_key fleet =
     (let fleet1 = fleet(me := seq_forget port stub_key (fleet me))
      in if applying_committed_op \<or> \<not> sq_bridge (fleet me) then (fleet1, None)
         else case seq_view (fleet me) of
           None \<Rightarrow> (fleet1, None)
         | Some r \<Rightarrow>
             (let peers = filter (\<lambda>i. i \<noteq> me) (rg_members r);
                  made = (\<lambda>peer. case budget of
                            None \<Rightarrow> peer_attempts (send peer)
                          | Some k \<Rightarrow> take (k peer) (peer_attempts (send peer)))
              in if peers = [] then (fleet1, None)
                 else (\<lambda>i. if i \<in> set peers \<and> list_ex drops_cursors (made i)
                           then seq_forget port stub_key (fleet1 i) else fleet1 i,
                       case budget of None \<Rightarrow> Some (deliver_reset peers send) | Some _ \<Rightarrow> None)))"

section \<open>Specification: one cursor table\<close>

record seq_call =
  sc_node :: node_id
  sc_key :: cursor_key
  sc_count :: nat
  sc_repeats :: "u32 list"
  sc_advance :: bool

fun fleet_run ::
  "(u8 list \<Rightarrow> u64 \<Rightarrow> u64) \<Rightarrow> ('c, 'x) cycler_ops_scheme \<Rightarrow> seq_call list \<Rightarrow> 'c seq_fleet \<Rightarrow>
   (nat \<times> decision_path) list \<times> 'c seq_fleet" where
  "fleet_run xxh64 cy [] fleet = ([], fleet)"
| "fleet_run xxh64 cy (c # cs) fleet =
     (let (answer, fleet') = seq_route xxh64 cy (Answered 0) (sc_node c) (sc_key c) (sc_count c) (sc_repeats c) (sc_advance c) fleet;
          (answers, fleet'') = fleet_run xxh64 cy cs fleet'
      in (answer # answers, fleet''))"

fun single_run ::
  "('c, 'x) cycler_ops_scheme \<Rightarrow> seq_call list \<Rightarrow> (cursor_key, 'c) table \<Rightarrow> nat list \<times> (cursor_key, 'c) table" where
  "single_run cy [] t = ([], t)"
| "single_run cy (c # cs) t =
     (let (index, t') = locally cy (sc_key c) (sc_count c) (sc_repeats c) (sc_advance c) t;
          (indices, t'') = single_run cy cs t'
      in (index # indices, t''))"

text \<open>Every member sees the ring \<open>r\<close>, is bound and is not isolated.\<close>

definition in_agreement :: "ring \<Rightarrow> 'c seq_fleet \<Rightarrow> bool" where
  "in_agreement r fleet \<longleftrightarrow> rg_members r \<noteq> [] \<and>
     list_all (\<lambda>m. sq_bridge (fleet m) \<and> sq_ring (fleet m) = Some r \<and> \<not> sq_isolated (fleet m)) (rg_members r)"

text \<open>A call at a member, for a stub with responses, on a port in owner mode there.\<close>

definition owner_mode_call :: "ring \<Rightarrow> 'c seq_fleet \<Rightarrow> seq_call \<Rightarrow> bool" where
  "owner_mode_call r fleet c \<longleftrightarrow> sc_node c \<in> set (rg_members r) \<and> 0 < sc_count c \<and>
     registry_mode (sq_modes (fleet (sc_node c))) (fst (sc_key c)) = SeqOwner"

text \<open>The cursors of the fleet, each read at its owner, are those of the table.\<close>

definition owners_hold ::
  "(u8 list \<Rightarrow> u64 \<Rightarrow> u64) \<Rightarrow> ring \<Rightarrow> 'c seq_fleet \<Rightarrow> (cursor_key, 'c) table \<Rightarrow> bool" where
  "owners_hold xxh64 r fleet t \<longleftrightarrow>
     (\<forall>key. tget t key = (case owner xxh64 r (seq_owned_key key) of None \<Rightarrow> None | Some m \<Rightarrow> tget (sq_cursors (fleet m)) key))"

text \<open>An instance to evaluate on: a cycler that counts, and two members that own every cursor at node 2.\<close>

definition counting_cycler :: "u32 cycler_ops" where
  "counting_cycler = \<lparr>cy_new = 0, cy_advance = (\<lambda>n _ c. (c mod n, c + 1)), cy_peek = (\<lambda>n c. (c mod n, c))\<rparr>"

definition pair_fleet :: "u32 seq_fleet" where
  "pair_fleet = (\<lambda>_. \<lparr>sq_bridge = True, sq_ring = Some (ring_new [1, 2] 7), sq_isolated = False,
                       sq_cursors = [], sq_modes = [(80, SeqOwner)]\<rparr>)"

section \<open>Lemmas: modes\<close>

lemma tget_registry_fold:
  assumes "distinct (List.map_filter ic_port desired)"
  shows "tget (fold (\<lambda>config t. case ic_port config of None \<Rightarrow> t | Some port \<Rightarrow> tput port (mode_of config) t) desired t) p =
    (case find (\<lambda>config. ic_port config = Some p) desired of None \<Rightarrow> tget t p | Some config \<Rightarrow> Some (mode_of config))"
  using assms
proof (induction desired arbitrary: t)
  case (Cons config desired)
  have out: "find (\<lambda>c. ic_port c = Some p) desired = None" if "ic_port config = Some p"
    using Cons.prems that by (force simp: find_None_iff List.map_filter_def)
  have "distinct (List.map_filter ic_port desired)"
    using Cons.prems by (auto simp: List.map_filter_def split: option.splits if_splits)
  from Cons.IH [OF this] out show ?case
    by (auto split: option.splits)
qed simp

text \<open>
  A whole-set drive makes the registry exact: a port with a config in the set takes that config's
  mode, a port the tables name whose config is not in the set keeps the mode it had, and every other
  port is forgotten and reads as local.
\<close>

theorem registry_follows_configs:
  assumes "twf modes" and "distinct (List.map_filter ic_port desired)"
  shows "registry_mode (registry_apply_holding desired held modes) port =
    (case find (\<lambda>config. ic_port config = Some port) desired of
       Some config \<Rightarrow> mode_of config
     | None \<Rightarrow> if port \<in> set held then registry_mode modes port else SeqLocal)"
  using assms
  by (simp add: registry_mode_def registry_apply_holding_def tget_registry_fold tget_tretain split: option.split)

theorem registry_follows_configs_witness:
  "registry_mode (registry_apply_holding [] [80] [(80, SeqOwner), (81, SeqOwner)]) 80 = SeqOwner \<and>
   registry_mode (registry_apply_holding [] [80] [(80, SeqOwner), (81, SeqOwner)]) 81 = SeqLocal"
  using registry_follows_configs [of "[(80, SeqOwner), (81, SeqOwner)]" "[]" "[80]" 80]
    registry_follows_configs [of "[(80, SeqOwner), (81, SeqOwner)]" "[]" "[80]" 81]
  by (simp add: registry_mode_def twf_Cons List.map_filter_def)

section \<open>Lemmas: cursors\<close>

lemma locally_bound: "0 < n \<Longrightarrow> locally cy key n reps adv t = (i, t') \<Longrightarrow> i < n"
  by (auto simp: locally_def Let_def split: prod.splits if_splits)

lemma locally_agrees:
  assumes "tget t key = tget t' key"
  shows "fst (locally cy key n reps adv t) = fst (locally cy key n reps adv t')"
    and "tget (snd (locally cy key n reps adv t)) key = tget (snd (locally cy key n reps adv t')) key"
  using assms by (auto simp: locally_def Let_def split: prod.splits)

lemma locally_other: "k \<noteq> key \<Longrightarrow> tget (snd (locally cy key n reps adv t)) k = tget t k"
  by (auto simp: locally_def Let_def split: prod.splits)

lemma owner_member: "owner xxh64 r key = Some m \<Longrightarrow> m \<in> set (rg_members r)"
  by (simp add: owner_def hrw.max_Some)

lemma owner_exists: "rg_members r \<noteq> [] \<Longrightarrow> \<exists>m. owner xxh64 r key = Some m"
  unfolding owner_def by (metis hrw.max_None not_None_eq)

lemma agreement_view:
  assumes "in_agreement r fleet" "m \<in> set (rg_members r)"
  shows "sq_bridge (fleet m)" "seq_view (fleet m) = Some r" "\<not> sq_isolated (fleet m)"
  using assms by (auto simp: in_agreement_def seq_view_def list_all_iff)

section \<open>Lemmas: decisions\<close>

lemma owner_decides:
  assumes "in_agreement r fleet" "owner xxh64 r (seq_owned_key (sr_key req)) = Some m" "sr_m_idx req = rg_m_idx r"
  shows "owner_decide xxh64 cy m req adv (fleet m) =
    (let (i, t) = locally cy (sr_key req) (sr_response_count req) (sr_repeats req) adv (sq_cursors (fleet m))
     in (ReplyIndex i, (fleet m)\<lparr>sq_cursors := t\<rparr>))"
  using agreement_view [OF assms(1) owner_member [OF assms(2)]] assms by (simp add: owner_decide_def)

lemma call_peer_once [simp]: "call_peer (Answered 0) h s = (Some (fst (h s)), snd (h s))"
  by (simp add: call_peer_def Let_def split: prod.splits)

lemma route_at_owner:
  assumes agree: "in_agreement r fleet" and call: "owner_mode_call r fleet c"
    and own: "owner xxh64 r (seq_owned_key (sc_key c)) = Some m"
    and step: "locally cy (sc_key c) (sc_count c) (sc_repeats c) (sc_advance c) (sq_cursors (fleet m)) = (i, t)"
  shows "seq_route xxh64 cy (Answered 0) (sc_node c) (sc_key c) (sc_count c) (sc_repeats c) (sc_advance c) fleet =
    ((i, if sc_node c = m then PathOwner else PathForward), fleet(m := (fleet m)\<lparr>sq_cursors := t\<rparr>))"
proof -
  have me: "sc_node c \<in> set (rg_members r)" "0 < sc_count c"
    and mode: "registry_mode (sq_modes (fleet (sc_node c))) (fst (sc_key c)) = SeqOwner"
    using call by (auto simp: owner_mode_call_def)
  have "i < sc_count c" using locally_bound [OF me(2) step] .
  then show ?thesis
    using agreement_view [OF agree me(1)] own step mode owner_decides [OF agree, of xxh64 _ m cy]
    by (auto simp: seq_route_def owner_index_def)
qed

lemma keeps_agreement:
  "in_agreement r fleet \<Longrightarrow> in_agreement r (fleet(m := (fleet m)\<lparr>sq_cursors := t\<rparr>))"
  by (auto simp: in_agreement_def list_all_iff)

lemma keeps_mode_call:
  "owner_mode_call r (fleet(m := (fleet m)\<lparr>sq_cursors := t\<rparr>)) c \<longleftrightarrow> owner_mode_call r fleet c"
  by (auto simp: owner_mode_call_def)

lemma keeps_owners_hold:
  assumes hold: "owners_hold xxh64 r fleet t" and own: "owner xxh64 r (seq_owned_key key) = Some m"
  shows "owners_hold xxh64 r (fleet(m := (fleet m)\<lparr>sq_cursors := snd (locally cy key n reps adv (sq_cursors (fleet m)))\<rparr>))
           (snd (locally cy key n reps adv t))"
  unfolding owners_hold_def
proof
  fix k
  have same: "tget t k' = (case owner xxh64 r (seq_owned_key k') of None \<Rightarrow> None | Some m \<Rightarrow> tget (sq_cursors (fleet m)) k')" for k'
    using hold unfolding owners_hold_def by (rule spec)
  have key: "tget t key = tget (sq_cursors (fleet m)) key" using same [of key] own by simp
  show "tget (snd (locally cy key n reps adv t)) k =
    (case owner xxh64 r (seq_owned_key k) of None \<Rightarrow> None
     | Some m' \<Rightarrow> tget (sq_cursors ((fleet(m := (fleet m)\<lparr>sq_cursors := snd (locally cy key n reps adv (sq_cursors (fleet m)))\<rparr>)) m')) k)"
  proof (cases "k = key")
    case True
    with own locally_agrees(2) [OF key] show ?thesis by simp
  next
    case False
    with same [of k] show ?thesis by (simp add: locally_other split: option.split)
  qed
qed

text \<open>
  C9. Owner mode makes the fleet one sequencer. While every member sees the same ring, is bound, is not
  isolated and is answered, any interleaving of calls on any stubs at any members returns the very
  indices one node with one table of cursors would return, and none of them by the local fallback.
\<close>

theorem fleet_cycles_as_one:
  assumes "in_agreement r fleet" and "list_all (owner_mode_call r fleet) cs" and "owners_hold xxh64 r fleet t"
  shows "map fst (fst (fleet_run xxh64 cy cs fleet)) = fst (single_run cy cs t) \<and>
    owners_hold xxh64 r (snd (fleet_run xxh64 cy cs fleet)) (snd (single_run cy cs t)) \<and>
    set (map snd (fst (fleet_run xxh64 cy cs fleet))) \<subseteq> {PathOwner, PathForward}"
  using assms
proof (induction cs arbitrary: fleet t)
  case (Cons c cs)
  obtain m where own: "owner xxh64 r (seq_owned_key (sc_key c)) = Some m"
    using owner_exists [of r xxh64 "seq_owned_key (sc_key c)"] Cons.prems(1) by (auto simp: in_agreement_def)
  let ?step = "locally cy (sc_key c) (sc_count c) (sc_repeats c) (sc_advance c)"
  let ?fleet = "fleet(m := (fleet m)\<lparr>sq_cursors := snd (?step (sq_cursors (fleet m)))\<rparr>)"
  have "tget t (sc_key c) = tget (sq_cursors (fleet m)) (sc_key c)"
    using spec [OF Cons.prems(3) [unfolded owners_hold_def], of "sc_key c"] own by simp
  then have index: "fst (?step t) = fst (?step (sq_cursors (fleet m)))" by (rule locally_agrees(1))
  have route: "seq_route xxh64 cy (Answered 0) (sc_node c) (sc_key c) (sc_count c) (sc_repeats c) (sc_advance c) fleet =
      ((fst (?step (sq_cursors (fleet m))), if sc_node c = m then PathOwner else PathForward), ?fleet)"
    by (rule route_at_owner [OF Cons.prems(1) _ own]) (use Cons.prems(2) in simp_all)
  have "list_all (owner_mode_call r ?fleet) cs"
    using Cons.prems(2) by (simp add: list_all_iff keeps_mode_call)
  from Cons.IH [OF keeps_agreement [OF Cons.prems(1)] this keeps_owners_hold [OF Cons.prems(3) own]]
  show ?case using index by (simp add: route case_prod_beta Let_def del: fun_upd_apply)
qed simp

theorem fleet_cycles_as_one_witness:
  "map fst (fst (fleet_run (\<lambda>_ _. 0) counting_cycler
     [\<lparr>sc_node = 1, sc_key = (80, ''s'', ''''), sc_count = 2, sc_repeats = [], sc_advance = True\<rparr>,
      \<lparr>sc_node = 2, sc_key = (80, ''s'', ''''), sc_count = 2, sc_repeats = [], sc_advance = True\<rparr>] pair_fleet)) = [0, 1]"
proof -
  let ?cs = "[\<lparr>sc_node = 1, sc_key = (80, ''s'', ''''), sc_count = 2, sc_repeats = [], sc_advance = True\<rparr>,
      \<lparr>sc_node = 2, sc_key = (80, ''s'', ''''), sc_count = 2, sc_repeats = [], sc_advance = True\<rparr>] :: seq_call list"
  have "in_agreement (ring_new [1, 2] 7) pair_fleet" "list_all (owner_mode_call (ring_new [1, 2] 7) pair_fleet) ?cs"
    by code_simp+
  moreover have "owners_hold (\<lambda>_ _. 0) (ring_new [1, 2] 7) pair_fleet []"
    by (simp add: owners_hold_def pair_fleet_def split: option.split)
  moreover have "fst (single_run counting_cycler ?cs []) = [0, 1]" by code_simp
  ultimately show ?thesis
    using fleet_cycles_as_one [of "ring_new [1, 2] 7" pair_fleet ?cs "\<lambda>_ _. 0" "[]" counting_cycler] by simp
qed

text \<open>
  The client's retry of a lost answer is a second advance at the owner, so the index before the one
  returned is served to nobody, and the answer is one of the fleet's with nothing to flag it.
\<close>

lemma retried_advance_skips:
  "fst (seq_route (\<lambda>_ _. 0) counting_cycler (Answered 1) 1 (80, ''s'', '''') 3 [] True pair_fleet) = (1, PathForward)"
  by code_simp

text \<open>
  C32. Whatever the network does, a decision for a stub with responses is an index into them: every
  failure of the fleet ends in the node's own cursor, never in an error or an index out of range.
\<close>

theorem route_always_answers:
  assumes "0 < response_count"
  shows "fst (fst (seq_route xxh64 cy hop me key response_count repeats advance fleet)) < response_count"
  using assms
  by (auto simp: seq_route_def owner_index_def Let_def dest: locally_bound
      split: prod.splits option.splits if_splits seq_reply.splits)

theorem route_always_answers_witness:
  "fst (fst (seq_route (\<lambda>_ _. 0) counting_cycler (Unanswered 2) 1 (80, ''s'', '''') 3 [] True pair_fleet)) < 3"
  using route_always_answers [of 3 "\<lambda>_ _. 0" counting_cycler "Unanswered 2" 1 "(80, ''s'', '''')" "[]" True pair_fleet] by simp

text \<open>
  An owner that does not answer a request with an index has not moved a cursor: the request of
  another membership is fenced, the one for another owner's key is named as misrouted, and an
  isolated owner declines.
\<close>

theorem decline_moves_nothing:
  assumes "owner_decide xxh64 cy me req advance n = (reply, n')"
    and "(case seq_view n of None \<Rightarrow> True
          | Some r \<Rightarrow> sr_m_idx req \<noteq> rg_m_idx r \<or> owner xxh64 r (seq_owned_key (sr_key req)) \<noteq> Some me \<or> sq_isolated n)"
  shows "n' = n \<and> (\<forall>index. reply \<noteq> ReplyIndex index)"
  using assms by (auto simp: owner_decide_def split: option.splits if_splits prod.splits)

theorem decline_moves_nothing_witness:
  "snd (owner_decide (\<lambda>_ _. 0) counting_cycler 2
     \<lparr>sr_m_idx = 6, sr_key = (80, ''s'', ''''), sr_response_count = 3, sr_repeats = []\<rparr> True (pair_fleet 2)) = pair_fleet 2"
proof -
  let ?req = "\<lparr>sr_m_idx = 6, sr_key = (80, ''s'', ''''), sr_response_count = 3, sr_repeats = []\<rparr> :: seq_req"
  have "case seq_view (pair_fleet 2) of None \<Rightarrow> True
        | Some r \<Rightarrow> sr_m_idx ?req \<noteq> rg_m_idx r \<or> owner (\<lambda>_ _. 0) r (seq_owned_key (sr_key ?req)) \<noteq> Some 2 \<or> sq_isolated (pair_fleet 2)"
    by code_simp
  from decline_moves_nothing [OF surjective_pairing this, of counting_cycler True] show ?thesis by simp
qed

section \<open>Lemmas: ring keys\<close>

lemma split_at_mark:
  assumes "a @ c # b = a' @ c # b'" and "c \<notin> set a" and "c \<notin> set a'"
  shows "a = a' \<and> b = b'"
  using assms
proof (induction a arbitrary: a')
  case Nil
  then show ?case by (cases a') auto
next
  case (Cons x a)
  then show ?case by (cases a') auto
qed

lemma mark_not_in_port: "CHR 0x01 \<notin> set (show_nat n)"
proof
  assume "CHR 0x01 \<in> set (show_nat n)"
  then have "is_ascii_digit (CHR 0x01)" using show_nat_digits [of n] by (simp add: list_all_iff)
  then show False by (simp add: is_ascii_digit_def)
qed

text \<open>
  Two cursors have the same ring key only if they are the same cursor, as long as no stub key
  holds the separator; the scope may hold anything.
\<close>

theorem wire_key_inj:
  assumes "wire_key (port, stub, scope) = wire_key (port', stub', scope')"
    and "CHR 0x01 \<notin> set stub" and "CHR 0x01 \<notin> set stub'"
  shows "port = port' \<and> stub = stub' \<and> scope = scope'"
proof -
  have "show_word port @ CHR 0x01 # (stub @ CHR 0x01 # scope) = show_word port' @ CHR 0x01 # (stub' @ CHR 0x01 # scope')"
    using assms(1) by (simp add: wire_key_def)
  from split_at_mark [OF this mark_not_in_port mark_not_in_port]
  have "port = port'" and rest: "stub @ CHR 0x01 # scope = stub' @ CHR 0x01 # scope'" by (simp_all add: word_unat_eq_iff)
  with split_at_mark [OF rest assms(2,3)] show ?thesis by simp
qed

theorem wire_key_inj_witness:
  "wire_key (80, ''s'', ''x'') = wire_key (80, ''s'', ''x'') \<and> (80 :: u16) = 80"
  using wire_key_inj [of 80 "''s''" "''x''" 80 "''s''" "''x''"] by simp

section \<open>Lemmas: resets\<close>

lemma settled_dropped:
  assumes "list_ex settles (attempts_made i left send)" and "\<forall>j. send j \<noteq> AttemptNotAMember"
  shows "list_ex drops_cursors (attempts_made i left send)"
  using assms
proof (induction i left send rule: attempts_made.induct)
  case (2 i left send)
  then show ?case by (cases "send i") auto
qed simp

lemma forget_scope:
  assumes "twf (sq_cursors n)"
  shows "tget (sq_cursors (seq_forget port stub n)) (port', stub', scope) =
    (if port' = port \<and> (case stub of None \<Rightarrow> True | Some s \<Rightarrow> stub' = s) then None
     else tget (sq_cursors n) (port', stub', scope))"
  using assms by (auto simp: seq_forget_def tget_tretain split: option.splits)



end
