(* ===== verification/EngineDrive.thy ===== *)
theory EngineDrive
  imports FleetSpec Shard Sequencer
begin

text \<open>
  The projection of the applied tables onto a node's local engine
  (\<^verbatim>\<open>crates/rift-cluster/src/raft/store.rs\<close>, \<^verbatim>\<open>drive_engine\<close> and what it calls, and the flow-state
  clears of \<^verbatim>\<open>stores/flow.rs\<close> it makes). The engine is the core's \<^verbatim>\<open>ImposterManager\<close>, outside this
  repository: its operations are the record \<open>engine_ops\<close>, and what the cluster relies on of them is
  \<open>engine_contract\<close>. The specification is the view of the tables: the config a port must serve.
\<close>

section \<open>The engine\<close>

datatype engine_error = ImposterNotFound u16 | EngineError string

record live_imposter =
  li_config :: imposter_config
  li_stubs :: "stub list"
  li_bound :: bool

record apply_report =
  rp_created :: "u16 list"
  rp_replaced :: "u16 list"
  rp_stub_patched :: "u16 list"
  rp_toggled :: "u16 list"
  rp_deleted :: "u16 list"
  rp_failed :: "(u16 \<times> engine_error) list"

definition empty_report :: apply_report where
  "empty_report = \<lparr>rp_created = [], rp_replaced = [], rp_stub_patched = [], rp_toggled = [], rp_deleted = [], rp_failed = []\<rparr>"

type_synonym ('e, 'r) engine_call = "'e \<Rightarrow> (engine_error + 'r) \<times> 'e"

record 'e engine_ops =
  en_error_text :: "engine_error \<Rightarrow> string"
  en_get :: "'e \<Rightarrow> u16 \<Rightarrow> engine_error + live_imposter"
  en_list :: "'e \<Rightarrow> live_imposter list"
  en_apply_config :: "imposter_config list \<Rightarrow> ('e, apply_report) engine_call"
  en_apply_one :: "imposter_config \<Rightarrow> ('e, apply_report) engine_call"
  en_delete :: "u16 \<Rightarrow> ('e, unit) engine_call"
  en_set_enabled :: "u16 \<Rightarrow> bool \<Rightarrow> ('e, unit) engine_call"
  en_add_stub :: "u16 \<Rightarrow> stub \<Rightarrow> nat option \<Rightarrow> ('e, unit) engine_call"
  en_replace_stub_by_id :: "u16 \<Rightarrow> string \<Rightarrow> stub \<Rightarrow> ('e, unit) engine_call"
  en_delete_stub_by_id :: "u16 \<Rightarrow> string \<Rightarrow> ('e, unit) engine_call"
  en_delete_stub :: "u16 \<Rightarrow> nat \<Rightarrow> ('e, unit) engine_call"
  en_move_stub :: "u16 \<Rightarrow> nat \<Rightarrow> nat \<Rightarrow> ('e, unit) engine_call"
  en_append_responses :: "u16 \<Rightarrow> string \<Rightarrow> stub_response list \<Rightarrow> ('e, unit) engine_call"
  en_replace_stub :: "u16 \<Rightarrow> nat \<Rightarrow> stub \<Rightarrow> ('e, unit) engine_call"
  en_replace_stubs :: "u16 \<Rightarrow> stub list \<Rightarrow> ('e, unit) engine_call"
  en_restart_runtime_state :: "u16 \<Rightarrow> ('e, unit) engine_call"
  en_clear_proxy_responses :: "u16 \<Rightarrow> ('e, unit) engine_call"

section \<open>Flow state by imposter\<close>

definition parse_u16 :: "string \<Rightarrow> u16 option" where
  "parse_u16 s =
     (let digits = (case s of c # rest \<Rightarrow> if c = CHR ''+'' then rest else s | [] \<Rightarrow> [])
      in if digits \<noteq> [] \<and> list_all is_ascii_digit digits \<and> dec_val digits < 2 ^ 16
         then Some (of_nat (dec_val digits)) else None)"

definition imposter_port :: "string \<Rightarrow> u16 option" where
  "imposter_port flow_id =
     Option.bind (strip_prefix ''i'' flow_id)
       (\<lambda>rest. Option.bind (split_once '':'' rest) (\<lambda>(port, _). parse_u16 port))"

definition imposter_ports_held :: "shard \<Rightarrow> u16 list" where
  "imposter_ports_held sh = remdups (List.map_filter imposter_port (flow_ids sh))"

definition clear_imposter_scopes :: "u16 list \<Rightarrow> shard \<Rightarrow> shard" where
  "clear_imposter_scopes ports sh =
     (if ports = [] then sh
      else fold (\<lambda>flow_id. shard_clear_flow flow_id DAsync)
             (filter (\<lambda>flow_id. case imposter_port flow_id of None \<Rightarrow> False | Some port \<Rightarrow> port \<in> set ports) (flow_ids sh)) sh)"

section \<open>The node's drive state\<close>

text \<open>The handles a state machine may have been given, and the node status its drives keep. The front
  door's compiled table is the table it was compiled from.\<close>

record 'e drive =
  dr_engine :: "'e option"
  dr_sequencing :: "seq_registry option"
  dr_flow_net :: "shard option"
  dr_routes :: "route list option"
  apply_failures :: "(u16, string) table"
  bind_failures :: "(u16, string) table"
  needs_resync :: bool
  full_syncs :: u64

definition is_degraded :: "('e, 'x) drive_scheme \<Rightarrow> bool" where
  "is_degraded d \<longleftrightarrow> apply_failures d \<noteq> [] \<or> bind_failures d \<noteq> [] \<or> needs_resync d"

definition clear_drive_outcome :: "u16 \<Rightarrow> 'e drive \<Rightarrow> 'e drive" where
  "clear_drive_outcome port d =
     (if tget (apply_failures d) port \<noteq> None
      then d\<lparr>apply_failures := tdel port (apply_failures d), needs_resync := True\<rparr> else d)"

definition record_failure :: "u16 \<Rightarrow> string \<Rightarrow> 'e drive \<Rightarrow> 'e drive" where
  "record_failure port reason d = d\<lparr>apply_failures := tput port reason (apply_failures d)\<rparr>"

definition serving_unbound :: "'e engine_ops \<Rightarrow> 'e drive \<Rightarrow> u16 \<Rightarrow> bool" where
  "serving_unbound E d port =
     (case dr_engine d of None \<Rightarrow> False
      | Some e \<Rightarrow> (case en_get E e port of Inl _ \<Rightarrow> False | Inr imposter \<Rightarrow> \<not> li_bound imposter))"

definition is_locally_bound :: "'e engine_ops \<Rightarrow> 'e drive \<Rightarrow> u16 \<Rightarrow> bool" where
  "is_locally_bound E d port =
     (case dr_engine d of None \<Rightarrow> False
      | Some e \<Rightarrow> (case en_get E e port of Inl _ \<Rightarrow> False | Inr imposter \<Rightarrow> li_bound imposter))"

definition bind_failure :: "'e engine_ops \<Rightarrow> 'e drive \<Rightarrow> u16 \<Rightarrow> string option" where
  "bind_failure E d port = (if serving_unbound E d port then tget (bind_failures d) port else None)"

definition local_bind_report :: "'e engine_ops \<Rightarrow> 'e drive \<Rightarrow> (u16 list \<times> (u16, string) table) option" where
  "local_bind_report E d =
     (case dr_engine d of
        None \<Rightarrow> None
      | Some e \<Rightarrow>
          Some (fold (\<lambda>imposter (bound_ports, failures).
                  case ic_port (li_config imposter) of
                    None \<Rightarrow> (bound_ports, failures)
                  | Some port \<Rightarrow>
                      if li_bound imposter then (bound_ports @ [port], failures)
                      else case tget (bind_failures d) port of
                        Some reason \<Rightarrow> (bound_ports, tput port reason failures)
                      | None \<Rightarrow> (bound_ports, failures))
                (en_list E e) ([], [])))"

definition previously_failed_ports :: "'e drive \<Rightarrow> u16 list" where
  "previously_failed_ports d = filter (\<lambda>port. port \<noteq> 0) (tkeys (apply_failures d))"

datatype report_scope = WholeSet "u16 list" | PortScope u16

fun scope_desires :: "report_scope \<Rightarrow> u16 \<Rightarrow> bool" where
  "scope_desires (WholeSet desired) port = (port \<in> set desired)"
| "scope_desires (PortScope only) port = (only = port)"

text \<open>One \<^verbatim>\<open>failed\<close> entry of a report folded into both maps; the third component is \<^verbatim>\<open>bind_recorded\<close>.\<close>

definition record_failed ::
  "'e engine_ops \<Rightarrow> report_scope \<Rightarrow> u16 \<times> engine_error \<Rightarrow> 'e drive \<times> u16 list \<Rightarrow> 'e drive \<times> u16 list" where
  "record_failed E scope entry state =
     (case (entry, state) of ((port, error), (d, bind_recorded)) \<Rightarrow>
        (let d1 = record_failure port (en_error_text E error) d
         in if scope_desires scope port \<and> serving_unbound E d1 port \<and> port \<notin> set bind_recorded
            then (d1\<lparr>bind_failures := tput port (en_error_text E error) (bind_failures d1)\<rparr>, port # bind_recorded)
            else (d1, bind_recorded)))"

definition record_report :: "'e engine_ops \<Rightarrow> apply_report \<Rightarrow> report_scope \<Rightarrow> 'e drive \<Rightarrow> 'e drive" where
  "record_report E report scope d =
     (let failures = fold tdel (rp_created report @ rp_replaced report @ rp_stub_patched report @ rp_toggled report @ rp_deleted report)
                       (apply_failures d);
          binds = fold tdel (rp_created report @ rp_replaced report @ rp_deleted report) (bind_failures d);
          (failures', binds') =
            (case scope of
               WholeSet desired \<Rightarrow>
                 (tretain (\<lambda>port _. port \<in> set desired) failures, tretain (\<lambda>port _. port \<in> set desired) binds)
             | PortScope _ \<Rightarrow> (failures, binds))
      in fst (fold (record_failed E scope) (rp_failed report)
                (d\<lparr>apply_failures := failures', bind_failures := binds'\<rparr>, [])))"

definition clear_imposter_state :: "u16 list \<Rightarrow> 'e drive \<Rightarrow> 'e drive" where
  "clear_imposter_state ports d = d\<lparr>dr_flow_net := map_option (clear_imposter_scopes (remdups (sort ports))) (dr_flow_net d)\<rparr>"

section \<open>Drives\<close>

fun delete_stale :: "'e engine_ops \<Rightarrow> u16 list \<Rightarrow> apply_report \<times> 'e \<Rightarrow> apply_report \<times> 'e" where
  "delete_stale E [] state = state"
| "delete_stale E (port # ports) (report, e) =
     (case en_delete E port e of
        (Inr _, e') \<Rightarrow> delete_stale E ports (report\<lparr>rp_deleted := rp_deleted report @ [port]\<rparr>, e')
      | (Inl (ImposterNotFound _), e') \<Rightarrow> delete_stale E ports (report, e')
      | (Inl error, e') \<Rightarrow> delete_stale E ports (report\<lparr>rp_failed := rp_failed report @ [(port, error)]\<rparr>, e'))"

definition extend_report :: "apply_report \<Rightarrow> apply_report \<Rightarrow> apply_report" where
  "extend_report report one =
     \<lparr>rp_created = rp_created report @ rp_created one, rp_replaced = rp_replaced report @ rp_replaced one,
      rp_stub_patched = rp_stub_patched report @ rp_stub_patched one, rp_toggled = rp_toggled report @ rp_toggled one,
      rp_deleted = rp_deleted report @ rp_deleted one, rp_failed = rp_failed report @ rp_failed one\<rparr>"

fun apply_each :: "'e engine_ops \<Rightarrow> imposter_config list \<Rightarrow> apply_report \<times> 'e \<Rightarrow> apply_report \<times> 'e" where
  "apply_each E [] state = state"
| "apply_each E (config # configs) (report, e) =
     (case ic_port config of
        None \<Rightarrow> apply_each E configs (report, e)
      | Some port \<Rightarrow>
          (case en_apply_one E config e of
             (Inr one, e') \<Rightarrow> apply_each E configs (extend_report report one, e')
           | (Inl error, e') \<Rightarrow> apply_each E configs (report\<lparr>rp_failed := rp_failed report @ [(port, error)]\<rparr>, e')))"

definition apply_admitted :: "'e engine_ops \<Rightarrow> imposter_config list \<Rightarrow> u16 list \<Rightarrow> 'e \<Rightarrow> apply_report \<times> 'e" where
  "apply_admitted E admitted held e =
     (let stale = filter (\<lambda>port. port \<notin> set held) (List.map_filter (\<lambda>i. ic_port (li_config i)) (en_list E e))
      in apply_each E admitted (delete_stale E stale (empty_report, e)))"

fun delete_indices :: "'e engine_ops \<Rightarrow> u16 \<Rightarrow> nat list \<Rightarrow> ('e, unit) engine_call" where
  "delete_indices E port [] e = (Inr (), e)"
| "delete_indices E port (index # indices) e =
     (case en_delete_stub E port index e of (Inl error, e') \<Rightarrow> (Inl error, e') | (Inr _, e') \<Rightarrow> delete_indices E port indices e')"

fun drive_step :: "'e engine_ops \<Rightarrow> u16 \<Rightarrow> stub_edit \<Rightarrow> ('e, unit) engine_call" where
  "drive_step E port (AddStub s index) e = en_add_stub E port s index e"
| "drive_step E port (ReplaceById i s) e = en_replace_stub_by_id E port i s e"
| "drive_step E port (DeleteById i) e = en_delete_stub_by_id E port i e"
| "drive_step E port (DeleteBySpace space) e =
     (case en_get E e port of
        Inl error \<Rightarrow> (Inl error, e)
      | Inr imposter \<Rightarrow>
          delete_indices E port
            (rev (filter (\<lambda>index. stub_space (li_stubs imposter ! index) = Some space) [0..<length (li_stubs imposter)])) e)"
| "drive_step E port (MoveStub from to) e = en_move_stub E port from to e"

fun drive_patch :: "'e engine_ops \<Rightarrow> u16 \<Rightarrow> stub_edit_script \<Rightarrow> ('e, unit) engine_call" where
  "drive_patch E port [] e = (Inr (), e)"
| "drive_patch E port (step # steps) e =
     (case drive_step E port step e of (Inl error, e') \<Rightarrow> (Inl error, e') | (Inr _, e') \<Rightarrow> drive_patch E port steps e')"

text \<open>A restart's failure is logged, not recorded; the flag says whether it failed.\<close>

fun restart_drive :: "'e engine_ops \<Rightarrow> u16 \<Rightarrow> restart \<Rightarrow> stub list \<Rightarrow> 'e drive \<Rightarrow> 'e \<Rightarrow> 'e drive \<times> bool" where
  "restart_drive E port (RestartStubAt index) stubs d e =
     (if index < length stubs
      then case en_replace_stub E port index (stubs ! index) e of (r, e') \<Rightarrow> (d\<lparr>dr_engine := Some e'\<rparr>, isl r)
      else (d, False))"
| "restart_drive E port RestartAllStubs stubs d e =
     (case en_replace_stubs E port stubs e of (r, e') \<Rightarrow> (d\<lparr>dr_engine := Some e'\<rparr>, isl r))"
| "restart_drive E port RestartImposter stubs d e =
     (case en_restart_runtime_state E port e of
        (r, e') \<Rightarrow> (clear_imposter_state [port] (d\<lparr>dr_engine := Some e'\<rparr>), isl r))"
| "restart_drive E port RestartUnknown stubs d e = (d, False)"

text \<open>The bookkeeping of a toggle, a stub edit or an append.\<close>

definition drive_outcome :: "'e engine_ops \<Rightarrow> u16 \<Rightarrow> (engine_error + unit) \<times> 'e \<Rightarrow> 'e drive \<Rightarrow> 'e drive \<times> u16 list" where
  "drive_outcome E port result d =
     (case result of
        (Inr _, e) \<Rightarrow> (clear_drive_outcome port (d\<lparr>dr_engine := Some e\<rparr>), [])
      | (Inl error, e) \<Rightarrow> (record_failure port (en_error_text E error) (d\<lparr>dr_engine := Some e\<rparr>), []))"

text \<open>
  One drive. Beside the new state it gives the ports whose failure the drive only logs, a restart or a
  clear of saved proxy responses: such a failure leaves no trace in the node's status.
\<close>

fun drive_one :: "'a upstream_scheme \<Rightarrow> 'e engine_ops \<Rightarrow> engine_action \<Rightarrow> 'e drive \<Rightarrow> 'e drive \<times> u16 list" where
  "drive_one U E (Sync desired) d =
     (case dr_engine d of
        None \<Rightarrow> (d, [])
      | Some e \<Rightarrow>
          (let d1 = d\<lparr>full_syncs := full_syncs d + 1,
                      dr_sequencing := map_option (registry_apply_holding (ds_admitted desired) (ds_held desired)) (dr_sequencing d)\<rparr>;
               (outcome, e') =
                 (if ds_refused desired = [] then en_apply_config E (ds_admitted desired) e
                  else case apply_admitted E (ds_admitted desired) (ds_held desired) e of (report, e') \<Rightarrow> (Inr report, e'));
               d2 = d1\<lparr>dr_engine := Some e'\<rparr>
           in case outcome of
                Inr report \<Rightarrow>
                  (let previously_failed = previously_failed_ports d2;
                       d3 = (record_report E report (WholeSet (ds_held desired)) d2)\<lparr>needs_resync := False\<rparr>
                   in (clear_imposter_state
                         (filter (\<lambda>port. port \<notin> set (ds_held desired)) (rp_deleted report @ previously_failed)) d3, []))
              | Inl error \<Rightarrow> (record_failure 0 (en_error_text E error) d2, [])))"
| "drive_one U E (PutAction config restart) d =
     (case dr_engine d of
        None \<Rightarrow> (d, [])
      | Some e \<Rightarrow>
          (case ic_port config of
             None \<Rightarrow> (record_failure 0 ''a committed config carried no port'' d, [])
           | Some port \<Rightarrow>
               if isl (admission_check U config) then (d, [])
               else (let d1 = d\<lparr>dr_sequencing := map_option (registry_set port config) (dr_sequencing d)\<rparr>
                     in case en_apply_one E config e of
                          (Inr report, e') \<Rightarrow>
                            (let d2 = record_report E report (PortScope port) (d1\<lparr>dr_engine := Some e'\<rparr>);
                                 fresh = (port \<in> set (rp_created report) \<or> port \<in> set (rp_replaced report) \<or>
                                          port \<in> fst ` set (rp_failed report))
                             in case restart of
                                  Some r \<Rightarrow>
                                    if fresh then (d2, [])
                                    else (case restart_drive E port r (ic_stubs config) d2 e' of
                                            (d3, failed) \<Rightarrow> (d3, if failed then [port] else []))
                                | None \<Rightarrow> (d2, []))
                        | (Inl error, e') \<Rightarrow>
                            (record_failure port (en_error_text E error) (d1\<lparr>dr_engine := Some e'\<rparr>), []))))"
| "drive_one U E (DeleteAction port) d =
     (case dr_engine d of
        None \<Rightarrow> (d, [])
      | Some e \<Rightarrow>
          (let d1 = d\<lparr>dr_sequencing := map_option (registry_remove port) (dr_sequencing d)\<rparr>;
               deleted = (\<lambda>e'. clear_imposter_state [port]
                                 (d1\<lparr>dr_engine := Some e', apply_failures := tdel port (apply_failures d1),
                                     bind_failures := tdel port (bind_failures d1)\<rparr>))
           in case en_delete E port e of
                (Inr _, e') \<Rightarrow> (deleted e', [])
              | (Inl (ImposterNotFound _), e') \<Rightarrow> (deleted e', [])
              | (Inl error, e') \<Rightarrow> (record_failure port (en_error_text E error) (d1\<lparr>dr_engine := Some e'\<rparr>), [])))"
| "drive_one U E (SetEnabledAction port enabled) d =
     (case dr_engine d of
        None \<Rightarrow> (d, [])
      | Some e \<Rightarrow> drive_outcome E port (en_set_enabled E port enabled e) d)"
| "drive_one U E (PatchAction port edit) d =
     (case dr_engine d of
        None \<Rightarrow> (d, [])
      | Some e \<Rightarrow> drive_outcome E port (drive_patch E port edit e) d)"
| "drive_one U E (ClearProxyResponses port) d =
     (case dr_engine d of
        None \<Rightarrow> (d, [])
      | Some e \<Rightarrow>
          (case en_clear_proxy_responses E port e of
             (r, e') \<Rightarrow> (d\<lparr>dr_engine := Some e'\<rparr>, if isl r then [port] else [])))"
| "drive_one U E (RestartAction port restart stubs) d =
     (case dr_engine d of
        None \<Rightarrow> (d, [])
      | Some e \<Rightarrow> (case restart_drive E port restart stubs d e of (d', failed) \<Rightarrow> (d', if failed then [port] else [])))"
| "drive_one U E (AppendResponses port i responses merged) d =
     (case dr_engine d of
        None \<Rightarrow> (d, [])
      | Some e \<Rightarrow>
          (let owner_mode = (case dr_sequencing d of None \<Rightarrow> False | Some s \<Rightarrow> registry_mode s port = SeqOwner)
           in drive_outcome E port
                (if owner_mode then en_replace_stub_by_id E port i merged e else en_append_responses E port i responses e) d))"
| "drive_one U E (SyncRoutes table) d = (d\<lparr>dr_routes := map_option (\<lambda>_. table) (dr_routes d)\<rparr>, [])"
| "drive_one U E (RefuseRoutesSync i error) d = (d, [])"

fun drive_engine ::
  "'a upstream_scheme \<Rightarrow> 'e engine_ops \<Rightarrow> attributed_action list \<Rightarrow> 'e drive \<Rightarrow> 'e drive \<times> u16 list" where
  "drive_engine U E [] d = (d, [])"
| "drive_engine U E (a # actions) d =
     (let (d1, logged) = drive_one U E (aa_action a) d;
          (d2, logged') = drive_engine U E actions d1
      in (d2, logged @ logged'))"

section \<open>Reconciling\<close>

definition configured_ports :: "'txt tables \<Rightarrow> u16 list" where
  "configured_ports T = tkeys (sm_configs T)"

text \<open>\<open>between\<close> is what the apply loop does between the two reads of the sweep.\<close>

definition sweep_orphaned_imposter_state ::
  "('txt tables \<times> 'e drive \<Rightarrow> 'txt tables \<times> 'e drive) \<Rightarrow> 'txt tables \<times> 'e drive \<Rightarrow> 'txt tables \<times> 'e drive" where
  "sweep_orphaned_imposter_state between s =
     (case dr_flow_net (snd s) of
        None \<Rightarrow> between s
      | Some flow_net \<Rightarrow>
          (let held = imposter_ports_held flow_net;
               (T, d) = between s;
               orphaned = filter (\<lambda>port. port \<notin> set (configured_ports T)) held
           in if held = [] \<or> orphaned = [] then (T, d) else (T, clear_imposter_state orphaned d)))"

definition reconcile_engine ::
  "('txt, 'a) seams_scheme \<Rightarrow> 'e engine_ops \<Rightarrow> ('txt tables \<times> 'e drive \<Rightarrow> 'txt tables \<times> 'e drive) \<Rightarrow>
   'txt tables \<times> 'e drive \<Rightarrow> 'txt tables \<times> 'e drive" where
  "reconcile_engine S E between s =
     (let actions = [\<lparr>aa_principal = None, aa_action = sync_action S (sm_configs (fst s))\<rparr>,
                     \<lparr>aa_principal = None, aa_action = sync_routes_action S (sm_routes (fst s))\<rparr>]
      in sweep_orphaned_imposter_state between (fst s, fst (drive_engine S E actions (snd s))))"

section \<open>Specification: what the engine promises\<close>

text \<open>The effect of one engine call on a port's stub list; \<open>None\<close> where the call cannot succeed.\<close>

fun engine_edit :: "stub_edit \<Rightarrow> stub list \<Rightarrow> stub list option" where
  "engine_edit (AddStub s index) stubs =
     Some (insert_at (min (case index of None \<Rightarrow> length stubs | Some n \<Rightarrow> n) (length stubs)) s stubs)"
| "engine_edit edit stubs = (case apply_edit_step edit stubs of Inl _ \<Rightarrow> None | Inr stubs' \<Rightarrow> Some stubs')"

definition engine_append :: "string \<Rightarrow> stub_response list \<Rightarrow> stub list \<Rightarrow> stub list option" where
  "engine_append i responses stubs =
     (case position (has_id i) stubs of
        None \<Rightarrow> None
      | Some n \<Rightarrow> Some (stubs[n := (stubs ! n)\<lparr>stub_responses := stub_responses (stubs ! n) @ responses\<rparr>]))"

text \<open>A call on one port that leaves the other ports alone, and that has done \<open>f\<close> to the port's config
  when it succeeds.\<close>

definition port_call_ok ::
  "('e \<Rightarrow> u16 \<Rightarrow> imposter_config option) \<Rightarrow> u16 \<Rightarrow> (imposter_config \<Rightarrow> imposter_config option) \<Rightarrow> ('e, unit) engine_call \<Rightarrow> bool" where
  "port_call_ok served port f call \<longleftrightarrow>
     (\<forall>e r e'. call e = (r, e') \<longrightarrow>
        (\<forall>q. q \<noteq> port \<longrightarrow> served e' q = served e q) \<and>
        (\<not> isl r \<longrightarrow> served e' port = Option.bind (served e port) f \<and> (served e port \<noteq> None \<longrightarrow> served e' port \<noteq> None)))"

definition on_stubs :: "(stub list \<Rightarrow> stub list option) \<Rightarrow> imposter_config \<Rightarrow> imposter_config option" where
  "on_stubs f c = map_option (\<lambda>stubs. c\<lparr>ic_stubs := stubs\<rparr>) (f (ic_stubs c))"

definition report_touched :: "apply_report \<Rightarrow> u16 set" where
  "report_touched report = set (rp_created report) \<union> set (rp_replaced report) \<union> set (rp_stub_patched report) \<union>
     set (rp_toggled report) \<union> set (rp_deleted report)"

definition report_ports :: "apply_report \<Rightarrow> u16 set" where
  "report_ports report = report_touched report \<union> fst ` set (rp_failed report)"

definition config_for :: "imposter_config list \<Rightarrow> u16 \<Rightarrow> imposter_config option" where
  "config_for configs port = find (\<lambda>c. ic_port c = Some port) configs"

definition reads_ok :: "'e engine_ops \<Rightarrow> ('e \<Rightarrow> u16 \<Rightarrow> imposter_config option) \<Rightarrow> bool" where
  "reads_ok E served \<longleftrightarrow>
     (\<forall>e port imposter. en_get E e port = Inr imposter \<longrightarrow>
        (\<exists>c. served e port = Some c \<and> ic_stubs c = li_stubs imposter)) \<and>
     (\<forall>e port. served e port \<noteq> None \<longrightarrow> port \<in> set (List.map_filter (\<lambda>i. ic_port (li_config i)) (en_list E e)))"

definition whole_set_ok :: "'e engine_ops \<Rightarrow> ('e \<Rightarrow> u16 \<Rightarrow> imposter_config option) \<Rightarrow> bool" where
  "whole_set_ok E served \<longleftrightarrow>
     (\<forall>configs e report e' port. en_apply_config E configs e = (Inr report, e') \<longrightarrow>
        port \<notin> fst ` set (rp_failed report) \<longrightarrow> served e' port = config_for configs port)"

definition per_port_ok :: "'e engine_ops \<Rightarrow> ('e \<Rightarrow> u16 \<Rightarrow> imposter_config option) \<Rightarrow> bool" where
  "per_port_ok E served \<longleftrightarrow>
     (\<forall>c e r e' port. ic_port c = Some port \<longrightarrow> en_apply_one E c e = (r, e') \<longrightarrow>
        (\<forall>q. q \<noteq> port \<longrightarrow> served e' q = served e q) \<and>
        (\<forall>report. r = Inr report \<longrightarrow> report_ports report \<subseteq> {port} \<and>
           (rp_failed report = [] \<longrightarrow> served e' port = Some c))) \<and>
     (\<forall>port e r e'. en_delete E port e = (r, e') \<longrightarrow>
        (\<forall>q. q \<noteq> port \<longrightarrow> served e' q = served e q) \<and>
        ((case r of Inr _ \<Rightarrow> True | Inl error \<Rightarrow> \<exists>q. error = ImposterNotFound q) \<longrightarrow> served e' port = None))"

definition edits_ok :: "'a upstream_scheme \<Rightarrow> 'e engine_ops \<Rightarrow> ('e \<Rightarrow> u16 \<Rightarrow> imposter_config option) \<Rightarrow> bool" where
  "edits_ok U E served \<longleftrightarrow>
     (\<forall>port enabled. port_call_ok served port (\<lambda>c. Some (c\<lparr>ic_enabled := enabled\<rparr>)) (en_set_enabled E port enabled)) \<and>
     (\<forall>port s index. port_call_ok served port (on_stubs (engine_edit (AddStub s index))) (en_add_stub E port s index)) \<and>
     (\<forall>port i s. port_call_ok served port (on_stubs (engine_edit (ReplaceById i s))) (en_replace_stub_by_id E port i s)) \<and>
     (\<forall>port i. port_call_ok served port (on_stubs (engine_edit (DeleteById i))) (en_delete_stub_by_id E port i)) \<and>
     (\<forall>port from to. port_call_ok served port (on_stubs (engine_edit (MoveStub from to))) (en_move_stub E port from to)) \<and>
     (\<forall>port n. port_call_ok served port (on_stubs (\<lambda>stubs. if n < length stubs then Some (remove_at n stubs) else None))
                 (en_delete_stub E port n)) \<and>
     (\<forall>port i responses. port_call_ok served port (on_stubs (engine_append i responses)) (en_append_responses E port i responses)) \<and>
     (\<forall>port. port_call_ok served port (on_stubs (\<lambda>stubs. Some (fst (strip_proxy_responses U stubs)))) (en_clear_proxy_responses E port)) \<and>
     (\<forall>port n s. port_call_ok served port (on_stubs (\<lambda>stubs. if n < length stubs then Some (stubs[n := s]) else None))
                   (en_replace_stub E port n s)) \<and>
     (\<forall>port new. port_call_ok served port (on_stubs (\<lambda>_. Some new)) (en_replace_stubs E port new)) \<and>
     (\<forall>port. port_call_ok served port Some (en_restart_runtime_state E port))"

definition engine_contract :: "'a upstream_scheme \<Rightarrow> 'e engine_ops \<Rightarrow> ('e \<Rightarrow> u16 \<Rightarrow> imposter_config option) \<Rightarrow> bool" where
  "engine_contract U E served \<longleftrightarrow> reads_ok E served \<and> whole_set_ok E served \<and> per_port_ok E served \<and> edits_ok U E served"

text \<open>The deletes of a space teardown, one index after the other.\<close>

fun remove_all_at :: "nat list \<Rightarrow> stub list \<Rightarrow> stub list option" where
  "remove_all_at [] stubs = Some stubs"
| "remove_all_at (n # ns) stubs = (if n < length stubs then remove_all_at ns (remove_at n stubs) else None)"

section \<open>Specification: the view of the tables\<close>

text \<open>What the tables ask of the engine at a port: nothing there, this config, or, where the engine
  refuses the stored row, whatever it last served.\<close>

datatype port_view = Absent | Serve imposter_config | Free

definition table_view :: "('txt, 'a) seams_scheme \<Rightarrow> 'txt tables \<Rightarrow> u16 \<Rightarrow> port_view" where
  "table_view S T port =
     (case tget (sm_configs T) port of
        None \<Rightarrow> Absent
      | Some row \<Rightarrow> (case admit_row S row of Inr c \<Rightarrow> Serve c | Inl _ \<Rightarrow> Free))"

fun view_met :: "port_view \<Rightarrow> imposter_config option \<Rightarrow> bool" where
  "view_met Absent now \<longleftrightarrow> now = None"
| "view_met (Serve c) now \<longleftrightarrow> now = Some c"
| "view_met Free now \<longleftrightarrow> True"

fun on_view :: "(imposter_config \<Rightarrow> imposter_config option) \<Rightarrow> port_view \<Rightarrow> port_view" where
  "on_view f (Serve c) = (case f c of Some c' \<Rightarrow> Serve c' | None \<Rightarrow> Free)"
| "on_view f v = v"

fun edit_all :: "stub_edit_script \<Rightarrow> stub list \<Rightarrow> stub list option" where
  "edit_all [] stubs = Some stubs"
| "edit_all (step # steps) stubs = Option.bind (engine_edit step stubs) (edit_all steps)"

text \<open>What a drive makes of a view when every engine call of it succeeds.\<close>

fun carry :: "'a upstream_scheme \<Rightarrow> engine_action \<Rightarrow> (u16 \<Rightarrow> port_view) \<Rightarrow> u16 \<Rightarrow> port_view" where
  "carry U (Sync desired) v =
     (\<lambda>port. if port \<notin> set (ds_held desired) then Absent
             else case config_for (ds_admitted desired) port of Some c \<Rightarrow> Serve c | None \<Rightarrow> Free)"
| "carry U (PutAction config restart) v =
     (case ic_port config of
        None \<Rightarrow> v
      | Some port \<Rightarrow> v(port := if isl (admission_check U config) then Free else Serve config))"
| "carry U (DeleteAction port) v = v(port := Absent)"
| "carry U (SetEnabledAction port enabled) v = v(port := on_view (\<lambda>c. Some (c\<lparr>ic_enabled := enabled\<rparr>)) (v port))"
| "carry U (PatchAction port edit) v = v(port := on_view (on_stubs (edit_all edit)) (v port))"
| "carry U (ClearProxyResponses port) v =
     v(port := on_view (on_stubs (\<lambda>stubs. Some (fst (strip_proxy_responses U stubs)))) (v port))"
| "carry U (RestartAction port restart stubs) v =
     v(port := on_view (\<lambda>c. if ic_stubs c = stubs then Some c else None) (v port))"
| "carry U (AppendResponses port i responses merged) v =
     v(port := on_view (on_stubs (\<lambda>stubs.
                 if engine_append i responses stubs = engine_edit (ReplaceById i merged) stubs
                 then engine_append i responses stubs else None)) (v port))"
| "carry U (SyncRoutes table) v = v"
| "carry U (RefuseRoutesSync i error) v = v"

text \<open>The engine meets the view at every port outside \<open>X\<close> that has no recorded failure, unless the
  node's status says that the whole set has to be driven.\<close>

definition settled ::
  "('e \<Rightarrow> u16 \<Rightarrow> imposter_config option) \<Rightarrow> (u16 \<Rightarrow> port_view) \<Rightarrow> u16 set \<Rightarrow> 'e drive \<Rightarrow> bool" where
  "settled served v X d \<longleftrightarrow>
     (\<exists>e. dr_engine d = Some e \<and>
        (needs_resync d \<or> 0 \<in> fst ` set (apply_failures d) \<or>
         (\<forall>port. port \<notin> X \<longrightarrow> port \<notin> fst ` set (apply_failures d) \<longrightarrow> view_met (v port) (served e port))))"

definition modes_follow :: "(u16 \<Rightarrow> port_view) \<Rightarrow> u16 set \<Rightarrow> 'e drive \<Rightarrow> bool" where
  "modes_follow v X d \<longleftrightarrow>
     (\<forall>s. dr_sequencing d = Some s \<longrightarrow>
        twf s \<and> (\<forall>port c. port \<notin> X \<longrightarrow> v port = Serve c \<longrightarrow> registry_mode s port = mode_of c))"

text \<open>The actions the arms emit: a desired set is one read of a table, and no put or delete names
  port 0, whose slot in the failure map is the set-level one.\<close>

fun action_ok :: "engine_action \<Rightarrow> bool" where
  "action_ok (Sync desired) \<longleftrightarrow>
     distinct (List.map_filter ic_port (ds_admitted desired)) \<and>
     list_all (\<lambda>c. ic_port c \<noteq> None) (ds_admitted desired) \<and>
     set (List.map_filter ic_port (ds_admitted desired)) \<subseteq> set (ds_held desired) \<and>
     (ds_refused desired = [] \<longrightarrow> set (ds_held desired) \<subseteq> set (List.map_filter ic_port (ds_admitted desired)))"
| "action_ok (PutAction config restart) \<longleftrightarrow> ic_port config \<noteq> None \<and> ic_port config \<noteq> Some 0"
| "action_ok (DeleteAction port) \<longleftrightarrow> port \<noteq> 0"
| "action_ok _ \<longleftrightarrow> True"

text \<open>The drives that look at a whole port or at the whole set; the others touch one aspect of a port.\<close>

fun drives_whole :: "engine_action \<Rightarrow> bool" where
  "drives_whole (Sync _) \<longleftrightarrow> True"
| "drives_whole (PutAction _ _) \<longleftrightarrow> True"
| "drives_whole (DeleteAction _) \<longleftrightarrow> True"
| "drives_whole _ \<longleftrightarrow> False"

text \<open>The engine's listing and its lookup name the same imposters, one per port.\<close>

definition listing_ok :: "'e engine_ops \<Rightarrow> 'e \<Rightarrow> bool" where
  "listing_ok E e \<longleftrightarrow>
     (\<forall>port imposter. en_get E e port = Inr imposter \<longleftrightarrow> imposter \<in> set (en_list E e) \<and> ic_port (li_config imposter) = Some port)"

section \<open>An engine to evaluate on\<close>

text \<open>A table of configs by port that accepts every call that makes sense on it.\<close>

type_synonym map_engine = "(u16, imposter_config) table"

definition map_call :: "u16 \<Rightarrow> (imposter_config \<Rightarrow> imposter_config option) \<Rightarrow> (map_engine, unit) engine_call" where
  "map_call port f e =
     (case tget e port of
        None \<Rightarrow> (Inl (ImposterNotFound port), e)
      | Some c \<Rightarrow> (case f c of None \<Rightarrow> (Inl (EngineError ''refused''), e) | Some c' \<Rightarrow> (Inr (), tput port c' e)))"

definition map_put :: "imposter_config \<Rightarrow> map_engine \<Rightarrow> map_engine" where
  "map_put c e = (case ic_port c of None \<Rightarrow> e | Some port \<Rightarrow> tput port c e)"

definition map_live :: "u16 \<Rightarrow> imposter_config \<Rightarrow> live_imposter" where
  "map_live port c = \<lparr>li_config = c\<lparr>ic_port := Some port\<rparr>, li_stubs = ic_stubs c, li_bound = True\<rparr>"

definition map_engine :: "'a upstream_scheme \<Rightarrow> map_engine engine_ops" where
  "map_engine U =
     \<lparr>en_error_text = (\<lambda>_. ''refused''),
      en_get = (\<lambda>e port. case tget e port of None \<Rightarrow> Inl (ImposterNotFound port) | Some c \<Rightarrow> Inr (map_live port c)),
      en_list = map (\<lambda>(port, c). map_live port c),
      en_apply_config = (\<lambda>configs e. (Inr empty_report, fold map_put (rev configs) [])),
      en_apply_one = (\<lambda>c e. (Inr empty_report, map_put c e)),
      en_delete = (\<lambda>port e. (Inr (), tdel port e)),
      en_set_enabled = (\<lambda>port enabled. map_call port (\<lambda>c. Some (c\<lparr>ic_enabled := enabled\<rparr>))),
      en_add_stub = (\<lambda>port s index. map_call port (on_stubs (engine_edit (AddStub s index)))),
      en_replace_stub_by_id = (\<lambda>port i s. map_call port (on_stubs (engine_edit (ReplaceById i s)))),
      en_delete_stub_by_id = (\<lambda>port i. map_call port (on_stubs (engine_edit (DeleteById i)))),
      en_delete_stub = (\<lambda>port n. map_call port (on_stubs (\<lambda>stubs. if n < length stubs then Some (remove_at n stubs) else None))),
      en_move_stub = (\<lambda>port from to. map_call port (on_stubs (engine_edit (MoveStub from to)))),
      en_append_responses = (\<lambda>port i responses. map_call port (on_stubs (engine_append i responses))),
      en_replace_stub = (\<lambda>port n s. map_call port (on_stubs (\<lambda>stubs. if n < length stubs then Some (stubs[n := s]) else None))),
      en_replace_stubs = (\<lambda>port new. map_call port (on_stubs (\<lambda>_. Some new))),
      en_restart_runtime_state = (\<lambda>port. map_call port Some),
      en_clear_proxy_responses = (\<lambda>port. map_call port (on_stubs (\<lambda>stubs. Some (fst (strip_proxy_responses U stubs)))))\<rparr>"

definition fresh_drive :: "'e \<Rightarrow> 'e drive" where
  "fresh_drive e =
     \<lparr>dr_engine = Some e, dr_sequencing = Some [], dr_flow_net = None, dr_routes = Some [],
      apply_failures = [], bind_failures = [], needs_resync = False, full_syncs = 0\<rparr>"

text \<open>Samples for the properties below: an engine with one imposter, and a shard with a flow of port 5 and one of no port.\<close>

definition sample_engine :: map_engine where
  "sample_engine = [(4545, sample_config 4545 [proxy_stub])]"

definition flow_shard :: shard where
  "flow_shard =
     shard_set 1 (scoped_flow_id ScopeImposter (Some 5) ''f'') ''k'' (sample_entry_at 1 0) DAsync
       (shard_set 1 ''g'' ''k'' (sample_entry_at 2 0) DAsync (fst (fresh_shard 4 :: shard \<times> (versioned + u64) writer)))"

section \<open>Lemmas: the node's status\<close>

lemma keys_tretain_key: "fst ` set (tretain (\<lambda>k _. P k) t) = {k \<in> fst ` set t. P k}"
  by (force simp: tretain_def)

lemma keys_fold_tdel: "fst ` set (fold tdel ks t) = fst ` set t - set ks"
  by (induction ks arbitrary: t) auto

lemma fold_record_failed:
  "fst ` set (apply_failures (fst (fold (record_failed E scope) fs (d, bs)))) = fst ` set (apply_failures d) \<union> fst ` set fs"
  "dr_engine (fst (fold (record_failed E scope) fs (d, bs))) = dr_engine d"
  "dr_sequencing (fst (fold (record_failed E scope) fs (d, bs))) = dr_sequencing d"
  "needs_resync (fst (fold (record_failed E scope) fs (d, bs))) = needs_resync d"
  "dr_flow_net (fst (fold (record_failed E scope) fs (d, bs))) = dr_flow_net d"
  by (induction fs arbitrary: d bs) (auto simp: record_failed_def record_failure_def Let_def split: prod.splits)

lemma record_report_keeps:
  "dr_engine (record_report E report scope d) = dr_engine d"
  "dr_sequencing (record_report E report scope d) = dr_sequencing d"
  "needs_resync (record_report E report scope d) = needs_resync d"
  "dr_flow_net (record_report E report scope d) = dr_flow_net d"
  by (auto simp: record_report_def Let_def fold_record_failed split: report_scope.split)

lemma record_report_failures:
  "fst ` set (apply_failures (record_report E report scope d)) =
     {port \<in> fst ` set (apply_failures d) - report_touched report.
        case scope of WholeSet desired \<Rightarrow> port \<in> set desired | PortScope _ \<Rightarrow> True} \<union> fst ` set (rp_failed report)"
  by (auto simp: record_report_def Let_def fold_record_failed keys_tretain_key keys_fold_tdel report_touched_def
      split: report_scope.split)

lemma record_report_records:
  "fst ` set (rp_failed report) \<subseteq> fst ` set (apply_failures (record_report E report scope d))"
  by (simp only: record_report_failures Un_upper2)

lemma clear_imposter_state_keeps [simp]:
  "dr_engine (clear_imposter_state ps d) = dr_engine d"
  "dr_sequencing (clear_imposter_state ps d) = dr_sequencing d"
  "needs_resync (clear_imposter_state ps d) = needs_resync d"
  "apply_failures (clear_imposter_state ps d) = apply_failures d"
  "bind_failures (clear_imposter_state ps d) = bind_failures d"
  by (simp_all add: clear_imposter_state_def)

section \<open>Lemmas: whole-set drives\<close>

lemma set_map_filter: "x \<in> set (List.map_filter f xs) \<longleftrightarrow> (\<exists>y \<in> set xs. f y = Some x)"
  by (force simp: List.map_filter_def)

lemma config_for_None: "config_for configs port = None \<longleftrightarrow> port \<notin> set (List.map_filter ic_port configs)"
  by (auto simp: config_for_def find_None_iff set_map_filter)

lemma delete_stale_ok:
  assumes "per_port_ok E served" and "delete_stale E ports (report, e) = (report', e')"
  shows "fst ` set (rp_failed report) \<subseteq> fst ` set (rp_failed report') \<and>
    (\<forall>port. port \<notin> set ports \<longrightarrow> served e' port = served e port) \<and>
    (\<forall>port \<in> set ports. port \<notin> fst ` set (rp_failed report') \<longrightarrow> served e' port = None)"
  using assms(2)
proof (induction ports arbitrary: report e)
  case (Cons port ports)
  obtain r e1 where call: "en_delete E port e = (r, e1)" by (cases "en_delete E port e")
  have others: "q \<noteq> port \<Longrightarrow> served e1 q = served e q" for q
    using assms(1) call unfolding per_port_ok_def by blast
  have gone: "served e1 port = None" if "case r of Inr _ \<Rightarrow> True | Inl error \<Rightarrow> \<exists>q. error = ImposterNotFound q"
    using assms(1) call that unfolding per_port_ok_def by blast
  show ?case
  proof (cases "case r of Inr _ \<Rightarrow> True | Inl error \<Rightarrow> \<exists>q. error = ImposterNotFound q")
    case True
    then obtain report1 where run: "delete_stale E ports (report1, e1) = (report', e')"
      and same: "rp_failed report1 = rp_failed report"
      using Cons.prems call by (cases r) (auto split: engine_error.splits)
    from Cons.IH [OF run] gone [OF True] others same show ?thesis by (cases "port \<in> set ports") auto
  next
    case False
    then obtain error where r: "r = Inl error" and "\<nexists>q. error = ImposterNotFound q" by (cases r) auto
    then have run: "delete_stale E ports (report\<lparr>rp_failed := rp_failed report @ [(port, error)]\<rparr>, e1) = (report', e')"
      using Cons.prems call by (cases error) auto
    from Cons.IH [OF run] others show ?thesis by auto
  qed
qed auto

lemma apply_each_ok:
  assumes "per_port_ok E served" and "apply_each E configs (report, e) = (report', e')"
    and "distinct (List.map_filter ic_port configs)"
  shows "fst ` set (rp_failed report) \<subseteq> fst ` set (rp_failed report') \<and>
    (\<forall>port. config_for configs port = None \<longrightarrow> served e' port = served e port) \<and>
    (\<forall>port c. config_for configs port = Some c \<longrightarrow> port \<notin> fst ` set (rp_failed report') \<longrightarrow> served e' port = Some c)"
  using assms(2,3)
proof (induction configs arbitrary: report e)
  case (Cons c configs)
  show ?case
  proof (cases "ic_port c")
    case None
    with Cons.prems Cons.IH [of report e] show ?thesis by (simp add: List.map_filter_def config_for_def)
  next
    case (Some port)
    obtain r e1 where call: "en_apply_one E c e = (r, e1)" by (cases "en_apply_one E c e")
    define report1 where "report1 = (case r of Inr one \<Rightarrow> extend_report report one
      | Inl error \<Rightarrow> report\<lparr>rp_failed := rp_failed report @ [(port, error)]\<rparr>)"
    have run: "apply_each E configs (report1, e1) = (report', e')"
      using Cons.prems(1) call Some by (simp add: report1_def split: sum.splits)
    have dist: "distinct (List.map_filter ic_port configs)" and out: "config_for configs port = None"
      using Cons.prems(2) Some by (simp_all add: List.map_filter_simps config_for_None)
    have others: "q \<noteq> port \<Longrightarrow> served e1 q = served e q" for q
      using assms(1) call Some unfolding per_port_ok_def by blast
    have mono: "fst ` set (rp_failed report) \<subseteq> fst ` set (rp_failed report1)"
      by (auto simp: report1_def extend_report_def split: sum.split)
    have own: "served e1 port = Some c" if "port \<notin> fst ` set (rp_failed report1)"
    proof (cases r)
      case (Inl error)
      with that show ?thesis by (simp add: report1_def)
    next
      case (Inr one)
      have "report_ports one \<subseteq> {port}" and whole: "rp_failed one = [] \<Longrightarrow> served e1 port = Some c"
        using assms(1) call Some Inr unfolding per_port_ok_def by blast+
      moreover have "port \<notin> fst ` set (rp_failed one)" using that Inr by (auto simp: report1_def extend_report_def)
      ultimately have "rp_failed one = []" by (cases "rp_failed one") (auto simp: report_ports_def)
      then show ?thesis by (rule whole)
    qed
    note IH = Cons.IH [OF run dist]
    have head: "config_for (c # configs) q = (if q = port then Some c else config_for configs q)" for q
      using Some by (simp add: config_for_def)
    have kept: "served e' q = served e q" if "config_for (c # configs) q = None" for q
      using that IH others [of q] by (simp add: head split: if_splits)
    have taken: "served e' q = Some c'" if "config_for (c # configs) q = Some c'" "q \<notin> fst ` set (rp_failed report')" for q c'
    proof (cases "q = port")
      case True
      have "served e1 port = Some c" using IH own that True by blast
      with True that out IH show ?thesis by (simp add: head)
    next
      case False
      with that IH show ?thesis by (simp add: head)
    qed
    have "fst ` set (rp_failed report) \<subseteq> fst ` set (rp_failed report')" using IH mono by (meson order_trans)
    with kept taken show ?thesis by blast
  qed
qed (auto simp: config_for_def)


lemma apply_admitted_ok:
  assumes contract: "reads_ok E served" "per_port_ok E served"
    and dist: "distinct (List.map_filter ic_port admitted)"
    and held: "set (List.map_filter ic_port admitted) \<subseteq> set held"
    and run: "apply_admitted E admitted held e = (report, e')" and ok: "port \<notin> fst ` set (rp_failed report)"
  shows "port \<notin> set held \<Longrightarrow> served e' port = None"
    and "config_for admitted port = Some c \<Longrightarrow> served e' port = Some c"
proof -
  define stale where "stale = filter (\<lambda>port. port \<notin> set held) (List.map_filter (\<lambda>i. ic_port (li_config i)) (en_list E e))"
  obtain report1 e1 where del: "delete_stale E stale (empty_report, e) = (report1, e1)"
    by (cases "delete_stale E stale (empty_report, e)")
  with run have each: "apply_each E admitted (report1, e1) = (report, e')" by (simp add: apply_admitted_def stale_def)
  note A = apply_each_ok [OF contract(2) each dist] and D = delete_stale_ok [OF contract(2) del]
  show "served e' port = Some c" if "config_for admitted port = Some c" using A that ok by blast
  show "served e' port = None" if out: "port \<notin> set held"
  proof -
    have "config_for admitted port = None" using held out by (auto simp: config_for_None)
    with A have "served e' port = served e1 port" by blast
    moreover have "port \<notin> fst ` set (rp_failed report1)" using A ok by blast
    moreover have "port \<in> set stale" if "served e port \<noteq> None"
      using contract(1) that out by (auto simp: reads_ok_def stale_def)
    ultimately show ?thesis using D by metis
  qed
qed

lemma sync_settles:
  assumes contract: "engine_contract U E served" and "dr_engine d = Some e"
    and ok: "action_ok (Sync desired)" and run: "drive_one U E (Sync desired) d = (d', logged)"
  shows "settled served (carry U (Sync desired) v) X d'"
proof -
  define outcome where "outcome = (if ds_refused desired = [] then en_apply_config E (ds_admitted desired) e
    else case apply_admitted E (ds_admitted desired) (ds_held desired) e of (report, e') \<Rightarrow> (Inr report, e'))"
  obtain r e' where out: "outcome = (r, e')" by (cases outcome)
  show ?thesis
  proof (cases r)
    case (Inl error)
    with run out \<open>dr_engine d = Some e\<close> show ?thesis
      by (auto simp: outcome_def [symmetric] Let_def settled_def record_failure_def)
  next
    case (Inr report)
    have met: "view_met (carry U (Sync desired) v port) (served e' port)" if "port \<notin> fst ` set (rp_failed report)" for port
    proof (cases "ds_refused desired = []")
      case True
      with out Inr have "en_apply_config E (ds_admitted desired) e = (Inr report, e')" by (simp add: outcome_def)
      then have "served e' port = config_for (ds_admitted desired) port"
        using contract that unfolding engine_contract_def whole_set_ok_def by blast
      moreover have "config_for (ds_admitted desired) port = None \<longleftrightarrow> port \<notin> set (ds_held desired)"
        using ok True by (auto simp: config_for_None)
      ultimately show ?thesis by (auto split: option.split)
    next
      case False
      with out Inr have "apply_admitted E (ds_admitted desired) (ds_held desired) e = (report, e')"
        by (auto simp: outcome_def split: prod.splits)
      note admitted = apply_admitted_ok [OF _ _ _ _ this that, of served]
      have "reads_ok E served" "per_port_ok E served" using contract by (simp_all add: engine_contract_def)
      moreover have "distinct (List.map_filter ic_port (ds_admitted desired))"
        "set (List.map_filter ic_port (ds_admitted desired)) \<subseteq> set (ds_held desired)" using ok by simp_all
      ultimately have "port \<notin> set (ds_held desired) \<Longrightarrow> served e' port = None"
        and "config_for (ds_admitted desired) port = Some c \<Longrightarrow> served e' port = Some c" for c
        using admitted by blast+
      then show ?thesis by (simp split: option.split)
    qed
    define d2 where "d2 = d\<lparr>full_syncs := full_syncs d + 1,
      dr_sequencing := map_option (registry_apply_holding (ds_admitted desired) (ds_held desired)) (dr_sequencing d),
      dr_engine := Some e'\<rparr>"
    have "d' = clear_imposter_state (filter (\<lambda>port. port \<notin> set (ds_held desired)) (rp_deleted report @ previously_failed_ports d2))
        ((record_report E report (WholeSet (ds_held desired)) d2)\<lparr>needs_resync := False\<rparr>)"
      using run out Inr \<open>dr_engine d = Some e\<close> by (simp add: outcome_def [symmetric] Let_def d2_def)
    moreover have "dr_engine d2 = Some e'" by (simp add: d2_def)
    ultimately have "fst ` set (rp_failed report) \<subseteq> fst ` set (apply_failures d')" "dr_engine d' = Some e'"
      using record_report_records [of report E "WholeSet (ds_held desired)" d2] by (simp_all add: record_report_keeps)
    then show ?thesis unfolding settled_def
      by (intro exI [of _ e'] conjI disjI2 allI impI) (assumption, rule met, rule contra_subsetD)
  qed
qed

section \<open>Lemmas: stub edits on the engine\<close>

lemma port_call_seq:
  assumes "port_call_ok served port f call" and "port_call_ok served port g call'"
  shows "port_call_ok served port (\<lambda>c. Option.bind (f c) g)
           (\<lambda>e. case call e of (Inl error, e') \<Rightarrow> (Inl error, e') | (Inr _, e') \<Rightarrow> call' e')"
  unfolding port_call_ok_def
proof (intro allI impI)
  fix e r e'
  assume run: "(case call e of (Inl error, e') \<Rightarrow> (Inl error, e') | (Inr _, e') \<Rightarrow> call' e') = (r, e')"
  obtain r1 e1 where first: "call e = (r1, e1)" by (cases "call e")
  note one = assms(1) [unfolded port_call_ok_def, rule_format, OF first]
  show "(\<forall>q. q \<noteq> port \<longrightarrow> served e' q = served e q) \<and>
    (\<not> isl r \<longrightarrow> served e' port = Option.bind (served e port) (\<lambda>c. Option.bind (f c) g) \<and> (served e port \<noteq> None \<longrightarrow> served e' port \<noteq> None))"
  proof (cases r1)
    case (Inl error)
    with run first one show ?thesis by auto
  next
    case (Inr u)
    with run first have "call' e1 = (r, e')" by simp
    note two = assms(2) [unfolded port_call_ok_def, rule_format, OF this]
    show ?thesis using one two Inr by (auto simp: bind_assoc) (metis option.distinct(1) not_None_eq)
  qed
qed

lemma remove_at_append: "n < length xs \<Longrightarrow> remove_at n (xs @ ys) = remove_at n xs @ ys"
  by (simp add: remove_at_def)

lemma length_remove_at: "n < length xs \<Longrightarrow> length (remove_at n xs) = length xs - 1"
  by (simp add: remove_at_def)

lemma remove_all_append:
  assumes "remove_all_at ns xs = Some xs'" shows "remove_all_at ns (xs @ ys) = Some (xs' @ ys)"
  using assms by (induction ns arbitrary: xs) (auto simp: remove_at_append split: if_splits)

lemma remove_all_descending:
  "remove_all_at (rev (filter (\<lambda>n. P (xs ! n)) [0..<length xs])) xs = Some (filter (\<lambda>x. \<not> P x) xs)"
proof (induction xs rule: rev_induct)
  case (snoc x xs)
  have same: "filter (\<lambda>n. P ((xs @ [x]) ! n)) [0..<length xs] = filter (\<lambda>n. P (xs ! n)) [0..<length xs]"
    by (rule filter_cong) (auto simp: nth_append)
  show ?case
  proof (cases "P x")
    case True
    then show ?thesis using snoc by (simp add: same remove_at_def)
  next
    case False
    with remove_all_append [OF snoc, of "[x]"] show ?thesis by (simp add: same)
  qed
qed simp

lemma on_stubs_bind: "Option.bind (on_stubs f c) (on_stubs g) = on_stubs (\<lambda>stubs. Option.bind (f stubs) g) c"
  by (cases "f (ic_stubs c)") (simp_all add: on_stubs_def option.map_comp o_def)

lemma on_stubs_Some: "on_stubs Some c = Some c"
  by (simp add: on_stubs_def)

lemma delete_indices_ok:
  assumes "edits_ok U E served"
  shows "port_call_ok served port (on_stubs (remove_all_at ns)) (delete_indices E port ns)"
proof (induction ns)
  case (Cons n ns)
  have "port_call_ok served port (on_stubs (\<lambda>stubs. if n < length stubs then Some (remove_at n stubs) else None))
      (en_delete_stub E port n)" using assms unfolding edits_ok_def by blast
  from port_call_seq [OF this Cons]
  have "port_call_ok served port
     (on_stubs (\<lambda>stubs. Option.bind (if n < length stubs then Some (remove_at n stubs) else None) (remove_all_at ns)))
     (\<lambda>e. case en_delete_stub E port n e of (Inl error, e') \<Rightarrow> (Inl error, e') | (Inr _, e') \<Rightarrow> delete_indices E port ns e')"
    by (simp add: on_stubs_bind)
  moreover have "(\<lambda>stubs. Option.bind (if n < length stubs then Some (remove_at n stubs) else None) (remove_all_at ns)) =
      remove_all_at (n # ns)" by auto
  moreover have "(\<lambda>e. case en_delete_stub E port n e of (Inl error, e') \<Rightarrow> (Inl error, e') | (Inr _, e') \<Rightarrow> delete_indices E port ns e') =
      delete_indices E port (n # ns)" by auto
  ultimately show ?case by (simp only:)
qed (auto simp: port_call_ok_def on_stubs_def)

lemma drive_step_calls:
  "drive_step E port (AddStub s index) = en_add_stub E port s index"
  "drive_step E port (ReplaceById i s) = en_replace_stub_by_id E port i s"
  "drive_step E port (DeleteById i) = en_delete_stub_by_id E port i"
  "drive_step E port (MoveStub n m) = en_move_stub E port n m"
  by (simp_all add: fun_eq_iff)

lemma drive_step_ok:
  assumes contract: "engine_contract U E served"
  shows "port_call_ok served port (on_stubs (engine_edit step)) (drive_step E port step)"
proof (cases step)
  case (DeleteBySpace space)
  have reads: "reads_ok E served" and edits: "edits_ok U E served" using contract by (simp_all add: engine_contract_def)
  show ?thesis unfolding port_call_ok_def DeleteBySpace
  proof (intro allI impI)
    fix e r e' assume run: "drive_step E port (DeleteBySpace space) e = (r, e')"
    show "(\<forall>q. q \<noteq> port \<longrightarrow> served e' q = served e q) \<and>
      (\<not> isl r \<longrightarrow> served e' port = Option.bind (served e port) (on_stubs (engine_edit (DeleteBySpace space))) \<and>
         (served e port \<noteq> None \<longrightarrow> served e' port \<noteq> None))"
    proof (cases "en_get E e port")
      case (Inl error)
      with run show ?thesis by auto
    next
      case (Inr imposter)
      then obtain c where c: "served e port = Some c" "ic_stubs c = li_stubs imposter"
        using reads unfolding reads_ok_def by blast
      let ?ns = "rev (filter (\<lambda>n. stub_space (li_stubs imposter ! n) = Some space) [0..<length (li_stubs imposter)])"
      have "delete_indices E port ?ns e = (r, e')" using run Inr by simp
      note del = delete_indices_ok [OF edits, unfolded port_call_ok_def, rule_format, OF this]
      have "on_stubs (remove_all_at ?ns) c = on_stubs (engine_edit (DeleteBySpace space)) c"
        using c(2) remove_all_descending [of "\<lambda>s. stub_space s = Some space" "li_stubs imposter"]
        by (simp add: on_stubs_def)
      with del c(1) show ?thesis by (auto dest: sym)
    qed
  qed
qed (use contract in \<open>simp_all only: engine_contract_def edits_ok_def drive_step_calls\<close>)

lemma drive_patch_ok:
  assumes contract: "engine_contract U E served"
  shows "port_call_ok served port (on_stubs (edit_all script)) (drive_patch E port script)"
proof (induction script)
  case (Cons step script)
  from port_call_seq [OF drive_step_ok [OF contract, of port step] Cons]
  have "port_call_ok served port (on_stubs (\<lambda>stubs. Option.bind (engine_edit step stubs) (edit_all script)))
     (\<lambda>e. case drive_step E port step e of (Inl error, e') \<Rightarrow> (Inl error, e') | (Inr _, e') \<Rightarrow> drive_patch E port script e')"
    by (simp add: on_stubs_bind)
  moreover have "(\<lambda>stubs. Option.bind (engine_edit step stubs) (edit_all script)) = edit_all (step # script)" by auto
  moreover have "(\<lambda>e. case drive_step E port step e of (Inl error, e') \<Rightarrow> (Inl error, e') | (Inr _, e') \<Rightarrow> drive_patch E port script e') =
      drive_patch E port (step # script)" by auto
  ultimately show ?case by (simp only:)
qed (auto simp: port_call_ok_def on_stubs_def)

lemma apply_steps_edit_all: "apply_steps script stubs = Inr stubs' \<Longrightarrow> edit_all script stubs = Some stubs'"
proof (induction script arbitrary: stubs)
  case (Cons step script)
  then obtain mid where "apply_edit_step step stubs = Inr mid" "apply_steps script mid = Inr stubs'"
    by (auto split: sum.splits)
  moreover from this(1) have "engine_edit step stubs = Some mid"
    by (cases step) (auto split: option.splits if_splits)
  ultimately show ?case using Cons.IH by simp
qed simp

section \<open>Lemmas: every drive keeps the node settled\<close>

lemma settledI:
  assumes "dr_engine d = Some e"
    and "\<And>port. port \<notin> X \<Longrightarrow> port \<notin> fst ` set (apply_failures d) \<Longrightarrow> \<not> needs_resync d \<Longrightarrow>
           0 \<notin> fst ` set (apply_failures d) \<Longrightarrow> view_met (v port) (served e port)"
  shows "settled served v X d"
  using assms unfolding settled_def by blast

lemma settledE:
  assumes "settled served v X d" and "dr_engine d = Some e" and "\<not> needs_resync d" and "0 \<notin> fst ` set (apply_failures d)"
    and "port \<notin> X" and "port \<notin> fst ` set (apply_failures d)"
  shows "view_met (v port) (served e port)"
  using assms unfolding settled_def by auto

lemma port_call_met:
  assumes "port_call_ok served port f call" and "call e = (r, e')" and "\<not> isl r" and "view_met v (served e port)"
  shows "view_met (on_view f v) (served e' port)"
proof -
  have "served e' port = Option.bind (served e port) f" "served e port \<noteq> None \<longrightarrow> served e' port \<noteq> None"
    using assms(1-3) unfolding port_call_ok_def by blast+
  with assms(4) show ?thesis by (cases v) auto
qed

lemma port_call_others:
  "port_call_ok served port f call \<Longrightarrow> call e = (r, e') \<Longrightarrow> q \<noteq> port \<Longrightarrow> served e' q = served e q"
  unfolding port_call_ok_def by blast

lemma outcome_settles:
  assumes "settled served v X d" and "dr_engine d = Some e" and call: "port_call_ok served port f call"
    and run: "drive_outcome E port (call e) d = (d', logged)"
  shows "settled served (v(port := on_view f (v port))) X d'"
proof -
  obtain r e' where result: "call e = (r, e')" by (cases "call e")
  have d': "dr_engine d' = Some e'" using run result
    by (auto simp: drive_outcome_def clear_drive_outcome_def record_failure_def split: sum.splits if_splits)
  show ?thesis
  proof (rule settledI [OF d'])
    fix q assume q: "q \<notin> X" "q \<notin> fst ` set (apply_failures d')" "\<not> needs_resync d'" "0 \<notin> fst ` set (apply_failures d')"
    have clean: "q \<notin> fst ` set (apply_failures d)" "\<not> needs_resync d" "0 \<notin> fst ` set (apply_failures d)" "q = port \<Longrightarrow> \<not> isl r"
      using q run result by (auto simp: drive_outcome_def clear_drive_outcome_def record_failure_def tkeys_tget split: sum.splits if_splits)
    then have before: "view_met (v q) (served e q)" using settledE [OF assms(1,2)] q by blast
    show "view_met ((v(port := on_view f (v port))) q) (served e' q)"
    proof (cases "q = port")
      case True
      with port_call_met [OF call result _, of "v port"] clean before show ?thesis by simp
    next
      case False
      with port_call_others [OF call result] before show ?thesis by simp
    qed
  qed
qed

lemma edits_calls:
  assumes "engine_contract U E served"
  shows "port_call_ok served port (\<lambda>c. Some (c\<lparr>ic_enabled := enabled\<rparr>)) (en_set_enabled E port enabled)"
    and "port_call_ok served port (on_stubs (engine_append i responses)) (en_append_responses E port i responses)"
    and "port_call_ok served port (on_stubs (engine_edit (ReplaceById i s))) (en_replace_stub_by_id E port i s)"
    and "port_call_ok served port (on_stubs (\<lambda>stubs. Some (fst (strip_proxy_responses U stubs)))) (en_clear_proxy_responses E port)"
    and "port_call_ok served port (on_stubs (\<lambda>stubs. if n < length stubs then Some (stubs[n := s]) else None)) (en_replace_stub E port n s)"
    and "port_call_ok served port (on_stubs (\<lambda>_. Some new)) (en_replace_stubs E port new)"
    and "port_call_ok served port Some (en_restart_runtime_state E port)"
  using assms by (simp_all only: engine_contract_def edits_ok_def)

text \<open>A call whose failure is only logged: the port joins the exceptions when it fails.\<close>

lemma logged_settles:
  assumes "settled served v X d" and "dr_engine d = Some e" and call: "port_call_ok served port f call"
    and result: "call e = (r, e')" and d': "dr_engine d' = Some e'" "apply_failures d' = apply_failures d" "needs_resync d' = needs_resync d"
  shows "settled served (v(port := on_view f (v port))) (X \<union> set (if isl r then [port] else [])) d'"
proof (rule settledI [OF d'(1)])
  fix q assume q: "q \<notin> X \<union> set (if isl r then [port] else [])" "q \<notin> fst ` set (apply_failures d')"
    "\<not> needs_resync d'" "0 \<notin> fst ` set (apply_failures d')"
  then have before: "view_met (v q) (served e q)" using settledE [OF assms(1,2)] d' by simp
  show "view_met ((v(port := on_view f (v port))) q) (served e' q)"
  proof (cases "q = port")
    case True
    with q have "\<not> isl r" by (auto split: if_splits)
    with True port_call_met [OF call result, of "v port"] before show ?thesis by simp
  next
    case False
    with port_call_others [OF call result] before show ?thesis by simp
  qed
qed

lemma settled_weaken:
  assumes "settled served v X d" and "\<And>port. port \<notin> X' \<Longrightarrow> v' port = Free \<or> v' port = v port" and "X \<subseteq> X'"
  shows "settled served v' X' d"
proof -
  obtain e where e: "dr_engine d = Some e" using assms(1) by (auto simp: settled_def)
  show ?thesis
  proof (rule settledI [OF e])
    fix q assume q: "q \<notin> X'" "q \<notin> fst ` set (apply_failures d)" "\<not> needs_resync d" "0 \<notin> fst ` set (apply_failures d)"
    with settledE [OF assms(1) e] assms(3) have "view_met (v q) (served e q)" by blast
    with assms(2) [OF q(1)] show "view_met (v' q) (served e q)" by auto
  qed
qed

lemma restart_settles:
  assumes contract: "engine_contract U E served" and settled: "settled served v X d" and e: "dr_engine d = Some e"
    and run: "restart_drive E port restart stubs d e = (d', failed)"
  shows "settled served (v(port := on_view (\<lambda>c. if ic_stubs c = stubs then Some c else None) (v port)))
           (X \<union> set (if failed then [port] else [])) d'"
proof -
  have weaken: "settled served (v(port := on_view (\<lambda>c. if ic_stubs c = stubs then Some c else None) (v port))) X' d'"
    if "settled served (v(port := on_view f (v port))) X' d'" and "\<And>c. ic_stubs c = stubs \<Longrightarrow> f c = Some c" for f X'
    using that(1) by (rule settled_weaken) (use that(2) in \<open>cases "v port"; auto\<close>)+
  have "v(port := on_view Some (v port)) = v" by (cases "v port") (auto simp: fun_eq_iff)
  then have unchanged: "settled served (v(port := on_view (\<lambda>c. if ic_stubs c = stubs then Some c else None) (v port))) X d'"
    if "d' = d" using weaken [of Some X] settled that by simp
  note logged = logged_settles [OF settled e]
  show ?thesis
  proof (cases restart)
    case (RestartStubAt n)
    show ?thesis
    proof (cases "n < length stubs")
      case True
      obtain r e' where call: "en_replace_stub E port n (stubs ! n) e = (r, e')" by (cases "en_replace_stub E port n (stubs ! n) e")
      show ?thesis
        using weaken [OF logged [OF edits_calls(5) [OF contract] call, of d']] run RestartStubAt True call
        by (auto simp: on_stubs_def)
    next
      case False
      then show ?thesis using run RestartStubAt unchanged by auto
    qed
  next
    case RestartAllStubs
    obtain r e' where call: "en_replace_stubs E port stubs e = (r, e')" by (cases "en_replace_stubs E port stubs e")
    show ?thesis
      using weaken [OF logged [OF edits_calls(6) [OF contract] call, of d']] run RestartAllStubs call
      by (auto simp: on_stubs_def)
  next
    case RestartImposter
    obtain r e' where call: "en_restart_runtime_state E port e = (r, e')" by (cases "en_restart_runtime_state E port e")
    show ?thesis
      using weaken [OF logged [OF edits_calls(7) [OF contract] call, of d']] run RestartImposter call by auto
  next
    case RestartUnknown
    then show ?thesis using run unchanged by auto
  qed
qed

lemma put_report_settles:
  assumes contract: "per_port_ok E served" and settled: "settled served v X d" and e: "dr_engine d = Some e"
    and port: "ic_port config = Some port" "port \<noteq> 0" and call: "en_apply_one E config e = (Inr report, e')"
    and d': "dr_engine d' = Some e'" "apply_failures d' = apply_failures d" "needs_resync d' = needs_resync d"
  shows "settled served (v(port := Serve config)) X (record_report E report (PortScope port) d')"
proof -
  have others: "\<forall>q. q \<noteq> port \<longrightarrow> served e' q = served e q"
    and only: "report_ports report \<subseteq> {port}" and whole: "rp_failed report = [] \<Longrightarrow> served e' port = Some config"
    using contract call port unfolding per_port_ok_def by blast+
  have keys: "fst ` set (apply_failures (record_report E report (PortScope port) d')) =
      (fst ` set (apply_failures d) - report_touched report) \<union> fst ` set (rp_failed report)"
    by (auto simp: record_report_failures d')
  have touched: "report_touched report \<subseteq> {port}" "fst ` set (rp_failed report) \<subseteq> {port}"
    using only by (auto simp: report_ports_def)
  show ?thesis
  proof (rule settledI [of _ e'])
    show "dr_engine (record_report E report (PortScope port) d') = Some e'" by (simp add: record_report_keeps d')
    fix q
    assume q: "q \<notin> X" "q \<notin> fst ` set (apply_failures (record_report E report (PortScope port) d'))"
      "\<not> needs_resync (record_report E report (PortScope port) d')"
      "0 \<notin> fst ` set (apply_failures (record_report E report (PortScope port) d'))"
    show "view_met ((v(port := Serve config)) q) (served e' q)"
    proof (cases "q = port")
      case True
      with q touched have "rp_failed report = []" by (cases "rp_failed report") (auto simp: keys)
      with True whole show ?thesis by simp
    next
      case False
      have "q \<notin> fst ` set (apply_failures d)" "0 \<notin> fst ` set (apply_failures d)"
        using q(2,4) False port(2) touched(1) unfolding keys by blast+
      moreover have "\<not> needs_resync d" using q(3) by (simp add: record_report_keeps d')
      ultimately have "view_met (v q) (served e q)" using settledE [OF settled e] q(1) by blast
      with False others show ?thesis by simp
    qed
  qed
qed

lemma failure_settles:
  assumes settled: "settled served v X d" and e: "dr_engine d = Some e" and others: "\<And>q. q \<noteq> port \<Longrightarrow> served e' q = served e q"
    and d': "dr_engine d' = Some e'" "apply_failures d' = apply_failures d" "needs_resync d' = needs_resync d"
  shows "settled served (v(port := w)) X (record_failure port reason d')"
proof (rule settledI [of _ e'])
  show "dr_engine (record_failure port reason d') = Some e'" by (simp add: record_failure_def d')
  fix q
  assume "q \<notin> X" "q \<notin> fst ` set (apply_failures (record_failure port reason d'))"
    "\<not> needs_resync (record_failure port reason d')" "0 \<notin> fst ` set (apply_failures (record_failure port reason d'))"
  then have "q \<noteq> port" "view_met (v q) (served e q)" using settledE [OF settled e] by (auto simp: record_failure_def d')
  with others show "view_met ((v(port := w)) q) (served e' q)" by simp
qed

lemma put_settles:
  assumes contract: "engine_contract U E served" and settled: "settled served v X d" and e: "dr_engine d = Some e"
    and ok: "action_ok (PutAction config restart)" and run: "drive_one U E (PutAction config restart) d = (d', logged)"
  shows "settled served (carry U (PutAction config restart) v) (X \<union> set logged) d'"
proof -
  obtain port where port: "ic_port config = Some port" "port \<noteq> 0" using ok by auto
  have per_port: "per_port_ok E served" using contract by (simp add: engine_contract_def)
  show ?thesis
  proof (cases "isl (admission_check U config)")
    case True
    with settled_weaken [OF settled, of X "v(port := Free)"] run e port show ?thesis by auto
  next
    case False
    define d1 where "d1 = d\<lparr>dr_sequencing := map_option (registry_set port config) (dr_sequencing d)\<rparr>"
    obtain r e' where call: "en_apply_one E config e = (r, e')" by (cases "en_apply_one E config e")
    show ?thesis
    proof (cases r)
      case (Inl error)
      have "served e' q = served e q" if "q \<noteq> port" for q
        using per_port call port that unfolding per_port_ok_def by blast
      from failure_settles [OF settled e this, where port = port and d' = "d1\<lparr>dr_engine := Some e'\<rparr>" and w = "Serve config"
          and reason = "en_error_text E error"]
        run e port False call Inl show ?thesis by (auto simp: d1_def)
    next
      case (Inr report)
      define d2 where "d2 = record_report E report (PortScope port) (d1\<lparr>dr_engine := Some e'\<rparr>)"
      have d2: "settled served (v(port := Serve config)) X d2"
        unfolding d2_def using call Inr by (intro put_report_settles [OF per_port settled e port]) (simp_all add: d1_def)
      show ?thesis
      proof (cases "d' = d2 \<and> logged = []")
        case True
        with d2 port False show ?thesis by simp
      next
        case other: False
        obtain restarted failed where "restart_drive E port restarted (ic_stubs config) d2 e' = (d', failed)"
          and logged: "logged = (if failed then [port] else [])"
          using run e port False call Inr other
          by (auto simp: d1_def [symmetric] d2_def [symmetric] Let_def split: option.splits if_splits prod.splits)
        then have "settled served ((v(port := Serve config))(port :=
            on_view (\<lambda>c. if ic_stubs c = ic_stubs config then Some c else None) ((v(port := Serve config)) port)))
            (X \<union> set logged) d'"
          unfolding logged by (intro restart_settles [OF contract d2]) (simp_all add: d2_def record_report_keeps)
        with port False show ?thesis by simp
      qed
    qed
  qed
qed

lemma delete_settles:
  assumes contract: "engine_contract U E served" and settled: "settled served v X d" and e: "dr_engine d = Some e"
    and port: "port \<noteq> 0" and run: "drive_one U E (DeleteAction port) d = (d', logged)"
  shows "settled served (v(port := Absent)) X d'"
proof -
  obtain r e' where call: "en_delete E port e = (r, e')" by (cases "en_delete E port e")
  have others: "served e' q = served e q" if "q \<noteq> port" for q
    using contract call that unfolding engine_contract_def per_port_ok_def by blast
  show ?thesis
  proof (cases "case r of Inr _ \<Rightarrow> True | Inl error \<Rightarrow> \<exists>q. error = ImposterNotFound q")
    case True
    with contract call have gone: "served e' port = None" unfolding engine_contract_def per_port_ok_def by blast
    have d': "dr_engine d' = Some e'" "apply_failures d' = tdel port (apply_failures d)" "needs_resync d' = needs_resync d"
      using True run e call by (auto split: sum.splits engine_error.splits)
    show ?thesis
    proof (rule settledI [OF d'(1)])
      fix q assume q: "q \<notin> X" "q \<notin> fst ` set (apply_failures d')" "\<not> needs_resync d'" "0 \<notin> fst ` set (apply_failures d')"
      show "view_met ((v(port := Absent)) q) (served e' q)"
      proof (cases "q = port")
        case False
        with settledE [OF settled e] q port others d' show ?thesis by simp
      qed (simp add: gone)
    qed
  next
    case False
    then obtain error where r: "r = Inl error" and "\<nexists>q. error = ImposterNotFound q" by (cases r) auto
    then have "d' = record_failure port (en_error_text E error)
        (d\<lparr>dr_sequencing := map_option (registry_remove port) (dr_sequencing d), dr_engine := Some e'\<rparr>)"
      using run e call by (cases error) (auto simp: Let_def)
    with failure_settles [OF settled e others, where port = port and w = Absent
        and d' = "d\<lparr>dr_sequencing := map_option (registry_remove port) (dr_sequencing d), dr_engine := Some e'\<rparr>"]
    show ?thesis by simp
  qed
qed

lemma append_settles:
  assumes contract: "engine_contract U E served" and settled: "settled served v X d" and e: "dr_engine d = Some e"
    and run: "drive_one U E (AppendResponses port i responses merged) d = (d', logged)"
  shows "settled served (carry U (AppendResponses port i responses merged) v) X d'"
proof -
  have "settled served (v(port := on_view (on_stubs (engine_edit (ReplaceById i merged))) (v port))) X d' \<or>
        settled served (v(port := on_view (on_stubs (engine_append i responses)) (v port))) X d'"
    using run e outcome_settles [OF settled e edits_calls(2) [OF contract], of E port i responses d' logged]
      outcome_settles [OF settled e edits_calls(3) [OF contract], of E port i merged d' logged]
    by (auto simp: Let_def split: if_splits option.splits)
  then show ?thesis
  proof
    assume "settled served (v(port := on_view (on_stubs (engine_edit (ReplaceById i merged))) (v port))) X d'"
    then show ?thesis by (rule settled_weaken) (cases "v port"; auto simp: on_stubs_def)+
  next
    assume "settled served (v(port := on_view (on_stubs (engine_append i responses)) (v port))) X d'"
    then show ?thesis by (rule settled_weaken) (cases "v port"; auto simp: on_stubs_def)+
  qed
qed

lemma drive_one_settles:
  assumes contract: "engine_contract U E served" and settled: "settled served v X d"
    and ok: "action_ok a" and run: "drive_one U E a d = (d', logged)"
  shows "settled served (carry U a v) (X \<union> set logged) d'"
proof -
  obtain e where e: "dr_engine d = Some e" using settled by (auto simp: settled_def)
  show ?thesis
  proof (cases a)
    case (Sync desired)
    with sync_settles [OF contract e] ok run show ?thesis by simp
  next
    case (PutAction config restart)
    with put_settles [OF contract settled e] ok run show ?thesis by simp
  next
    case (DeleteAction port)
    with delete_settles [OF contract settled e, of port d' logged] ok run show ?thesis
      using settled_weaken [of served _ X d' "X \<union> set logged"] by simp
  next
    case (SetEnabledAction port enabled)
    with outcome_settles [OF settled e edits_calls(1) [OF contract], of E port enabled d' logged] run e show ?thesis
      using settled_weaken [of served _ X d' "X \<union> set logged"] by simp
  next
    case (PatchAction port edit)
    with outcome_settles [OF settled e drive_patch_ok [OF contract], of E port edit d' logged] run e show ?thesis
      using settled_weaken [of served _ X d' "X \<union> set logged"] by simp
  next
    case (AppendResponses port i responses merged)
    with append_settles [OF contract settled e, of port i responses merged d' logged] run show ?thesis
      using settled_weaken [of served _ X d' "X \<union> set logged"] by simp
  next
    case (ClearProxyResponses port)
    obtain r e' where call: "en_clear_proxy_responses E port e = (r, e')" by (cases "en_clear_proxy_responses E port e")
    with ClearProxyResponses run e logged_settles [OF settled e edits_calls(4) [OF contract] call, of d'] show ?thesis by auto
  next
    case (RestartAction port restart stubs)
    obtain d'' failed where "restart_drive E port restart stubs d e = (d'', failed)" by (cases "restart_drive E port restart stubs d e")
    with RestartAction run e restart_settles [OF contract settled e this] show ?thesis by auto
  next
    case (SyncRoutes table)
    with run have "dr_engine d' = dr_engine d" "apply_failures d' = apply_failures d" "needs_resync d' = needs_resync d" by auto
    with SyncRoutes run settled show ?thesis by (simp add: settled_def)
  next
    case (RefuseRoutesSync i error)
    with run settled show ?thesis by auto
  qed
qed

section \<open>Lemmas: every drive keeps the sequencing modes exact\<close>

lemma mode_of_updates [simp]:
  "mode_of (c\<lparr>ic_enabled := b\<rparr>) = mode_of c" "mode_of (c\<lparr>ic_stubs := stubs\<rparr>) = mode_of c"
  by (simp_all add: mode_of_def sequencing_from_imposter_def)

lemma drive_outcome_sequencing: "drive_outcome E port result d = (d', logged) \<Longrightarrow> dr_sequencing d' = dr_sequencing d"
  by (auto simp: drive_outcome_def clear_drive_outcome_def record_failure_def split: prod.splits sum.splits if_splits)

lemma restart_sequencing: "restart_drive E port restart stubs d e = (d', failed) \<Longrightarrow> dr_sequencing d' = dr_sequencing d"
  by (cases restart) (auto split: prod.splits if_splits)

lemma modes_follow_same:
  assumes "modes_follow v X d" and "dr_sequencing d' = dr_sequencing d"
    and "\<And>port c. v' port = Serve c \<Longrightarrow> \<exists>c0. v port = Serve c0 \<and> mode_of c0 = mode_of c"
  shows "modes_follow v' X d'"
  using assms unfolding modes_follow_def by metis

lemma on_view_mode:
  assumes "\<And>c c'. f c = Some c' \<Longrightarrow> mode_of c' = mode_of c" and "(v(port := on_view f (v port))) q = Serve c"
  shows "\<exists>c0. v q = Serve c0 \<and> mode_of c0 = mode_of c"
proof (cases "q = port")
  case True
  with assms show ?thesis by (cases "v port") (auto split: option.splits)
qed (use assms in auto)

lemma modes_follow_edit:
  assumes "modes_follow v X d" and "dr_sequencing d' = dr_sequencing d" and "\<And>c c'. f c = Some c' \<Longrightarrow> mode_of c' = mode_of c"
  shows "modes_follow (v(port := on_view f (v port))) X d'"
  using assms(1,2) by (rule modes_follow_same) (rule on_view_mode [OF assms(3)])

lemma on_stubs_mode: "on_stubs f c = Some c' \<Longrightarrow> mode_of c' = mode_of c"
  by (auto simp: on_stubs_def)

lemma registry_fold_wf: "twf t \<Longrightarrow> twf (fold (\<lambda>c t. case ic_port c of None \<Rightarrow> t | Some port \<Rightarrow> tput port (mode_of c) t) cs t)"
  by (induction cs arbitrary: t) (auto split: option.splits)

lemma registry_apply_holding_read:
  assumes "twf s" and "distinct (List.map_filter ic_port desired)"
  shows "registry_mode (registry_apply_holding desired held s) port =
    (case config_for desired port of
       Some config \<Rightarrow> mode_of config
     | None \<Rightarrow> if port \<in> set held then registry_mode s port else SeqLocal)"
  using assms
  by (simp add: registry_mode_def registry_apply_holding_def tget_registry_fold tget_tretain config_for_def split: option.split)

lemma sync_modes:
  assumes "modes_follow v X d" and "action_ok (Sync desired)"
    and "dr_sequencing d' = map_option (registry_apply_holding (ds_admitted desired) (ds_held desired)) (dr_sequencing d)"
  shows "modes_follow (carry U (Sync desired) v) X d'"
  unfolding modes_follow_def
proof (intro allI impI)
  fix s assume s: "dr_sequencing d' = Some s"
  then obtain s0 where s0: "dr_sequencing d = Some s0" "s = registry_apply_holding (ds_admitted desired) (ds_held desired) s0"
    using assms(3) by auto
  then have wf: "twf s0" using assms(1) by (simp add: modes_follow_def)
  have "twf s" unfolding s0(2) registry_apply_holding_def by (intro registry_fold_wf twf_tretain wf)
  moreover have "registry_mode s port = mode_of c" if "carry U (Sync desired) v port = Serve c" for port c
    using that registry_apply_holding_read [OF wf, of "ds_admitted desired" "ds_held desired" port] assms(2) s0(2)
    by (auto split: if_splits option.splits)
  ultimately show "twf s \<and> (\<forall>port c. port \<notin> X \<longrightarrow> carry U (Sync desired) v port = Serve c \<longrightarrow> registry_mode s port = mode_of c)"
    by blast
qed

lemma sync_sequencing:
  assumes "dr_engine d = Some e" and "drive_one U E (Sync desired) d = (d', logged)"
  shows "dr_sequencing d' = map_option (registry_apply_holding (ds_admitted desired) (ds_held desired)) (dr_sequencing d)"
  using assms by (auto simp: Let_def record_failure_def record_report_keeps split: prod.splits sum.splits if_splits)

lemma put_sequencing:
  assumes "dr_engine d = Some e" and "drive_one U E (PutAction config restart) d = (d', logged)" and "ic_port config = Some port"
  shows "dr_sequencing d' = (if isl (admission_check U config) then dr_sequencing d
           else map_option (registry_set port config) (dr_sequencing d))"
  using assms
  by (auto simp: Let_def record_failure_def record_report_keeps dest!: restart_sequencing split: prod.splits sum.splits if_splits option.splits)

lemma drive_one_modes:
  assumes modes: "modes_follow v X d" and e: "dr_engine d = Some e" and ok: "action_ok a" and run: "drive_one U E a d = (d', logged)"
  shows "modes_follow (carry U a v) X d'"
proof (cases a)
  case (Sync desired)
  show ?thesis unfolding Sync by (rule sync_modes [OF modes ok [unfolded Sync] sync_sequencing [OF e run [unfolded Sync]]])
next
  case (PutAction config restart)
  then obtain port where port: "ic_port config = Some port" using ok by auto
  with put_sequencing [OF e] run PutAction have "dr_sequencing d' = (if isl (admission_check U config) then dr_sequencing d
     else map_option (registry_set port config) (dr_sequencing d))" by blast
  with modes PutAction port show ?thesis
    by (auto simp: modes_follow_def registry_set_def registry_mode_def split: if_splits)
next
  case (DeleteAction port)
  have "dr_sequencing d' = map_option (registry_remove port) (dr_sequencing d)"
    using run e DeleteAction by (auto simp: Let_def record_failure_def split: prod.splits sum.splits engine_error.splits)
  with modes DeleteAction show ?thesis
    by (auto simp: modes_follow_def registry_remove_def registry_mode_def split: if_splits)
next
  case (RestartAction port restart stubs)
  then have "dr_sequencing d' = dr_sequencing d" using run e by (auto dest!: restart_sequencing split: prod.splits)
  then show ?thesis unfolding RestartAction carry.simps
    by (rule modes_follow_edit [OF modes]) (simp split: if_splits)
next
  case (ClearProxyResponses port)
  then have "dr_sequencing d' = dr_sequencing d" using run e by (auto split: prod.splits)
  from modes_follow_edit [OF modes this on_stubs_mode] ClearProxyResponses show ?thesis by simp
next
  case (PatchAction port edit)
  then have "dr_sequencing d' = dr_sequencing d" using run e by (auto dest: drive_outcome_sequencing)
  from modes_follow_edit [OF modes this on_stubs_mode] PatchAction show ?thesis by simp
next
  case (AppendResponses port i responses merged)
  then have "dr_sequencing d' = dr_sequencing d" using run e by (auto simp: Let_def dest: drive_outcome_sequencing)
  from modes_follow_edit [OF modes this on_stubs_mode] AppendResponses show ?thesis by simp
next
  case (SetEnabledAction port enabled)
  then have "dr_sequencing d' = dr_sequencing d" using run e by (auto dest: drive_outcome_sequencing)
  from modes_follow_edit [OF modes this, of "\<lambda>c. Some (c\<lparr>ic_enabled := enabled\<rparr>)" port] SetEnabledAction show ?thesis by auto
qed (use modes run in \<open>auto simp: modes_follow_def\<close>)

section \<open>Lemmas: the sample engine keeps the contract\<close>

lemma map_call_ok: "port_call_ok tget port f (map_call port f)"
  by (auto simp: port_call_ok_def map_call_def split: option.splits)

lemma map_apply_config: "tget (fold map_put (rev configs) []) port = config_for configs port"
  by (induction configs) (auto simp: config_for_def map_put_def split: option.split)

lemma map_listed: "tget e port = Some c \<Longrightarrow> port \<in> set (List.map_filter (\<lambda>i. ic_port (li_config i)) (map (\<lambda>(port, c). map_live port c) e))"
  by (force simp: set_map_filter map_live_def dest: map_of_SomeD)

lemma map_engine_contract: "engine_contract U (map_engine U) tget"
proof -
  have "reads_ok (map_engine U) tget"
    using map_listed by (auto simp: reads_ok_def map_engine_def map_live_def split: option.splits)
  moreover have "whole_set_ok (map_engine U) tget"
    by (simp add: whole_set_ok_def map_engine_def map_apply_config)
  moreover have "per_port_ok (map_engine U) tget"
    by (auto simp: per_port_ok_def map_engine_def map_put_def empty_report_def report_ports_def report_touched_def)
  moreover have "edits_ok U (map_engine U) tget"
    unfolding edits_ok_def by (simp only: map_engine_def engine_ops.simps map_call_ok simp_thms)
  ultimately show ?thesis by (simp add: engine_contract_def)
qed

section \<open>Lemmas: flow state by imposter\<close>

lemma split_once_mark:
  assumes "c \<notin> set a" shows "split_once [c] (a @ c # b) = Some (a, b)"
  using assms by (induction a) (auto simp: starts_with_def)

lemma parse_u16_show: "parse_u16 (show_word port) = Some port"
proof -
  have digits: "list_all is_ascii_digit (show_word port)" by (rule show_nat_digits)
  then have "hd (show_word port) \<noteq> CHR ''+''"
    by (cases "show_word port") (auto simp: is_ascii_digit_def less_eq_char_def)
  then have "(case show_word port of c # rest \<Rightarrow> if c = CHR ''+'' then rest else show_word port | [] \<Rightarrow> []) = show_word port"
    by (cases "show_word port") auto
  with digits unsigned_less [of port] show ?thesis by (simp add: parse_u16_def)
qed

lemma imposter_port_scoped:
  "imposter_port (scoped_flow_id ScopeImposter (Some port) flow_id) = Some port"
  "imposter_port (scoped_flow_id ScopeImposter None flow_id) = None"
  "imposter_port (scoped_flow_id ScopeFleet p flow_id) = None"
proof -
  have "CHR '':'' \<notin> set (show_word port)"
    using show_nat_digits [of "unat port"] by (auto simp: list_all_iff is_ascii_digit_def less_eq_char_def)
  then show "imposter_port (scoped_flow_id ScopeImposter (Some port) flow_id) = Some port"
    by (simp add: imposter_port_def scoped_flow_id_def strip_prefix_def starts_with_def split_once_mark parse_u16_show)
  show "imposter_port (scoped_flow_id ScopeImposter None flow_id) = None"
    by (simp add: imposter_port_def scoped_flow_id_def strip_prefix_def starts_with_def parse_u16_def is_ascii_digit_def less_eq_char_def)
  show "imposter_port (scoped_flow_id ScopeFleet p flow_id) = None"
    by (simp add: imposter_port_def scoped_flow_id_def strip_prefix_def starts_with_def)
qed

lemma fold_clear_flow:
  "tget (sh_memory (fold (\<lambda>i. shard_clear_flow i durability) ids sh)) flow_id =
     (if flow_id \<in> set ids then None else tget (sh_memory sh) flow_id)"
proof (induction ids arbitrary: sh)
  case (Cons i ids)
  have "tget (sh_memory (shard_clear_flow i durability sh)) flow_id = (if flow_id = i then None else tget (sh_memory sh) flow_id)"
    by (simp add: shard_clear_flow_def submit_def send_def)
  with Cons show ?case by auto
qed simp

lemma clear_scopes_read:
  "tget (sh_memory (clear_imposter_scopes ports sh)) flow_id =
     (case imposter_port flow_id of
        Some port \<Rightarrow> if port \<in> set ports then None else tget (sh_memory sh) flow_id
      | None \<Rightarrow> tget (sh_memory sh) flow_id)"
  using tkeys_tget [of flow_id "sh_memory sh"] by (auto simp: clear_imposter_scopes_def fold_clear_flow flow_ids_def split: option.split)

lemma in_ports_held: "port \<in> set (imposter_ports_held sh) \<longleftrightarrow> (\<exists>flow_id. tget (sh_memory sh) flow_id \<noteq> None \<and> imposter_port flow_id = Some port)"
proof -
  have "port \<in> set (imposter_ports_held sh) \<longleftrightarrow> (\<exists>flow_id \<in> fst ` set (sh_memory sh). imposter_port flow_id = Some port)"
    by (force simp: imposter_ports_held_def flow_ids_def List.map_filter_def)
  then show ?thesis unfolding Bex_def tkeys_tget .
qed

lemma report_fold:
  assumes "fold step imposters (bound, failures) = (bound', failures')"
    and "\<And>imposter b f. step imposter (b, f) =
           (case ic_port (li_config imposter) of None \<Rightarrow> (b, f)
            | Some port \<Rightarrow> if li_bound imposter then (b @ [port], f)
                else case tget (bind_failures d) port of Some reason \<Rightarrow> (b, tput port reason f) | None \<Rightarrow> (b, f))"
  shows "set bound' = set bound \<union> {port. \<exists>i \<in> set imposters. ic_port (li_config i) = Some port \<and> li_bound i}
    \<and> tget failures' port = (if \<exists>i \<in> set imposters. ic_port (li_config i) = Some port \<and> \<not> li_bound i \<and> tget (bind_failures d) port \<noteq> None
         then tget (bind_failures d) port else tget failures port)"
  using assms(1)
proof (induction imposters arbitrary: bound failures)
  case (Cons i imposters)
  obtain b f where s: "step i (bound, failures) = (b, f)" by (cases "step i (bound, failures)")
  with Cons.prems have "fold step imposters (b, f) = (bound', failures')" by simp
  note ih = Cons.IH [OF this]
  show ?case
    using ih s unfolding assms(2)
    by (auto split: option.splits if_splits)
qed simp

lemma local_reports:
  assumes "dr_engine d = Some e" "listing_ok E e" "local_bind_report E d = Some (bound, failures)"
  shows "port \<in> set bound \<longleftrightarrow> is_locally_bound E d port" and "tget failures port = bind_failure E d port"
proof -
  have listed: "(\<exists>i \<in> set (en_list E e). ic_port (li_config i) = Some port \<and> P i) \<longleftrightarrow> (\<exists>i. en_get E e port = Inr i \<and> P i)" for P
    using assms(2) by (auto simp: listing_ok_def)
  let ?step = "\<lambda>imposter (b, f). case ic_port (li_config imposter) of None \<Rightarrow> (b, f)
            | Some port \<Rightarrow> if li_bound imposter then (b @ [port], f)
                else case tget (bind_failures d) port of Some reason \<Rightarrow> (b, tput port reason f) | None \<Rightarrow> (b, f)"
  from assms(1,3) have run: "fold ?step (en_list E e) ([], []) = (bound, failures)" by (simp add: local_bind_report_def)
  have "set bound = set [] \<union> {port. \<exists>i \<in> set (en_list E e). ic_port (li_config i) = Some port \<and> li_bound i}
    \<and> tget failures port = (if \<exists>i \<in> set (en_list E e). ic_port (li_config i) = Some port \<and> \<not> li_bound i \<and> tget (bind_failures d) port \<noteq> None
         then tget (bind_failures d) port else tget [] port)"
    by (rule report_fold [OF run]) simp
  with listed [of li_bound] listed [of "\<lambda>i. \<not> li_bound i \<and> tget (bind_failures d) port \<noteq> None"]
  show "port \<in> set bound \<longleftrightarrow> is_locally_bound E d port" "tget failures port = bind_failure E d port"
    using assms(1) by (auto simp: is_locally_bound_def bind_failure_def serving_unbound_def split: sum.splits)
qed

lemma tput_nonempty: "tput k v t \<noteq> []"
  by (cases t) auto

lemma degraded_keeps [simp]:
  "is_degraded (d\<lparr>dr_engine := x\<rparr>) = is_degraded d" "is_degraded (d\<lparr>dr_routes := y\<rparr>) = is_degraded d"
  by (simp_all add: is_degraded_def)

lemma outcome_degraded: "is_degraded d \<Longrightarrow> drive_outcome E port result d = (d', logged) \<Longrightarrow> is_degraded d'"
  by (auto simp: is_degraded_def drive_outcome_def clear_drive_outcome_def record_failure_def tput_nonempty
      split: prod.splits sum.splits if_splits)

lemma restart_degraded: "restart_drive E port restart stubs d e = (d', failed) \<Longrightarrow> is_degraded d' = is_degraded d"
  by (cases restart) (auto simp: is_degraded_def split: prod.splits if_splits)

section \<open>Properties\<close>

text \<open>
  C10. A patch driven stub by stub leaves the engine where the tables are: if the engine serves what the
  tables held before the edit and the drive succeeds, it serves the stubs \<open>apply_edit\<close> committed, with
  every other field as it was, and no other port is touched.
\<close>

theorem patch_reproduces_edit:
  assumes "engine_contract U E served" and "served e port = Some c"
    and "apply_edit (ic_stubs c) script = (stubs, Inr ())"
    and "drive_patch E port script e = (Inr (), e')"
  shows "served e' = (served e)(port \<mapsto> c\<lparr>ic_stubs := stubs\<rparr>)"
proof -
  from assms(3) have steps: "edit_all script (ic_stubs c) = Some stubs"
    by (intro apply_steps_edit_all) (auto simp: apply_edit_def split: sum.splits)
  have ok: "port_call_ok served port (on_stubs (edit_all script)) (drive_patch E port script)"
    by (rule drive_patch_ok [OF assms(1)])
  with assms steps show ?thesis
    by (fastforce simp: port_call_ok_def on_stubs_def fun_eq_iff)
qed

theorem patch_reproduces_edit_witness:
  "tget (snd (drive_patch (map_engine doc_seams) 4545 [AddStub saved_stub None, DeleteById ''p''] sample_engine)) 4545 =
     Some (sample_config 4545 [saved_stub])"
proof -
  let ?c = "sample_config 4545 [proxy_stub]" and ?script = "[AddStub saved_stub None, DeleteById ''p'']"
  have "tget (sample_engine :: map_engine) 4545 = Some ?c"
    and "apply_edit (ic_stubs ?c) ?script = ([saved_stub], Inr ())"
    and "drive_patch (map_engine doc_seams) 4545 ?script sample_engine =
           (Inr (), snd (drive_patch (map_engine doc_seams) 4545 ?script sample_engine))"
    by code_simp+
  from patch_reproduces_edit [OF map_engine_contract this] show ?thesis by (simp add: sample_config_def)
qed

text \<open>
  C12. A degraded node stays degraded until a drive looks at a whole port or at the whole set: a toggle,
  a stub edit, an append, a clear of saved responses or a restart never hides an earlier failure, since
  clearing its own slot leaves a resync owed.
\<close>

theorem degraded_until_driven:
  assumes "is_degraded d" and "\<not> drives_whole action" and "drive_one U E action d = (d', logged)"
  shows "is_degraded d'"
proof (cases action)
  case (RestartAction port restart stubs)
  with assms restart_degraded show ?thesis by (fastforce split: option.splits prod.splits)
qed (use assms in \<open>auto elim: outcome_degraded split: option.splits prod.splits\<close>)

theorem degraded_until_driven_witness:
  "is_degraded (fst (drive_one doc_seams (map_engine doc_seams) (SetEnabledAction 4545 False)
     (record_failure 4545 ''refused'' (fresh_drive sample_engine))))"
  by (rule degraded_until_driven [where action = "SetEnabledAction 4545 False" and U = doc_seams, OF _ _ prod.collapse [symmetric]]) code_simp+

text \<open>
  C11. Recovery: a whole-set drive that the engine accepts and whose report names no failure settles any
  resync owed, and ends the degradation exactly when every port with a recorded failure was reached by
  the report or is no longer desired. The set-level failure slot, port 0, is never desired, so it is
  always cleared.
\<close>

theorem clean_sync_recovers:
  assumes "dr_engine d = Some e" and "ds_refused desired = []"
    and "en_apply_config E (ds_admitted desired) e = (Inr report, e')" and "rp_failed report = []"
    and "drive_one U E (Sync desired) d = (d', logged)"
  shows "\<not> needs_resync d' \<and> (is_degraded d' \<longleftrightarrow>
      (\<exists>port \<in> set (ds_held desired). tget (apply_failures d) port \<noteq> None \<and> port \<notin> report_touched report) \<or>
      (\<exists>port \<in> set (ds_held desired). tget (bind_failures d) port \<noteq> None \<and>
         port \<notin> set (rp_created report @ rp_replaced report @ rp_deleted report)))"
proof -
  have keys: "fst ` set (tretain (\<lambda>k _. k \<in> A) (fold tdel ks t)) = {k \<in> A. tget t k \<noteq> None \<and> k \<notin> set ks}"
    for A ks and t :: "(u16, string) table"
    using tkeys_tget [of _ t] by (auto simp: keys_tretain_key keys_fold_tdel simp del: set_map)
  have empty: "t = [] \<longleftrightarrow> fst ` set t = {}" for t :: "(u16, string) table" by simp
  from assms have "d' = clear_imposter_state
       (filter (\<lambda>port. port \<notin> set (ds_held desired)) (rp_deleted report @ previously_failed_ports d))
       ((record_report E report (WholeSet (ds_held desired))
          (d\<lparr>full_syncs := full_syncs d + 1,
             dr_sequencing := map_option (registry_apply_holding (ds_admitted desired) (ds_held desired)) (dr_sequencing d),
             dr_engine := Some e'\<rparr>))\<lparr>needs_resync := False\<rparr>)"
    by (simp add: Let_def previously_failed_ports_def)
  with assms(4) have fails: "apply_failures d' = tretain (\<lambda>port _. port \<in> set (ds_held desired))
        (fold tdel (rp_created report @ rp_replaced report @ rp_stub_patched report @ rp_toggled report @ rp_deleted report) (apply_failures d))"
    and binds: "bind_failures d' = tretain (\<lambda>port _. port \<in> set (ds_held desired))
        (fold tdel (rp_created report @ rp_replaced report @ rp_deleted report) (bind_failures d))"
    and "\<not> needs_resync d'"
    by (simp_all add: record_report_def del: fold_append)
  then show ?thesis unfolding is_degraded_def empty fails binds keys by (auto simp: report_touched_def)
qed

theorem clean_sync_recovers_witness:
  "\<not> is_degraded (fst (drive_one doc_seams (map_engine doc_seams) (Sync \<lparr>ds_admitted = [], ds_held = [], ds_refused = []\<rparr>)
     (record_failure 4545 ''refused'' (fresh_drive sample_engine))))"
  using clean_sync_recovers [where desired = "\<lparr>ds_admitted = [], ds_held = [], ds_refused = []\<rparr>" and U = doc_seams
      and E = "map_engine doc_seams" and d = "record_failure 4545 ''refused'' (fresh_drive sample_engine)" and e = sample_engine
      and report = empty_report and e' = "[]", OF _ _ _ _ prod.collapse [symmetric]]
  by (simp add: record_failure_def fresh_drive_def map_engine_def empty_report_def)

text \<open>
  C13. Deleting an imposter clears exactly its flow state: after the drive no flow of that port is held,
  and every flow of another port, of the fleet scope or of no port is held as before.
\<close>

theorem delete_clears_exactly:
  assumes "dr_engine d = Some e" and "en_delete E port e = (Inr (), e')" and "dr_flow_net d = Some sh"
    and "drive_one U E (DeleteAction port) d = (d', logged)"
  shows "\<exists>sh'. dr_flow_net d' = Some sh' \<and>
    tget (sh_memory sh') (scoped_flow_id ScopeImposter (Some port) flow_id) = None \<and>
    (\<forall>other. other \<noteq> port \<longrightarrow>
       tget (sh_memory sh') (scoped_flow_id ScopeImposter (Some other) flow_id) =
       tget (sh_memory sh) (scoped_flow_id ScopeImposter (Some other) flow_id)) \<and>
    tget (sh_memory sh') (scoped_flow_id ScopeImposter None flow_id) =
      tget (sh_memory sh) (scoped_flow_id ScopeImposter None flow_id) \<and>
    tget (sh_memory sh') (scoped_flow_id ScopeFleet p flow_id) = tget (sh_memory sh) (scoped_flow_id ScopeFleet p flow_id)"
  using assms by (auto simp: clear_imposter_state_def clear_scopes_read imposter_port_scoped)

theorem delete_clears_exactly_witness:
  "map_option (\<lambda>sh. tget (sh_memory sh) (scoped_flow_id ScopeImposter (Some 5) ''f''))
     (dr_flow_net (fst (drive_one doc_seams (map_engine doc_seams) (DeleteAction 5)
        ((fresh_drive sample_engine)\<lparr>dr_flow_net := Some flow_shard\<rparr>)))) = Some None \<and>
   scoped_flow_id ScopeImposter (Some 5) ''f'' \<in> set (flow_ids flow_shard)"
proof -
  let ?d = "(fresh_drive sample_engine)\<lparr>dr_flow_net := Some flow_shard\<rparr>"
  have "dr_engine ?d = Some sample_engine" "en_delete (map_engine doc_seams) 5 sample_engine = (Inr (), tdel 5 sample_engine)"
    "dr_flow_net ?d = Some flow_shard" by (simp_all add: fresh_drive_def map_engine_def)
  from delete_clears_exactly [where flow_id = "''f''" and U = doc_seams and p = None, OF this prod.collapse [symmetric]]
  obtain sh' where "dr_flow_net (fst (drive_one doc_seams (map_engine doc_seams) (DeleteAction 5) ?d)) = Some sh'"
      and "tget (sh_memory sh') (scoped_flow_id ScopeImposter (Some 5) ''f'') = None"
    by (elim exE conjE)
  moreover have "scoped_flow_id ScopeImposter (Some 5) ''f'' \<in> set (flow_ids flow_shard)" by code_simp
  ultimately show ?thesis by (simp only: option.map simp_thms)
qed

text \<open>
  C14. The sweep never takes flow state an imposter still owns: whatever the apply loop does between the
  sweep's two reads, a flow of a port configured at the second read is held as it was, and a flow of a
  port that was held at the first and is not configured at the second is gone.
\<close>

theorem sweep_takes_orphans_only:
  assumes "dr_flow_net d = Some before" and "between (T, d) = (T1, d1)" and "dr_flow_net d1 = Some now"
    and "sweep_orphaned_imposter_state between (T, d) = (T2, d2)"
  shows "T2 = T1 \<and> (\<exists>after. dr_flow_net d2 = Some after \<and>
    (\<forall>flow_id port. imposter_port flow_id = Some port \<longrightarrow>
      tget (sh_memory after) flow_id =
        (if port \<in> set (configured_ports T1) \<or> port \<notin> set (imposter_ports_held before) then tget (sh_memory now) flow_id else None)) \<and>
    (\<forall>flow_id. imposter_port flow_id = None \<longrightarrow> tget (sh_memory after) flow_id = tget (sh_memory now) flow_id))"
proof -
  let ?orphaned = "filter (\<lambda>port. port \<notin> set (configured_ports T1)) (imposter_ports_held before)"
  have "T2 = T1" and "d2 = d1 \<and> ?orphaned = [] \<or> d2 = clear_imposter_state ?orphaned d1"
    using assms by (auto simp: sweep_orphaned_imposter_state_def Let_def split: if_splits)
  then show ?thesis
  proof (elim disjE conjE, goal_cases)
    case 1
    then show ?thesis using assms(3) by (auto simp: filter_empty_conv)
  next
    case 2
    then show ?thesis using assms(3) by (simp add: clear_imposter_state_def clear_scopes_read)
  qed
qed

theorem sweep_takes_orphans_only_witness:
  "\<exists>after. dr_flow_net (snd (sweep_orphaned_imposter_state (\<lambda>s. s)
        (empty_tables :: doc tables, (fresh_drive sample_engine)\<lparr>dr_flow_net := Some flow_shard\<rparr>))) = Some after \<and>
     tget (sh_memory after) (scoped_flow_id ScopeImposter (Some 5) ''f'') = None \<and>
     tget (sh_memory after) ''g'' = tget (sh_memory flow_shard) ''g''"
proof -
  have "scoped_flow_id ScopeImposter (Some 5) ''f'' \<in> set (flow_ids flow_shard)" by code_simp
  then have "tget (sh_memory flow_shard) (scoped_flow_id ScopeImposter (Some 5) ''f'') \<noteq> None"
    unfolding flow_ids_def list.set_map tkeys_tget .
  then have "5 \<in> set (imposter_ports_held flow_shard)" unfolding in_ports_held using imposter_port_scoped(1) by blast
  moreover have "5 \<notin> set (configured_ports (empty_tables :: doc tables))" "imposter_port ''g'' = None" by code_simp+
  moreover have "dr_flow_net ((fresh_drive sample_engine)\<lparr>dr_flow_net := Some flow_shard\<rparr>) = Some flow_shard" by simp
  note sweep_takes_orphans_only [where between = "\<lambda>s. s" and T = "empty_tables :: doc tables", OF this refl this prod.collapse [symmetric]]
  ultimately show ?thesis using imposter_port_scoped(1) [of 5 "''f''"] by (elim conjE ex_forward) simp
qed

text \<open>
  C15. The per-node bind report agrees with the two single-port questions: a port is listed as bound iff
  \<open>is_locally_bound\<close> says so, it carries the reason \<open>bind_failure\<close> gives, and no port is both.
\<close>

theorem bind_report_agrees:
  assumes "dr_engine d = Some e" and "listing_ok E e"
  shows "\<exists>bound failures. local_bind_report E d = Some (bound, failures) \<and>
    (\<forall>port. (port \<in> set bound \<longleftrightarrow> is_locally_bound E d port) \<and> tget failures port = bind_failure E d port \<and>
            \<not> (port \<in> set bound \<and> tget failures port \<noteq> None))"
proof -
  obtain result where "local_bind_report E d = Some result" using assms(1) by (simp add: local_bind_report_def)
  then obtain bound failures where r: "local_bind_report E d = Some (bound, failures)" by (cases result) simp
  have "\<not> (is_locally_bound E d port \<and> bind_failure E d port \<noteq> None)" for port
    by (auto simp: is_locally_bound_def bind_failure_def serving_unbound_def split: option.splits sum.splits)
  with r local_reports [OF assms r] show ?thesis by (intro exI [of _ bound] exI [of _ failures]) simp
qed

theorem bind_report_agrees_witness:
  "\<exists>bound failures. local_bind_report (map_engine doc_seams) (fresh_drive sample_engine) = Some (bound, failures) \<and>
     (4545 \<in> set bound \<longleftrightarrow> is_locally_bound (map_engine doc_seams) (fresh_drive sample_engine) 4545) \<and>
     tget failures 4545 = bind_failure (map_engine doc_seams) (fresh_drive sample_engine) 4545"
proof -
  have "listing_ok (map_engine doc_seams) sample_engine"
    by (auto simp: listing_ok_def map_engine_def sample_engine_def map_live_def sample_config_def split: option.splits if_splits)
  from bind_report_agrees [OF _ this, of "fresh_drive sample_engine"] show ?thesis by (auto simp: fresh_drive_def)
qed

end
