(* ===== verification/InStep.thy ===== *)
theory InStep
  imports EngineDrive
begin

text \<open>
  The engine in step with the tables: what the drives of an op make of the engine is what the op
  made of the tables (\<^verbatim>\<open>crates/rift-cluster/src/raft/store.rs\<close>, the arms of \<^verbatim>\<open>mutate_tables\<close> against
  \<^verbatim>\<open>drive_one\<close>), so that a node that does not report itself degraded serves what the fleet committed.
\<close>

section \<open>The node: tables and engine\<close>

text \<open>One batch on a node: its entries applied under the health of the node, then its drives.\<close>

definition node_apply ::
  "('txt, 'a) seams_scheme \<Rightarrow> 'e engine_ops \<Rightarrow> entry list \<Rightarrow> 'txt tables \<times> 'e drive \<Rightarrow>
   storage_error + ('txt tables \<times> 'e drive) \<times> u16 list" where
  "node_apply S E es s =
     (case apply_batch S (is_degraded (snd s)) es (fst s) of
        Inl error \<Rightarrow> Inl error
      | Inr (T, _, actions) \<Rightarrow> (let (d, logged) = drive_engine S E actions (snd s) in Inr ((T, d), logged)))"

text \<open>
  The ports whose drives do not reproduce what an op does to the tables: a clear of saved proxy
  responses that is driven after a whole set already holding the stripped stubs, where stripping them
  again strips more; one that makes a refused config admissible, where the engine never had it; and a
  recording merged by id where the ids of the port are not distinct.
\<close>

fun op_blind :: "('txt, 'a) seams_scheme \<Rightarrow> bool \<Rightarrow> control_op \<Rightarrow> 'txt tables \<Rightarrow> u16 list" where
  "op_blind S degraded (ProxyRecordedClear port) T =
     (case load_imposter S T port of
        Inl _ \<Rightarrow> []
      | Inr (_, config) \<Rightarrow>
          (let stubs = fst (strip_proxy_responses S (ic_stubs config));
               admitted = \<not> isl (admission_check S (config\<lparr>ic_stubs := stubs\<rparr>))
           in if admitted \<and> degraded \<and> fst (strip_proxy_responses S stubs) \<noteq> stubs then [port]
              else if admitted \<and> \<not> degraded \<and> isl (admission_check S config) then [port]
              else []))"
| "op_blind S degraded (ProxyRecorded port sig_hash resp (Some recorded)) T =
     (case load_imposter S T port of
        Inl _ \<Rightarrow> []
      | Inr (_, config) \<Rightarrow>
          if rs_placement recorded = AfterProxyMerging \<and> \<not> distinct_ids (ic_stubs config) then [port] else [])"
| "op_blind S degraded _ T = []"

definition judged :: "'a upstream_scheme \<Rightarrow> imposter_config \<Rightarrow> port_view" where
  "judged U config = (if isl (admission_check U config) then Free else Serve config)"

definition no_port_zero :: "'txt tables \<Rightarrow> bool" where
  "no_port_zero T \<longleftrightarrow> tget (sm_configs T) 0 = None"

definition carries :: "('txt, 'a) seams_scheme \<Rightarrow> u16 list \<Rightarrow> 'txt tables \<Rightarrow> engine_action list \<Rightarrow> 'txt tables \<Rightarrow> bool" where
  "carries S X T acts T' \<longleftrightarrow> list_all action_ok acts \<and>
     (\<forall>port. port \<notin> set X \<longrightarrow> table_view S T' port = Free \<or> fold (carry S) acts (table_view S T) port = table_view S T' port)"

text \<open>The blind ports of the entries of a batch, collected as it is applied.\<close>

definition entry_blind :: "('txt, 'a) seams_scheme \<Rightarrow> bool \<Rightarrow> entry \<Rightarrow> 'txt batch \<Rightarrow> u16 list" where
  "entry_blind S degraded e b =
     (case ent_payload e of Normal request \<Rightarrow> op_blind S degraded (op request) (bt_tables b) | _ \<Rightarrow> [])"

fun entries_blind :: "('txt, 'a) seams_scheme \<Rightarrow> bool \<Rightarrow> entry list \<Rightarrow> 'txt batch \<Rightarrow> u16 list" where
  "entries_blind S degraded [] b = []"
| "entries_blind S degraded (e # es) b =
     entry_blind S degraded e b @
     (case apply_entry S degraded e b of Inl _ \<Rightarrow> [] | Inr b' \<Rightarrow> entries_blind S degraded es b')"

definition batch_blind :: "('txt, 'a) seams_scheme \<Rightarrow> bool \<Rightarrow> entry list \<Rightarrow> 'txt tables \<Rightarrow> u16 list" where
  "batch_blind S degraded es T =
     entries_blind S degraded es
       \<lparr>bt_applied = read_applied T,
        bt_tables = T\<lparr>sm_op_dedup := gc_dedup S (logical_clock_secs (read_applied T)) (sm_op_dedup T)\<rparr>,
        bt_responses = [], bt_actions = []\<rparr>"

fun deletes_zero :: "entry \<Rightarrow> bool" where
  "deletes_zero e = (case ent_payload e of Normal request \<Rightarrow> op request = DeleteImposter 0 | _ \<Rightarrow> False)"

text \<open>A log of a node: batches of entries, each applied and driven; the ports left to the exceptions.\<close>

fun node_run ::
  "('txt, 'a) seams_scheme \<Rightarrow> 'e engine_ops \<Rightarrow> entry list list \<Rightarrow> 'txt tables \<times> 'e drive \<Rightarrow>
   storage_error + ('txt tables \<times> 'e drive) \<times> u16 list" where
  "node_run S E [] s = Inr (s, [])"
| "node_run S E (es # batches) s =
     (case node_apply S E es s of
        Inl error \<Rightarrow> Inl error
      | Inr (s1, logged) \<Rightarrow>
          (case node_run S E batches s1 of
             Inl error \<Rightarrow> Inl error
           | Inr (s2, missed) \<Rightarrow> Inr (s2, logged @ batch_blind S (is_degraded (snd s)) es (fst s) @ missed)))"

definition in_tune ::
  "('e \<Rightarrow> u16 \<Rightarrow> imposter_config option) \<Rightarrow> ('txt, 'a) seams_scheme \<Rightarrow> u16 set \<Rightarrow> 'txt tables \<Rightarrow> 'e drive \<Rightarrow> bool" where
  "in_tune served S X T d \<longleftrightarrow> settled served (table_view S T) X d \<and> modes_follow (table_view S T) X d"

text \<open>Samples: a stub recorded from a proxy that also answers by proxy, the node that stored it on a
  port of its own, and a core that refuses a config while it holds saved responses.\<close>

definition mixed_stub :: stub where
  "mixed_stub =
     \<lparr>stub_id = None, stub_space = None, stub_predicates = [],
      stub_responses = [OtherResponse (JStr ''recorded''), Proxy ''up'' None JNull],
      stub_recorded_from = Some ''up'', stub_rest = JNull\<rparr>"

definition live_stub :: stub where
  "live_stub = mixed_stub\<lparr>stub_responses := [Proxy ''up'' None JNull]\<rparr>"

definition strict_seams :: "doc seams" where
  "strict_seams =
     doc_seams\<lparr>admission_check := (\<lambda>c. if list_ex (\<lambda>s. list_ex (is_recorded doc_seams) (stub_responses s)) (ic_stubs c)
                                      then Inl ''saved responses'' else Inr ())\<rparr>"

definition stored_node :: "doc seams \<Rightarrow> doc tables \<times> map_engine drive" where
  "stored_node S =
     fst (projr (node_run S (map_engine S)
       [[sample_entry 1 (sample_request ''a'' 0 None (PutImposter (sample_config 4545 [mixed_stub]) None))]]
       (reconcile_engine S (map_engine S) (\<lambda>s. s) (empty_tables, fresh_drive []))))"

definition clear_batch :: "entry list" where
  "clear_batch = [sample_entry 2 (sample_request ''b'' 0 None (ProxyRecordedClear 4545))]"

section \<open>Lemmas: the view of the tables\<close>

lemma table_view_configs: "sm_configs T' = sm_configs T \<Longrightarrow> table_view S T' = table_view S T"
  by (simp add: table_view_def fun_eq_iff)

lemma view_markers [simp]:
  "table_view S (forget_markers p hs T) = table_view S T" "table_view S (forget_port p T) = table_view S T"
  "table_view S (forget_replaced S' p config T) = table_view S T" "table_view S (T\<lparr>sm_proxy_recorded := t\<rparr>) = table_view S T"
  "table_view S (T\<lparr>sm_op_dedup := u\<rparr>) = table_view S T" "table_view S (T\<lparr>sm_applied := a\<rparr>) = table_view S T"
  by (simp_all add: table_view_def fun_eq_iff)

lemma view_store:
  assumes "codec_ok S"
  shows "table_view S (store_imposter S port record config index T) = (table_view S T)(port := judged S config)"
  using codec_simps [OF assms]
  by (auto simp: table_view_def fun_eq_iff store_imposter_def admit_row_def judged_def split: sum.splits)

lemma view_load:
  assumes "load_imposter S T port = Inr (record, config)"
  shows "table_view S T port = judged S config"
  using assms by (auto simp: load_imposter_def table_view_def admit_row_def judged_def split: option.splits sum.splits)

lemma desired_held: "ds_held (desired_configs S rows) = map fst rows"
  by (induction rows) (auto simp: Let_def split: sum.splits prod.splits)

lemma admitted_port:
  assumes "imposter_row_ok S n (port, row)" and "admit_row S row = Inr c"
  shows "ic_port c = Some port"
  using assms by (auto simp: imposter_row_ok_def admit_row_def split: sum.splits)

lemma desired_ports:
  assumes "list_all (imposter_row_ok S n) rows"
  shows "set (List.map_filter ic_port (ds_admitted (desired_configs S rows))) \<subseteq> fst ` set rows \<and>
    list_all (\<lambda>c. ic_port c \<noteq> None) (ds_admitted (desired_configs S rows)) \<and>
    (ds_refused (desired_configs S rows) = [] \<longrightarrow>
       fst ` set rows \<subseteq> set (List.map_filter ic_port (ds_admitted (desired_configs S rows))))"
  using assms
proof (induction rows)
  case (Cons kv rows)
  obtain p row where kv: "kv = (p, row)" by (cases kv)
  show ?case
  proof (cases "admit_row S row")
    case (Inl reason)
    with Cons kv show ?thesis by (auto simp: Let_def)
  next
    case (Inr c)
    with admitted_port [of S n p row c] Cons.prems kv have "ic_port c = Some p" by simp
    with Inr Cons kv show ?thesis by (auto simp: Let_def List.map_filter_simps)
  qed
qed (simp add: List.map_filter_simps)

lemma desired_distinct:
  assumes "list_all (imposter_row_ok S n) rows" and "distinct (map fst rows)"
  shows "distinct (List.map_filter ic_port (ds_admitted (desired_configs S rows)))"
  using assms
proof (induction rows)
  case (Cons kv rows)
  obtain p row where kv: "kv = (p, row)" by (cases kv)
  show ?case
  proof (cases "admit_row S row")
    case (Inl reason)
    with Cons kv show ?thesis by (simp add: Let_def)
  next
    case (Inr c)
    with admitted_port [of S n p row c] Cons.prems kv have "ic_port c = Some p" by simp
    with Inr Cons kv desired_ports [of S n rows] show ?thesis by (auto simp: Let_def List.map_filter_simps)
  qed
qed (simp add: List.map_filter_simps)

lemma desired_admitted:
  assumes "list_all (imposter_row_ok S n) rows" and "distinct (map fst rows)"
  shows "config_for (ds_admitted (desired_configs S rows)) port =
    (case tget rows port of None \<Rightarrow> None | Some row \<Rightarrow> (case admit_row S row of Inr c \<Rightarrow> Some c | Inl _ \<Rightarrow> None))"
  using assms
proof (induction rows)
  case (Cons kv rows)
  obtain p row where kv: "kv = (p, row)" by (cases kv)
  have IH: "config_for (ds_admitted (desired_configs S rows)) port =
      (case tget rows port of None \<Rightarrow> None | Some row \<Rightarrow> (case admit_row S row of Inr c \<Rightarrow> Some c | Inl _ \<Rightarrow> None))"
    using Cons by simp
  have "tget rows p = None" using Cons.prems kv by (simp add: tget_notin)
  moreover have "ic_port c = Some p" if "admit_row S row = Inr c" for c
    using admitted_port that Cons.prems kv by fastforce
  ultimately show ?case using IH kv
    by (cases "admit_row S row") (auto simp: Let_def config_for_def)
qed (simp add: config_for_def)

lemma sync_carries:
  assumes "tables_wf S n T"
  shows "carry U (sync_action S (sm_configs T)) v = table_view S T"
    and "action_ok (sync_action S (sm_configs T))"
proof -
  have rows: "distinct (map fst (sm_configs T))" "list_all (imposter_row_ok S n) (sm_configs T)"
    using assms by (auto simp: tables_wf_def twf_distinct)
  have "carry U (sync_action S (sm_configs T)) v port = table_view S T port" for port
    using desired_admitted [OF rows(2,1), of port] tkeys_tget [of port "sm_configs T"]
    by (auto simp: sync_action_def desired_held table_view_def split: option.split sum.split)
  then show "carry U (sync_action S (sm_configs T)) v = table_view S T" by (rule ext)
  show "action_ok (sync_action S (sm_configs T))"
    using desired_ports [OF rows(2)] desired_distinct [OF rows(2,1)] by (simp add: sync_action_def desired_held)
qed

section \<open>Lemmas: the drives of an op carry its view\<close>

lemma load_port:
  assumes "tables_wf S n T" and "no_port_zero T" and "load_imposter S T port = Inr (rec, config)"
  shows "ic_port config = Some port" and "port \<noteq> 0"
  using load_imposter_wf [OF assms(1,3)] assms(2,3)
  by (auto simp: no_port_zero_def load_imposter_Inr)

lemma carries_same: "sm_configs T' = sm_configs T \<Longrightarrow> carries S X T [] T'"
  by (simp add: carries_def table_view_def)

lemma carries_sync:
  assumes "tables_wf S n T'"
  shows "carries S X T [sync_action S (sm_configs T')] T'"
  using sync_carries(1) [OF assms, of S] sync_carries(2) [OF assms] by (simp add: carries_def)

lemma edit_drive_carries:
  assumes load: "load_imposter S T port = Inr (rec, config)" and port: "ic_port config' = Some port" "port \<noteq> 0"
    and view: "table_view S T' = (table_view S T)(port := judged S config')"
    and act: "action_ok a" "\<And>v q. q \<noteq> port \<Longrightarrow> carry S a v q = v q"
      "\<And>v. v port = Serve config \<Longrightarrow> port \<notin> set X \<Longrightarrow> carry S a v port = Serve config'"
  shows "carries S X T (edit_drive S (\<not> isl (admission_check S config)) config' a) T'"
proof (cases "admission_check S config'")
  case (Inl reason)
  with view show ?thesis by (simp add: carries_def edit_drive_def judged_def)
next
  case (Inr u)
  show ?thesis
  proof (cases "isl (admission_check S config)")
    case True
    with Inr view port show ?thesis by (simp add: carries_def edit_drive_def judged_def)
  next
    case False
    with view_load [OF load] have "table_view S T port = Serve config" by (simp add: judged_def)
    with False Inr view act show ?thesis by (simp add: carries_def edit_drive_def judged_def)
  qed
qed

lemma put_carries:
  assumes codec: "codec_ok S" and wf: "tables_wf S n T" and "ic_port config = Some port" "port \<noteq> 0"
    and run: "put_imposter S config restart n degraded T = (T', Inr acts)"
  shows "carries S X T acts T'"
proof -
  have wf': "tables_wf S n T'" using put_imposter_wf [OF codec wf, of config restart degraded] run by simp
  have view: "table_view S T' = (table_view S T)(port := judged S config)"
    using run assms(3) by (auto simp: put_imposter_def Let_def view_store [OF codec])
  show ?thesis
  proof (cases degraded)
    case True
    then have "acts = sync_action S (sm_configs T') # (case restart of None \<Rightarrow> [] | Some r \<Rightarrow> [RestartAction port r (ic_stubs config)])"
      using run assms(3) by (auto simp: put_imposter_def Let_def)
    with sync_carries(1) [OF wf', of S] sync_carries(2) [OF wf'] view show ?thesis
      by (simp add: carries_def judged_def split: option.split)
  next
    case False
    then have "acts = [PutAction config restart]" using run assms(3) by (auto simp: put_imposter_def Let_def)
    with view assms(3,4) show ?thesis by (simp add: carries_def judged_def)
  qed
qed

lemma patch_carries:
  assumes codec: "codec_ok S" and wf: "tables_wf S n T" "no_port_zero T"
    and run: "patch_stubs S port edit n T = (T', Inr acts)"
  shows "carries S X T acts T'"
proof -
  obtain rec config stubs where load: "load_imposter S T port = Inr (rec, config)"
    and edit: "apply_edit (ic_stubs config) edit = (stubs, Inr ())"
    using run by (auto simp: patch_stubs_def split: sum.splits prod.splits)
  let ?config' = "config\<lparr>ic_stubs := stubs\<rparr>"
  have acts: "acts = edit_drive S (\<not> isl (admission_check S config)) ?config' (PatchAction port edit)"
    and view: "table_view S T' = (table_view S T)(port := judged S ?config')"
    using run load edit by (auto simp: patch_stubs_def Let_def view_store [OF codec])
  have "edit_all edit (ic_stubs config) = Some stubs"
    using edit by (intro apply_steps_edit_all) (auto simp: apply_edit_def split: sum.splits)
  with load_port [OF wf load] show ?thesis unfolding acts
    by (intro edit_drive_carries [OF load _ _ view]) (simp_all add: on_stubs_def)
qed

lemma set_enabled_carries:
  assumes codec: "codec_ok S" and wf: "tables_wf S n T" "no_port_zero T"
    and run: "set_enabled S port enabled n T = (T', Inr acts)"
  shows "carries S X T acts T'"
proof -
  obtain rec config where load: "load_imposter S T port = Inr (rec, config)"
    using run by (auto simp: set_enabled_def split: sum.splits prod.splits)
  let ?config' = "config\<lparr>ic_enabled := enabled\<rparr>"
  have acts: "acts = edit_drive S (\<not> isl (admission_check S config)) ?config' (SetEnabledAction port enabled)"
    and view: "table_view S T' = (table_view S T)(port := judged S ?config')"
    using run load by (auto simp: set_enabled_def Let_def view_store [OF codec])
  from load_port [OF wf load] show ?thesis unfolding acts
    by (intro edit_drive_carries [OF load _ _ view]) simp_all
qed

lemma delete_carries:
  assumes wf: "tables_wf S n T" and port: "port \<noteq> 0" and run: "delete_imposter S port degraded T = (T', Inr acts)"
  shows "carries S X T acts T'"
proof -
  have wf': "tables_wf S n T'" using delete_wf [OF wf, of port degraded] run by simp
  have acts: "acts = [if degraded then sync_action S (sm_configs T') else DeleteAction port]"
    and view: "table_view S T' = (table_view S T)(port := Absent)"
    using run by (auto simp: delete_imposter_def Let_def table_view_def)
  show ?thesis
  proof (cases degraded)
    case True
    with acts carries_sync [OF wf'] show ?thesis by simp
  next
    case False
    with acts view port show ?thesis by (simp add: carries_def)
  qed
qed

lemma merged_append:
  assumes "place_recorded_stub stubs s placement target m = (stubs', MergedInto n i)" and "distinct_ids stubs"
  shows "engine_append i (stub_responses s) stubs = Some stubs'" and "engine_edit (ReplaceById i (stubs' ! n)) stubs = Some stubs'"
proof -
  have n: "n < length stubs" "stub_id (stubs ! n) = Some i" and stubs': "stubs' = stubs[n := merge_responses (stubs ! n) s]"
    using assms(1) by (cases rule: place_cases; auto split: option.splits)+
  then have pos: "position (has_id i) stubs = Some n" using position_has_id [OF assms(2)] by simp
  then show "engine_append i (stub_responses s) stubs = Some stubs'"
    by (simp add: engine_append_def stubs' merge_responses_def)
  have "(merge_responses (stubs ! n) s)\<lparr>stub_id := Some i\<rparr> = merge_responses (stubs ! n) s"
    using n(2) by (simp add: merge_responses_def)
  with pos n(1) stubs' show "engine_edit (ReplaceById i (stubs' ! n)) stubs = Some stubs'" by simp
qed

lemma record_carries:
  assumes codec: "codec_ok S" and wf: "tables_wf S n T" "no_port_zero T"
    and load: "load_imposter S T port = Inr (rec, config)"
    and run: "record_with_stub S port sig_hash resp recorded n rec config T = (T', Inr acts)"
  shows "carries S (op_blind S degraded (ProxyRecorded port sig_hash resp (Some recorded)) T) T acts T'"
    (is "carries S ?X T acts T'")
proof -
  define s where "s = assign_recorded_id (ic_stubs config) sig_hash n (rs_stub recorded)"
  obtain stubs placed where place: "place_recorded_stub (ic_stubs config) s (rs_placement recorded)
      (rs_proxy_to recorded) (rs_anchor_index recorded) = (stubs, placed)" by fastforce
  let ?config' = "config\<lparr>ic_stubs := stubs\<rparr>"
  have wf': "tables_wf S n T'" using record_with_stub_wf [OF codec wf(1) load, of sig_hash resp recorded] run by simp
  have view: "table_view S T' = (table_view S T)(port := judged S ?config')"
    using run place by (auto simp: record_with_stub_def Let_def s_def view_store [OF codec])
  note edit = edit_drive_carries [OF load _ _ view, where X = ?X]
  note port = load_port [OF wf load]
  show ?thesis
  proof (cases placed)
    case (Inserted i)
    have stubs: "stubs = insert_at i s (ic_stubs config)" "i \<le> length (ic_stubs config)"
      using place Inserted by (cases rule: place_cases; auto split: option.splits)+
    have acts: "acts = edit_drive S (\<not> isl (admission_check S config)) ?config' (PatchAction port [AddStub (stubs ! i) (Some i)])"
      using run place Inserted by (auto simp: record_with_stub_def Let_def s_def)
    show ?thesis unfolding acts
      by (rule edit) (use port stubs in \<open>simp_all add: on_stubs_def nth_insert_at min_def\<close>)
  next
    case (MergedInto m i)
    have merging: "rs_placement recorded = AfterProxyMerging"
      using place MergedInto by (cases rule: place_cases; auto)
    have "acts = edit_drive S (\<not> isl (admission_check S config)) ?config' (AppendResponses port i (stub_responses s) (stubs ! m))"
      using run place MergedInto by (auto simp: record_with_stub_def Let_def s_def)
    moreover have "distinct_ids (ic_stubs config)" if "port \<notin> set ?X" using that load merging by (auto split: if_splits)
    ultimately show ?thesis using port merged_append [OF place [unfolded MergedInto]]
      by (auto intro!: edit simp: on_stubs_def simp del: op_blind.simps engine_edit.simps)
  next
    case MergedAnonymous
    then have "acts = [sync_action S (sm_configs T')]" using run place by (auto simp: record_with_stub_def Let_def s_def)
    with carries_sync [OF wf'] show ?thesis by simp
  qed
qed

lemma clear_carries:
  assumes codec: "codec_ok S" and wf: "tables_wf S n T" "no_port_zero T"
    and run: "proxy_recorded_clear S port n degraded T = (T', Inr acts)"
  shows "carries S (op_blind S degraded (ProxyRecordedClear port) T) T acts T'" (is "carries S ?X T acts T'")
proof -
  have same: "load_imposter S (forget_port port T) port = load_imposter S T port" by (simp add: load_imposter_def)
  show ?thesis
  proof (cases "load_imposter S T port")
    case (Inl reason)
    with run same have "acts = []" "T' = forget_port port T" by (auto simp: proxy_recorded_clear_def)
    then show ?thesis by (simp add: carries_same)
  next
    case (Inr p)
    obtain rec config where p: "p = (rec, config)" by (cases p)
    define stubs where "stubs = fst (strip_proxy_responses S (ic_stubs config))"
    let ?config' = "config\<lparr>ic_stubs := stubs\<rparr>"
    have load: "table_view S T port = judged S config" using view_load [OF Inr [unfolded p]] .
    have wf': "tables_wf S n T'" using proxy_recorded_clear_wf [OF codec wf(1), of port degraded] run by simp
    have "table_view S T' = (table_view S T)(port := judged S ?config')"
    proof (cases "snd (strip_proxy_responses S (ic_stubs config))")
      case True
      with run same Inr p show ?thesis
        by (auto simp: proxy_recorded_clear_def Let_def view_store [OF codec] stubs_def split: prod.splits)
    next
      case False
      then have "?config' = config" by (simp add: strip_flag_iff stubs_def)
      moreover have "table_view S T' = table_view S T" using False run same Inr p
        by (auto simp: proxy_recorded_clear_def Let_def split: prod.splits)
      ultimately show ?thesis using load by (metis fun_upd_triv)
    qed
    note view = this
    have acts: "acts = (if degraded \<or> isl (admission_check S ?config') then [sync_action S (sm_configs T'), ClearProxyResponses port]
        else [ClearProxyResponses port])"
      using run same Inr p by (auto simp: proxy_recorded_clear_def Let_def stubs_def split: prod.splits)
    have X: "?X = (if \<not> isl (admission_check S ?config') \<and> degraded \<and> fst (strip_proxy_responses S stubs) \<noteq> stubs then [port]
        else if \<not> isl (admission_check S ?config') \<and> \<not> degraded \<and> isl (admission_check S config) then [port] else [])"
      using Inr p by (simp add: Let_def stubs_def)
    show ?thesis
    proof (cases "degraded \<or> isl (admission_check S ?config')")
      case True
      with acts X view sync_carries(1) [OF wf', of S] sync_carries(2) [OF wf'] show ?thesis
        by (auto simp: carries_def judged_def on_stubs_def simp del: op_blind.simps)
    next
      case False
      with acts X view load show ?thesis
        by (auto simp: carries_def judged_def on_stubs_def stubs_def simp del: op_blind.simps)
    qed
  qed
qed

lemma mutate_carries:
  assumes codec: "codec_ok S" and wf: "tables_wf S n T" "no_port_zero T"
    and valid: "validate S cop = Inr ()" "cop \<noteq> DeleteImposter 0"
    and run: "mutate_tables S cop n degraded T = (T', Inr acts)"
  shows "carries S (op_blind S degraded cop T) T acts T'"
proof (cases cop)
  case (PutImposter config restart)
  then obtain port where "ic_port config = Some port" "port \<noteq> 0"
    using valid by (cases "ic_port config") (auto simp: validate_replicable_config_def split: if_splits)
  with put_carries [OF codec wf(1)] run PutImposter show ?thesis by simp
next
  case (DeleteImposter port)
  with delete_carries [OF wf(1)] valid run show ?thesis by simp
next
  case DeleteAll
  with carries_sync [of S n T'] delete_all_wf [OF wf(1)] run show ?thesis by (auto simp: delete_all_def Let_def)
next
  case (ProxyRecorded port sig_hash resp rstub)
  show ?thesis
  proof (cases "sm_configs T' = sm_configs T \<and> acts = []")
    case True
    then show ?thesis by (simp add: carries_same)
  next
    case False
    then obtain recorded rec config where "rstub = Some recorded" "load_imposter S T port = Inr (rec, config)"
      "record_with_stub S port sig_hash resp recorded n rec config T = (T', Inr acts)"
      using run ProxyRecorded by (auto simp: proxy_recorded_def Let_def split: if_splits option.splits sum.splits)
    with record_carries [OF codec wf] ProxyRecorded show ?thesis by blast
  qed
next
  case (PatchStubs port edit)
  with patch_carries [OF codec wf] run show ?thesis by simp
next
  case (SetEnabled port enabled)
  with set_enabled_carries [OF codec wf] run show ?thesis by simp
next
  case (ProxyRecordedClear port)
  show ?thesis unfolding ProxyRecordedClear
    by (rule clear_carries [OF codec wf]) (use run ProxyRecordedClear in simp)
qed (use run in \<open>auto simp: put_routes_def delete_route_def session_key_put_def fleet_name_put_def sync_routes_action_def Let_def
       carries_def table_view_def split: sum.splits\<close>)

lemma run_op_carries:
  assumes "codec_ok S" and "tables_wf S n T" "no_port_zero T" and "op request \<noteq> DeleteImposter 0"
    and "run_op S degraded n request T = (T', Inr acts)"
  shows "carries S (op_blind S degraded (op request) T) T acts T'"
  using assms mutate_carries [OF assms(1-3), of "op request" degraded T' acts]
  by (auto simp: run_op_def split: sum.splits)

lemma run_op_no_zero:
  assumes "no_port_zero T" shows "no_port_zero (fst (run_op S degraded n request T))"
proof (cases "validate S (op request)")
  case (Inr u)
  have "no_port_zero (fst (mutate_tables S (op request) n degraded T))"
  proof (cases "op request")
    case (PutImposter config restart)
    with Inr have "ic_port config \<noteq> Some 0" by (auto simp: validate_replicable_config_def split: if_splits)
    with PutImposter assms show ?thesis by (auto simp: no_port_zero_def put_imposter_def Let_def split: option.split)
  qed (use assms in \<open>auto simp: no_port_zero_def patch_stubs_def set_enabled_def delete_imposter_def delete_all_def put_routes_def
        delete_route_def session_key_put_def fleet_name_put_def proxy_recorded_def record_with_stub_def proxy_recorded_clear_def
        load_imposter_def Let_def split: option.splits sum.splits prod.splits if_splits\<close>)
  with Inr assms show ?thesis by (auto simp: run_op_def split: sum.split)
qed (use assms in \<open>simp add: run_op_def\<close>)

section \<open>Lemmas: a node keeps in step\<close>

lemma modes_weaken:
  assumes "modes_follow v X d" and "\<And>port. port \<notin> X' \<Longrightarrow> v' port = Free \<or> v' port = v port" and "X \<subseteq> X'"
  shows "modes_follow v' X' d"
  using assms unfolding modes_follow_def by (metis port_view.distinct(5) subsetD)

lemma drive_engine_keeps:
  assumes contract: "engine_contract U E served"
  shows "list_all action_ok (map aa_action acts) \<Longrightarrow> settled served v X d \<Longrightarrow> modes_follow v X d \<Longrightarrow>
    drive_engine U E acts d = (d', logged) \<Longrightarrow>
    settled served (fold (carry U) (map aa_action acts) v) (X \<union> set logged) d' \<and>
    modes_follow (fold (carry U) (map aa_action acts) v) (X \<union> set logged) d'"
proof (induction acts arbitrary: v X d logged)
  case (Cons a acts)
  obtain d1 l1 where one: "drive_one U E (aa_action a) d = (d1, l1)" by (cases "drive_one U E (aa_action a) d")
  obtain d2 l2 where rest: "drive_engine U E acts d1 = (d2, l2)" by (cases "drive_engine U E acts d1")
  have end_state: "d' = d2" "logged = l1 @ l2" using Cons.prems(4) one rest by simp_all
  obtain e where "dr_engine d = Some e" using Cons.prems(2) by (auto simp: settled_def)
  then have "settled served (carry U (aa_action a) v) (X \<union> set l1) d1"
    and "modes_follow (carry U (aa_action a) v) X d1"
    using drive_one_settles [OF contract Cons.prems(2) _ one] drive_one_modes [OF Cons.prems(3) _ _ one] Cons.prems(1) by simp_all
  moreover from this(2) have "modes_follow (carry U (aa_action a) v) (X \<union> set l1) d1"
    by (rule modes_weaken) auto
  ultimately show ?case
    using Cons.IH [of "carry U (aa_action a) v" "X \<union> set l1" d1 l2] Cons.prems(1) rest end_state by (simp add: Un_assoc)
qed simp

lemma in_tune_view:
  assumes "in_tune served S X T d" and "table_view S T' = table_view S T" shows "in_tune served S X T' d"
  using assms by (simp add: in_tune_def)

lemma in_tune_mono: "in_tune served S X T d \<Longrightarrow> X \<subseteq> X' \<Longrightarrow> in_tune served S X' T d"
  unfolding in_tune_def by (blast intro: settled_weaken modes_weaken)

lemma carries_in_tune:
  assumes "engine_contract S E served" and "in_tune served S X T d" and "carries S B T (map aa_action acts) T'"
    and "drive_engine S E acts d = (d', logged)"
  shows "in_tune served S (X \<union> set logged \<union> set B) T' d'"
proof -
  let ?v = "fold (carry S) (map aa_action acts) (table_view S T)"
  have view: "table_view S T' port = Free \<or> table_view S T' port = ?v port" if "port \<notin> X \<union> set logged \<union> set B" for port
    using assms(3) that unfolding carries_def by auto
  have "settled served ?v (X \<union> set logged) d'" "modes_follow ?v (X \<union> set logged) d'"
    using drive_engine_keeps [OF assms(1) _ _ _ assms(4)] assms(2,3) by (auto simp: in_tune_def carries_def)
  then show ?thesis unfolding in_tune_def
    by (intro conjI settled_weaken [where v' = "table_view S T'", OF _ view] modes_weaken [where v' = "table_view S T'", OF _ view]) auto
qed

lemma entry_in_tune:
  assumes contract: "engine_contract S E served" and codec: "codec_ok S"
    and wf: "batch_wf S b" "no_port_zero (bt_tables b)" "log_follows (last_applied_log (bt_applied b)) [e]"
    and ok: "\<not> deletes_zero e" and run: "apply_entry S degraded e b = Inr b'"
  obtains new where "bt_actions b' = bt_actions b @ new" "no_port_zero (bt_tables b')"
    "\<And>d X d' logged. in_tune served S X (bt_tables b) d \<Longrightarrow> drive_engine S E new d = (d', logged) \<Longrightarrow>
       in_tune served S (X \<union> set logged \<union> set (entry_blind S degraded e b)) (bt_tables b') d'"
proof (cases "ent_payload e")
  case (Normal request)
  let ?n = "lid_index (ent_log_id e)"
  let ?b = "b\<lparr>bt_applied := (bt_applied b)\<lparr>last_applied_log := Some (ent_log_id e)\<rparr>\<rparr>"
  have tables: "tables_wf S ?n (bt_tables b)"
    using wf(1,3) unfolding batch_wf_def by (rule tables_wf_mono [OF _ log_follows_index])
  then have "tables_wf S ?n (bt_tables ?b)" by simp
  then show thesis
  proof (cases rule: apply_request_cases [where d = degraded and request = request])
    case (Replay response)
    then have "bt_tables b' = bt_tables b" "bt_actions b' = bt_actions b @ []"
      using run Normal by (auto simp: apply_entry_def Let_def)
    with wf(2) show thesis by (intro that [of "[]"]) (auto intro: in_tune_mono)
  next
    case (Fresh T out acts0)
    define acts where "acts = (case out of Inr as \<Rightarrow> map (\<lambda>a. \<lparr>aa_principal = principal request, aa_action = a\<rparr>) as | Inl _ \<Rightarrow> [])"
    have b': "bt_actions b' = bt_actions b @ acts" "table_view S (bt_tables b') = table_view S T"
      "sm_configs (bt_tables b') = sm_configs T"
      using run Normal Fresh(1,2)
      by (auto simp: apply_entry_def apply_request_def Let_def acts_def request_clock_def table_view_def split: sum.splits)
    have runop: "run_op S degraded ?n request (bt_tables b) = (T, out)" using Fresh(2) by simp
    have zero: "no_port_zero T" using run_op_no_zero [OF wf(2), of S degraded ?n request] runop by simp
    have "carries S (op_blind S degraded (op request) (bt_tables b)) (bt_tables b) (map aa_action acts) T"
    proof (cases out)
      case (Inl reason)
      then have "T = bt_tables b" using run_op_refused [of S degraded ?n request "bt_tables b" reason] runop by simp
      with Inl show ?thesis by (simp add: acts_def carries_same)
    next
      case (Inr as)
      with run_op_carries [OF codec tables wf(2)] runop ok Normal show ?thesis by (simp add: acts_def o_def)
    qed
    from carries_in_tune [OF contract _ this] b' zero Normal show thesis
      by (intro that [of acts]) (simp_all add: entry_blind_def no_port_zero_def in_tune_def)
  qed
qed (use run wf(2) that [of "[]"] in \<open>auto simp: apply_entry_def entry_blind_def Let_def\<close>)

lemma drive_engine_append:
  "drive_engine U E (as @ bs) d =
     (let (d1, l1) = drive_engine U E as d; (d2, l2) = drive_engine U E bs d1 in (d2, l1 @ l2))"
  by (induction as arbitrary: d) (simp_all add: Let_def split: prod.splits)

lemma entries_in_tune:
  assumes contract: "engine_contract S E served" and codec: "codec_ok S"
  shows "batch_wf S b \<Longrightarrow> no_port_zero (bt_tables b) \<Longrightarrow> log_follows (last_applied_log (bt_applied b)) es \<Longrightarrow>
    list_all (\<lambda>e. \<not> deletes_zero e) es \<Longrightarrow> apply_entries S degraded es b = Inr b' \<Longrightarrow>
    \<exists>new. bt_actions b' = bt_actions b @ new \<and> no_port_zero (bt_tables b') \<and>
      (\<forall>d X d' logged. in_tune served S X (bt_tables b) d \<longrightarrow> drive_engine S E new d = (d', logged) \<longrightarrow>
         in_tune served S (X \<union> set logged \<union> set (entries_blind S degraded es b)) (bt_tables b') d')"
proof (induction es arbitrary: b)
  case Nil
  then show ?case by (intro exI [of _ "[]"]) auto
next
  case (Cons e es)
  obtain b1 where first: "apply_entry S degraded e b = Inr b1" and rest: "apply_entries S degraded es b1 = Inr b'"
    using Cons.prems(5) by (auto split: sum.splits)
  have one: "log_follows (last_applied_log (bt_applied b)) [e]" using Cons.prems(3) log_follows_append [of _ "[e]" es] by simp
  obtain new1 where new1: "bt_actions b1 = bt_actions b @ new1" "no_port_zero (bt_tables b1)"
    and tune1: "\<And>d X d' logged. in_tune served S X (bt_tables b) d \<Longrightarrow> drive_engine S E new1 d = (d', logged) \<Longrightarrow>
       in_tune served S (X \<union> set logged \<union> set (entry_blind S degraded e b)) (bt_tables b1) d'"
    using entry_in_tune [OF contract codec Cons.prems(1,2) one _ first] Cons.prems(4) by (auto simp del: deletes_zero.simps)
  have "log_follows (last_applied_log (bt_applied b1)) es"
    using Cons.prems(3) apply_entry_cursor(1) [OF first] by simp
  from Cons.IH [OF apply_entry_wf [OF codec Cons.prems(1) one first] new1(2) this _ rest] Cons.prems(4)
  obtain new2 where new2: "bt_actions b' = bt_actions b1 @ new2" "no_port_zero (bt_tables b')"
    and tune2: "\<And>d X d' logged. in_tune served S X (bt_tables b1) d \<Longrightarrow> drive_engine S E new2 d = (d', logged) \<Longrightarrow>
       in_tune served S (X \<union> set logged \<union> set (entries_blind S degraded es b1)) (bt_tables b') d'"
    by auto
  have "in_tune served S (X \<union> set logged \<union> set (entries_blind S degraded (e # es) b)) (bt_tables b') d'"
    if tune: "in_tune served S X (bt_tables b) d" and drive: "drive_engine S E (new1 @ new2) d = (d', logged)" for d X d' logged
  proof -
    obtain d1 l1 where d1: "drive_engine S E new1 d = (d1, l1)" by (cases "drive_engine S E new1 d")
    obtain l2 where d2: "drive_engine S E new2 d1 = (d', l2)" and logged: "logged = l1 @ l2"
      using drive d1 by (auto simp: drive_engine_append split: prod.splits)
    show ?thesis by (rule in_tune_mono [OF tune2 [OF tune1 [OF tune d1] d2]]) (use first logged in auto)
  qed
  with new1(1) new2 show ?case by (intro exI [of _ "new1 @ new2"]) auto
qed

lemma batch_in_tune:
  assumes contract: "engine_contract S E served" and codec: "codec_ok S"
    and wf: "tables_wf S (applied_index (read_applied T)) T" "no_port_zero T"
    and follows: "log_follows (last_applied_log (read_applied T)) es" and ok: "list_all (\<lambda>e. \<not> deletes_zero e) es"
    and run: "apply_batch S degraded es T = Inr (T', rs, acts)"
    and tune: "in_tune served S X T d" and drive: "drive_engine S E acts d = (d', logged)"
  shows "in_tune served S (X \<union> set logged \<union> set (batch_blind S degraded es T)) T' d'" and "no_port_zero T'"
proof -
  let ?t = "gc_dedup S (logical_clock_secs (read_applied T)) (sm_op_dedup T)"
  let ?b = "\<lparr>bt_applied = read_applied T, bt_tables = T\<lparr>sm_op_dedup := ?t\<rparr>, bt_responses = [], bt_actions = []\<rparr>"
  obtain b' where entries: "apply_entries S degraded es ?b = Inr b'"
    and T': "T' = (bt_tables b')\<lparr>sm_applied := Some (bt_applied b')\<rparr>" "acts = bt_actions b'"
    using run by (auto simp: apply_batch_def Let_def split: sum.splits)
  have "tables_wf S (applied_index (read_applied T)) (T\<lparr>sm_op_dedup := ?t\<rparr>)"
    using wf(1) by (auto simp: tables_wf_def list_all_tretain marker_ok_def [abs_def] gc_dedup_def)
  then have "batch_wf S ?b" by (simp add: batch_wf_def)
  moreover have "no_port_zero (bt_tables ?b)" using wf(2) by (simp add: no_port_zero_def)
  moreover have "log_follows (last_applied_log (bt_applied ?b)) es" using follows by simp
  ultimately obtain new where new: "bt_actions b' = bt_actions ?b @ new" and zero: "no_port_zero (bt_tables b')"
    and keep: "\<And>d X d' logged. in_tune served S X (bt_tables ?b) d \<Longrightarrow> drive_engine S E new d = (d', logged) \<Longrightarrow>
         in_tune served S (X \<union> set logged \<union> set (entries_blind S degraded es ?b)) (bt_tables b') d'"
    using entries_in_tune [OF contract codec _ _ _ ok entries] by blast
  have "in_tune served S X (bt_tables ?b) d" using tune by (rule in_tune_view) simp
  then have "in_tune served S (X \<union> set logged \<union> set (entries_blind S degraded es ?b)) (bt_tables b') d'"
    using keep drive new T'(2) by simp
  with zero show "in_tune served S (X \<union> set logged \<union> set (batch_blind S degraded es T)) T' d'" and "no_port_zero T'"
    by (simp_all add: batch_blind_def T'(1) in_tune_def no_port_zero_def)
qed

lemma reconcile_in_tune:
  assumes contract: "engine_contract S E served" and wf: "tables_wf S n T"
    and "dr_engine d = Some e" and "pred_option twf (dr_sequencing d)"
  shows "in_tune served S {} T (snd (reconcile_engine S E (\<lambda>s. s) (T, d)))"
proof -
  let ?acts = "[sync_action S (sm_configs T), sync_routes_action S (sm_routes T)]"
  obtain d1 logged where run: "drive_engine S E (map (\<lambda>a. \<lparr>aa_principal = None, aa_action = a\<rparr>) ?acts) d = (d1, logged)"
    by (cases "drive_engine S E (map (\<lambda>a. \<lparr>aa_principal = None, aa_action = a\<rparr>) ?acts) d")
  obtain d0 l0 where sync: "drive_one S E (sync_action S (sm_configs T)) d = (d0, l0)"
    by (cases "drive_one S E (sync_action S (sm_configs T)) d")
  have "settled served (table_view S T) {} d0"
    using sync_settles [OF contract assms(3) _ sync [unfolded sync_action_def], of "\<lambda>_. Free"]
      sync_carries(1) [OF wf, of S "\<lambda>_. Free"] sync_carries(2) [OF wf] by (simp add: sync_action_def)
  moreover have "modes_follow (\<lambda>_. Free) {} d" using assms(4) by (auto simp: modes_follow_def)
  then have "modes_follow (table_view S T) {} d0"
    using drive_one_modes [OF _ assms(3) sync_carries(2) [OF wf] sync] sync_carries(1) [OF wf, of S "\<lambda>_. Free"] by metis
  moreover have "d1 = fst (drive_one S E (sync_routes_action S (sm_routes T)) d0)"
    using run sync by (simp split: prod.splits)
  then have "dr_engine d1 = dr_engine d0" "apply_failures d1 = apply_failures d0" "needs_resync d1 = needs_resync d0"
    "dr_sequencing d1 = dr_sequencing d0"
    by (auto simp: sync_routes_action_def split: sum.splits)
  ultimately have d1: "in_tune served S {} T d1" by (simp add: in_tune_def settled_def modes_follow_def)
  have "dr_engine (snd (sweep_orphaned_imposter_state (\<lambda>s. s) (T, d1))) = dr_engine d1"
    "apply_failures (snd (sweep_orphaned_imposter_state (\<lambda>s. s) (T, d1))) = apply_failures d1"
    "needs_resync (snd (sweep_orphaned_imposter_state (\<lambda>s. s) (T, d1))) = needs_resync d1"
    "dr_sequencing (snd (sweep_orphaned_imposter_state (\<lambda>s. s) (T, d1))) = dr_sequencing d1"
    by (simp_all add: sweep_orphaned_imposter_state_def Let_def split: option.split)
  with d1 run show ?thesis by (simp add: reconcile_engine_def in_tune_def settled_def modes_follow_def)
qed

lemma reconcile_tables: "fst (reconcile_engine S E (\<lambda>s. s) (T, d)) = T"
  by (simp add: reconcile_engine_def sweep_orphaned_imposter_state_def Let_def split: option.split prod.split)

lemma run_in_tune:
  assumes contract: "engine_contract S E served" and codec: "codec_ok S"
  shows "tables_wf S (applied_index (read_applied T)) T \<Longrightarrow> no_port_zero T \<Longrightarrow>
    log_follows (last_applied_log (read_applied T)) (concat batches) \<Longrightarrow>
    list_all (\<lambda>e. \<not> deletes_zero e) (concat batches) \<Longrightarrow> in_tune served S X T d \<Longrightarrow>
    \<exists>T' d' missed. node_run S E batches (T, d) = Inr ((T', d'), missed) \<and> in_tune served S (X \<union> set missed) T' d'"
proof (induction batches arbitrary: T d X)
  case (Cons es batches)
  have follows: "log_follows (last_applied_log (read_applied T)) es" using Cons.prems(3) log_follows_append by auto
  obtain T1 rs acts where batch: "apply_batch S (is_degraded d) es T = Inr (T1, rs, acts)"
    and wf1: "tables_wf S (applied_index (read_applied T1)) T1"
    by (rule apply_batch_ok [OF codec Cons.prems(1) follows, of "is_degraded d"]) blast
  obtain d1 logged where drive: "drive_engine S E acts d = (d1, logged)" by (cases "drive_engine S E acts d")
  have ok: "list_all (\<lambda>e. \<not> deletes_zero e) es" "list_all (\<lambda>e. \<not> deletes_zero e) (concat batches)" using Cons.prems(4) by simp_all
  note step = batch_in_tune [OF contract codec Cons.prems(1,2) follows ok(1) batch Cons.prems(5) drive]
  have "log_follows (last_applied_log (read_applied T1)) (concat batches)"
    using apply_batch_follows [OF batch] Cons.prems(3) by simp
  from Cons.IH [OF wf1 step(2) this ok(2) step(1)]
  obtain T' d' missed where "node_run S E batches (T1, d1) = Inr ((T', d'), missed)"
    and "in_tune served S (X \<union> set logged \<union> set (batch_blind S (is_degraded d) es T) \<union> set missed) T' d'" by blast
  with batch drive show ?case by (auto simp: node_apply_def Un_assoc)
qed simp

lemma healthy_serves:
  assumes "in_tune served S X T d" and "\<not> is_degraded d" and "port \<notin> X"
  shows "\<exists>e. dr_engine d = Some e \<and> view_met (table_view S T port) (served e port)"
  using assms by (auto simp: in_tune_def settled_def is_degraded_def)

section \<open>Properties\<close>



section \<open>Where the drives fall behind\<close>

text \<open>
  A node that is degraded when saved responses are cleared drives the whole set first and the clear
  after it: the engine strips the stored stubs a second time, loses the stub the tables keep, and the
  node reports itself healthy.
\<close>

lemma degraded_clear_drops_stub:
  "case stored_node doc_seams of (T, d) \<Rightarrow>
     case node_apply doc_seams (map_engine doc_seams) clear_batch (T, record_failure 9 ''bind'' d) of
       Inl _ \<Rightarrow> False
     | Inr ((T', d'), _) \<Rightarrow>
         \<not> is_degraded d' \<and> table_view doc_seams T' 4545 = Serve (sample_config 4545 [live_stub]) \<and>
         dr_engine d' = Some [(4545, sample_config 4545 [])]"
  by code_simp

text \<open>
  A clear that makes a refused config admissible drives the clear alone, on a port the engine never
  had: the tables hold an admitted config, the node reports itself healthy, and serves nothing.
\<close>

lemma clear_leaves_admitted_unserved:
  "case stored_node strict_seams of (T, d) \<Rightarrow>
     case node_apply strict_seams (map_engine strict_seams) clear_batch (T, d) of
       Inl _ \<Rightarrow> False
     | Inr ((T', d'), _) \<Rightarrow>
         \<not> is_degraded d' \<and> table_view strict_seams T' 4545 = Serve (sample_config 4545 [live_stub]) \<and>
         dr_engine d' = Some []"
  by code_simp

end
