(* ===== verification/RpcAuth.thy ===== *)
theory RpcAuth
  imports Ring Control
begin

text \<open>
  The credential of a request between members (\<^verbatim>\<open>crates/rift-cluster/src/rpc/auth.rs\<close>): the bytes it
  signs, the header it travels in, the verifier with its bounded cache of nonces. HMAC-SHA256 is a
  parameter; header values are ASCII, as the server reads them.
\<close>

section \<open>Errors and text\<close>

datatype auth_error = Malformed | BadMac | StaleTimestamp | ReplayedNonce | NonceCacheFull

fun auth_reason :: "auth_error \<Rightarrow> string" where
  "auth_reason Malformed = ''malformed''"
| "auth_reason BadMac = ''bad_mac''"
| "auth_reason StaleTimestamp = ''stale_timestamp''"
| "auth_reason ReplayedNonce = ''replayed_nonce''"
| "auth_reason NonceCacheFull = ''nonce_cache_full''"

text \<open>\<^verbatim>\<open>str::split\<close> by a character, \<^verbatim>\<open>str::trim\<close> on ASCII text, and \<^verbatim>\<open>str::parse::<u64>\<close>, which takes a
  leading plus sign.\<close>

fun split_on :: "char \<Rightarrow> string \<Rightarrow> string list" where
  "split_on c [] = [[]]"
| "split_on c (x # s) =
     (if x = c then [] # split_on c s
      else case split_on c s of [] \<Rightarrow> [[x]] | part # parts \<Rightarrow> (x # part) # parts)"

definition ascii_space :: "char \<Rightarrow> bool" where
  "ascii_space c \<longleftrightarrow> is_whitespace (of_char c) \<and> of_char c < (128 :: nat)"

definition trim :: "string \<Rightarrow> string" where
  "trim s = rev (dropWhile ascii_space (rev (dropWhile ascii_space s)))"

definition parse_u64_text :: "string \<Rightarrow> u64 option" where
  "parse_u64_text s =
     (let digits = (case s of c # rest \<Rightarrow> if c = CHR ''+'' then rest else s | [] \<Rightarrow> [])
      in if digits \<noteq> [] \<and> list_all is_ascii_digit digits then parse_u64 digits else None)"

section \<open>What is signed\<close>

record signed_request =
  sr_method :: string
  sr_path :: string
  sr_body :: "u8 list"

definition field_bytes :: "u8 list \<Rightarrow> u8 list" where
  "field_bytes f = to_le_bytes (of_nat (length f)) @ f"

definition canonical :: "u64 \<Rightarrow> string \<Rightarrow> signed_request \<Rightarrow> u8 list" where
  "canonical ts nonce req =
     concat (map field_bytes [key_bytes (show_word ts), key_bytes nonce, key_bytes (sr_method req), key_bytes (sr_path req), sr_body req])"

definition mac :: "(u8 list \<Rightarrow> u8 list \<Rightarrow> u8 list) \<Rightarrow> u8 list \<Rightarrow> u64 \<Rightarrow> string \<Rightarrow> signed_request \<Rightarrow> u8 list" where
  "mac hmac key ts nonce req = hmac key (canonical ts nonce req)"

definition hex_encode :: "u8 list \<Rightarrow> string" where
  "hex_encode bytes = concat (map (\<lambda>b. [hex_digit_lower (unat b div 16), hex_digit_lower (unat b mod 16)]) bytes)"

definition header_at :: "(u8 list \<Rightarrow> u8 list \<Rightarrow> u8 list) \<Rightarrow> u8 list \<Rightarrow> u64 \<Rightarrow> string \<Rightarrow> signed_request \<Rightarrow> string" where
  "header_at hmac key ts nonce req =
     ''t='' @ show_word ts @ '',n='' @ nonce @ '',mac='' @ hex_encode (mac hmac key ts nonce req)"

section \<open>The header read back\<close>

record credential =
  cr_ts :: u64
  cr_nonce :: string
  cr_mac :: "u8 list"

text \<open>The three slots of the loop, as the parts so far left them; an unknown key ends the parse.\<close>

fun parse_parts ::
  "string list \<Rightarrow> u64 option \<times> string option \<times> u8 list option \<Rightarrow> (u64 option \<times> string option \<times> u8 list option) option" where
  "parse_parts [] slots = Some slots"
| "parse_parts (part # parts) (ts, nonce, m) =
     (case split_once ''='' part of
        None \<Rightarrow> None
      | Some (key, value) \<Rightarrow>
          if trim key = ''t'' then parse_parts parts (parse_u64_text (trim value), nonce, m)
          else if trim key = ''n'' then parse_parts parts (ts, Some (trim value), m)
          else if trim key = ''mac'' then parse_parts parts (ts, nonce, hex_pairs (trim value))
          else None)"

definition parse :: "string \<Rightarrow> credential option" where
  "parse header =
     (case parse_parts (split_on (CHR '','') header) (None, None, None) of
        Some (Some ts, Some nonce, Some m) \<Rightarrow>
          if nonce = [] then None else Some \<lparr>cr_ts = ts, cr_nonce = nonce, cr_mac = m\<rparr>
      | _ \<Rightarrow> None)"

section \<open>The verifier\<close>

definition DEFAULT_SKEW :: u64 where "DEFAULT_SKEW = 30"
definition DEFAULT_NONCE_CAPACITY :: nat where "DEFAULT_NONCE_CAPACITY = 100000"

record nonce_cache =
  nc_capacity :: nat
  nc_ttl_secs :: u64
  nc_seen :: "(string, u64) table"

definition saturating_sub :: "u64 \<Rightarrow> u64 \<Rightarrow> u64" where
  "saturating_sub a b = (if b \<le> a then a - b else 0)"

definition saturating_double :: "u64 \<Rightarrow> u64" where
  "saturating_double a = sat_add a a"

definition abs_diff :: "u64 \<Rightarrow> u64 \<Rightarrow> u64" where
  "abs_diff a b = (if b \<le> a then a - b else b - a)"

definition admit_nonce :: "string \<Rightarrow> u64 \<Rightarrow> u64 \<Rightarrow> nonce_cache \<Rightarrow> (auth_error + unit) \<times> nonce_cache" where
  "admit_nonce nonce signed_at now c =
     (if tget (nc_seen c) nonce \<noteq> None then (Inl ReplayedNonce, c)
      else if length (nc_seen c) < nc_capacity c
      then (Inr (), c\<lparr>nc_seen := tput nonce signed_at (nc_seen c)\<rparr>)
      else let seen = tretain (\<lambda>_ signed. saturating_sub now signed < nc_ttl_secs c) (nc_seen c)
           in if nc_capacity c \<le> length seen then (Inl NonceCacheFull, c\<lparr>nc_seen := seen\<rparr>)
              else (Inr (), c\<lparr>nc_seen := tput nonce signed_at seen\<rparr>))"

record verifier =
  vf_key :: "u8 list"
  vf_skew_secs :: u64
  vf_nonces :: nonce_cache

definition verifier_with_limits :: "u8 list \<Rightarrow> u64 \<Rightarrow> nat \<Rightarrow> verifier" where
  "verifier_with_limits secret skew nonce_capacity =
     \<lparr>vf_key = secret, vf_skew_secs = skew,
      vf_nonces = \<lparr>nc_capacity = nonce_capacity, nc_ttl_secs = sat_add (saturating_double skew) 1, nc_seen = []\<rparr>\<rparr>"

definition verify_at ::
  "(u8 list \<Rightarrow> u8 list \<Rightarrow> u8 list) \<Rightarrow> u64 \<Rightarrow> string option \<Rightarrow> signed_request \<Rightarrow> verifier \<Rightarrow> (auth_error + unit) \<times> verifier" where
  "verify_at hmac now header req v =
     (case Option.bind header parse of
        None \<Rightarrow> (Inl Malformed, v)
      | Some cred \<Rightarrow>
          if vf_skew_secs v < abs_diff now (cr_ts cred) then (Inl StaleTimestamp, v)
          else if mac hmac (vf_key v) (cr_ts cred) (cr_nonce cred) req \<noteq> cr_mac cred then (Inl BadMac, v)
          else case admit_nonce (cr_nonce cred) (cr_ts cred) now (vf_nonces v) of
                 (verdict, nonces) \<Rightarrow> (verdict, v\<lparr>vf_nonces := nonces\<rparr>))"

text \<open>A verifier fed requests, each with the reading of the clock it was checked at.\<close>

definition verify_all ::
  "(u8 list \<Rightarrow> u8 list \<Rightarrow> u8 list) \<Rightarrow> (u64 \<times> string option \<times> signed_request) list \<Rightarrow> verifier \<Rightarrow> verifier" where
  "verify_all hmac requests v = fold (\<lambda>(now, header, req) v. snd (verify_at hmac now header req v)) requests v"

text \<open>A nonce is spent at a time: the cache holds it, or its timestamp has left the window for good.\<close>

definition spent :: "string \<Rightarrow> u64 \<Rightarrow> u64 \<Rightarrow> verifier \<Rightarrow> bool" where
  "spent nonce ts now v \<longleftrightarrow>
     tget (nc_seen (vf_nonces v)) nonce = Some ts \<or> ts \<le> now \<and> vf_skew_secs v < now - ts"

definition verifier_ok :: "verifier \<Rightarrow> bool" where
  "verifier_ok v \<longleftrightarrow> twf (nc_seen (vf_nonces v)) \<and> vf_skew_secs v < nc_ttl_secs (vf_nonces v)"

text \<open>The fields of a request fit the length prefixes they are signed with.\<close>

definition request_fits :: "signed_request \<Rightarrow> bool" where
  "request_fits req \<longleftrightarrow> length (sr_method req) < 2 ^ 64 \<and> length (sr_path req) < 2 ^ 64 \<and> length (sr_body req) < 2 ^ 64"

text \<open>A sample: a toy authentication code that is the signed bytes, a request, and its header.\<close>

definition plain_hmac :: "u8 list \<Rightarrow> u8 list \<Rightarrow> u8 list" where
  "plain_hmac key message = key @ message"

definition sample_signed :: signed_request where
  "sample_signed = \<lparr>sr_method = ''POST'', sr_path = ''/_cluster/flow/get'', sr_body = [1, 2]\<rparr>"

definition sample_header :: string where
  "sample_header = header_at plain_hmac [7] 5 (hex_encode [171]) sample_signed"

section \<open>Lemmas\<close>

lemma field_bytes_inj:
  assumes "field_bytes f @ r = field_bytes g @ s" and "length f < 2 ^ 64" and "length g < 2 ^ 64"
  shows "f = g" and "r = s"
proof -
  have len: "length (to_le_bytes v) = 8" for v by (simp add: to_le_bytes_def)
  with assms(1) have "to_le_bytes (of_nat (length f)) = to_le_bytes (of_nat (length g))" "f @ r = g @ s"
    by (simp_all add: field_bytes_def append_eq_append_conv)
  moreover from this(1) have "(of_nat (length f) :: u64) = of_nat (length g)" by (rule to_le_bytes_inj)
  then have "unat (of_nat (length f) :: u64) = unat (of_nat (length g) :: u64)" by simp
  then have "length f = length g" using assms(2,3) by (simp add: unat_of_nat)
  ultimately show "f = g" "r = s" by auto
qed

lemma split_on_free: "c \<notin> set s \<Longrightarrow> split_on c s = [s]"
  by (induction s) auto

lemma split_on_append: "c \<notin> set a \<Longrightarrow> split_on c (a @ c # b) = a # split_on c b"
  by (induction a) auto

lemma trim_id: "list_all (\<lambda>c. \<not> ascii_space c) s \<Longrightarrow> trim s = s"
proof -
  have "list_all (\<lambda>c. \<not> P c) s \<Longrightarrow> dropWhile P s = s" for P and s :: string by (cases s) auto
  then show "list_all (\<lambda>c. \<not> ascii_space c) s \<Longrightarrow> trim s = s" by (simp add: trim_def list_all_rev)
qed

lemma hex_digit_facts:
  assumes "d < 16"
  shows "hex_val (hex_digit_lower d) = Some d" "hex_digit_lower d \<noteq> CHR ''+''" "hex_digit_lower d \<noteq> CHR ''-''"
    "hex_digit_lower d \<noteq> CHR '',''" "\<not> ascii_space (hex_digit_lower d)"
proof -
  have "list_all (\<lambda>d. hex_val (hex_digit_lower d) = Some d \<and> hex_digit_lower d \<noteq> CHR ''+'' \<and> hex_digit_lower d \<noteq> CHR ''-'' \<and>
      hex_digit_lower d \<noteq> CHR '','') [0..<16]" by code_simp
  with assms show "hex_val (hex_digit_lower d) = Some d" "hex_digit_lower d \<noteq> CHR ''+''" "hex_digit_lower d \<noteq> CHR ''-''"
    "hex_digit_lower d \<noteq> CHR '',''" unfolding list_all_iff set_upt by auto
  have "of_char (hex_digit_lower d) = (if d < 10 then 48 + d else 87 + d)" using assms by (simp add: hex_digit_lower_def)
  with assms show "\<not> ascii_space (hex_digit_lower d)" by (simp add: ascii_space_def is_whitespace_def)
qed

lemma byte_digits: "unat (b :: u8) div 16 < 16" "unat b mod 16 < 16"
proof -
  have "unat b < 2 ^ LENGTH(8)" by (rule unsigned_less)
  then show "unat b div 16 < 16" "unat b mod 16 < 16" by simp_all
qed

lemma hex_round_trip: "hex_pairs (hex_encode bytes) = Some bytes"
proof (induction bytes)
  case (Cons b bytes)
  have "from_str_radix_16 [hex_digit_lower (unat b div 16), hex_digit_lower (unat b mod 16)] = Some b"
    using byte_digits [of b] unsigned_less [of b]
    by (simp add: from_str_radix_16_def hex_digit_facts)
  with Cons show ?case by (simp add: hex_encode_def)
qed (simp add: hex_encode_def)

lemma hex_encode_plain: "CHR '','' \<notin> set (hex_encode bytes)" "list_all (\<lambda>c. \<not> ascii_space c) (hex_encode bytes)"
  using byte_digits by (auto simp: hex_encode_def list_all_iff hex_digit_facts dest: sym)

lemma show_word_plain: "CHR '','' \<notin> set (show_word w)" "list_all (\<lambda>c. \<not> ascii_space c) (show_word w)"
  "(case show_word w of c # rest \<Rightarrow> if c = CHR ''+'' then rest else show_word w | [] \<Rightarrow> []) = show_word w"
proof -
  have digits: "is_ascii_digit c \<Longrightarrow> c \<noteq> CHR '','' \<and> \<not> ascii_space c \<and> c \<noteq> CHR ''+''" for c
    by (auto simp: is_ascii_digit_def less_eq_char_def ascii_space_def is_whitespace_def)
  with show_nat_digits [of "unat w"] show "CHR '','' \<notin> set (show_word w)" "list_all (\<lambda>c. \<not> ascii_space c) (show_word w)"
    by (auto simp: list_all_iff)
  show "(case show_word w of c # rest \<Rightarrow> if c = CHR ''+'' then rest else show_word w | [] \<Rightarrow> []) = show_word w"
    using show_nat_digits [of "unat w"] digits by (cases "show_word w") auto
qed

lemma parse_u64_text_show: "parse_u64_text (show_word w) = Some w"
  by (simp add: parse_u64_text_def show_word_plain show_nat_digits)

lemma parse_header:
  assumes "nonce \<noteq> []" and "CHR '','' \<notin> set nonce" and "list_all (\<lambda>c. \<not> ascii_space c) nonce"
  shows "parse (header_at hmac key ts nonce req) = Some \<lparr>cr_ts = ts, cr_nonce = nonce, cr_mac = mac hmac key ts nonce req\<rparr>"
proof -
  let ?m = "hex_encode (mac hmac key ts nonce req)"
  have "header_at hmac key ts nonce req = (''t='' @ show_word ts) @ CHR '','' # (''n='' @ nonce) @ CHR '','' # (''mac='' @ ?m)"
    by (simp add: header_at_def)
  moreover have free: "CHR '','' \<notin> set (''t='' @ show_word ts)" "CHR '','' \<notin> set (''n='' @ nonce)" "CHR '','' \<notin> set (''mac='' @ ?m)"
    using assms(2) show_word_plain(1) [of ts] hex_encode_plain(1) by auto
  ultimately have parts: "split_on (CHR '','') (header_at hmac key ts nonce req) = [''t='' @ show_word ts, ''n='' @ nonce, ''mac='' @ ?m]"
    by (simp only: split_on_append [OF free(1)] split_on_append [OF free(2)] split_on_free [OF free(3)])
  have keys: "split_once ''='' (''t='' @ s) = Some (''t'', s)" "split_once ''='' (''n='' @ s) = Some (''n'', s)"
    "split_once ''='' (''mac='' @ s) = Some (''mac'', s)" "trim ''t'' = ''t''" "trim ''n'' = ''n''" "trim ''mac'' = ''mac''" for s
    by (simp_all add: starts_with_def trim_def ascii_space_def is_whitespace_def)
  have trims: "trim (show_word ts) = show_word ts" "trim nonce = nonce" "trim ?m = ?m"
    by (rule trim_id, fact show_word_plain assms(3) hex_encode_plain)+
  have distinct: "''n'' \<noteq> ''t''" "''mac'' \<noteq> ''t''" "''mac'' \<noteq> ''n''" by simp_all
  have "parse_parts [''t='' @ show_word ts, ''n='' @ nonce, ''mac='' @ ?m] (None, None, None) =
      Some (Some ts, Some nonce, Some (mac hmac key ts nonce req))"
    by (simp only: parse_parts.simps keys trims option.case prod.case if_True if_False distinct refl parse_u64_text_show hex_round_trip)
  then show ?thesis using assms(1) unfolding parse_def parts by (simp only: option.case prod.case if_False)
qed

lemma abs_diff_spec: "unat (abs_diff a b) = (if unat b \<le> unat a then unat a - unat b else unat b - unat a)"
  by (simp add: abs_diff_def word_le_nat_alt unat_sub)

lemma admit_nonce_ok:
  assumes "twf (nc_seen c)" and "admit_nonce nonce signed_at now c = (r, c')"
  shows "twf (nc_seen c')" and "nc_ttl_secs c' = nc_ttl_secs c" and "nc_capacity c' = nc_capacity c"
  using assms by (auto simp: admit_nonce_def Let_def split: if_splits)

lemma admit_nonce_keeps:
  assumes "twf (nc_seen c)" and "admit_nonce other signed_at now c = (r, c')" and "tget (nc_seen c) nonce = Some ts"
  shows "tget (nc_seen c') nonce = Some ts \<or> nc_ttl_secs c \<le> saturating_sub now ts"
  using assms by (auto simp: admit_nonce_def Let_def tget_tretain not_less split: if_splits)

lemma verify_fields:
  assumes "verifier_ok v" and "verify_at hmac now header req v = (r, v')"
  shows "verifier_ok v'" and "vf_skew_secs v' = vf_skew_secs v" and "vf_key v' = vf_key v"
  using assms admit_nonce_ok [of "vf_nonces v"]
  by (auto simp: verify_at_def verifier_ok_def split: option.splits if_splits prod.splits)

lemma sat_double_skew: "skew \<noteq> - 1 \<Longrightarrow> skew < sat_add (saturating_double skew) 1"
proof -
  assume "skew \<noteq> - 1"
  then have "skew < - 1" by (simp add: word_order.not_eq_extremum)
  then have "unat skew < 2 ^ 64 - 1" by (simp add: word_less_nat_alt unsigned_minus_1_eq_mask mask_eq_exp_minus_1)
  then show ?thesis by (simp add: word_less_nat_alt unat_sat_add saturating_double_def)
qed

lemma verifier_new_ok: "skew \<noteq> - 1 \<Longrightarrow> verifier_ok (verifier_with_limits secret skew capacity)"
  by (simp add: verifier_ok_def verifier_with_limits_def sat_double_skew)

lemma spent_step:
  assumes "verifier_ok v" and "spent nonce ts t v" and "t \<le> now" and "verify_at hmac now header req v = (r, v')"
  shows "spent nonce ts now v'"
proof (cases "ts \<le> t \<and> vf_skew_secs v < t - ts")
  case True
  with assms(3) have "ts \<le> now" "vf_skew_secs v < now - ts" by (auto simp: word_le_nat_alt word_less_nat_alt unat_sub)
  with verify_fields [OF assms(1,4)] show ?thesis by (simp add: spent_def)
next
  case False
  with assms(2) have held: "tget (nc_seen (vf_nonces v)) nonce = Some ts" by (auto simp: spent_def)
  have "v' = v \<or> (\<exists>other signed_at c. admit_nonce other signed_at now (vf_nonces v) = (r, c) \<and> v' = v\<lparr>vf_nonces := c\<rparr>)"
  proof (cases "Option.bind header parse")
    case (Some cred)
    with assms(4) show ?thesis
      by (cases "admit_nonce (cr_nonce cred) (cr_ts cred) now (vf_nonces v)") (auto simp: verify_at_def split: if_splits)
  qed (use assms(4) in \<open>simp add: verify_at_def\<close>)
  then consider "v' = v" | other signed_at c where "admit_nonce other signed_at now (vf_nonces v) = (r, c)" "v' = v\<lparr>vf_nonces := c\<rparr>"
    by blast
  then show ?thesis
  proof cases
    case 1
    with held show ?thesis by (simp add: spent_def)
  next
    case 2
    from assms(1) have wf: "twf (nc_seen (vf_nonces v))" and ttl: "vf_skew_secs v < nc_ttl_secs (vf_nonces v)"
      by (simp_all add: verifier_ok_def)
    have skew: "vf_skew_secs v' = vf_skew_secs v" "vf_nonces v' = c" using 2(2) by simp_all
    from admit_nonce_keeps [OF wf 2(1) held] show ?thesis
    proof
      assume "nc_ttl_secs (vf_nonces v) \<le> saturating_sub now ts"
      with ttl have "vf_skew_secs v < saturating_sub now ts" by (rule less_le_trans)
      then have "ts \<le> now \<and> vf_skew_secs v < now - ts" by (cases "ts \<le> now") (simp_all add: saturating_sub_def)
      then show ?thesis unfolding spent_def skew by (rule disjI2)
    next
      assume "tget (nc_seen c) nonce = Some ts"
      then show ?thesis unfolding spent_def skew by (rule disjI1)
    qed
  qed
qed

lemma spent_all:
  assumes "verifier_ok v" and "spent nonce ts t v" and "sorted (t # map fst requests)"
  shows "spent nonce ts (last (t # map fst requests)) (verify_all hmac requests v) \<and> verifier_ok (verify_all hmac requests v)"
  using assms
proof (induction requests arbitrary: t v)
  case (Cons r requests)
  obtain now header req where r: "r = (now, header, req)" by (cases r)
  obtain x v' where step: "verify_at hmac now header req v = (x, v')" by (cases "verify_at hmac now header req v")
  from Cons.prems r have "t \<le> now" "sorted (now # map fst requests)" by auto
  with spent_step [OF Cons.prems(1,2) _ step] verify_fields(1) [OF Cons.prems(1) step] Cons.IH [of v' now] step
  show ?case by (simp add: verify_all_def r)
qed (simp add: verify_all_def)

lemma spent_refused:
  assumes "spent nonce ts now v" and "parse header = Some cred" and "cr_nonce cred = nonce" and "cr_ts cred = ts"
  shows "isl (fst (verify_at hmac now (Some header) req v))"
  using assms by (auto simp: spent_def verify_at_def admit_nonce_def abs_diff_def split: prod.splits)

lemma accepted_spent:
  assumes "verify_at hmac now header req v = (Inr (), v')"
  obtains shown cred where "header = Some shown" "parse shown = Some cred" "spent (cr_nonce cred) (cr_ts cred) now v'"
  using assms
  by (auto simp: verify_at_def admit_nonce_def spent_def Let_def split: option.splits if_splits prod.splits bind_splits)

lemma canonical_inj:
  assumes "canonical ts nonce req = canonical ts nonce req'"
    and "length nonce < 2 ^ 64" and "request_fits req" and "request_fits req'"
  shows "req = req'"
proof -
  have bytes: "length (key_bytes s) = length s" for s by (simp add: key_bytes_def)
  have cons: "concat (map field_bytes (f # fs)) = field_bytes f @ concat (map field_bytes fs)" for f fs by simp
  from assms(1) have "concat (map field_bytes [key_bytes (sr_method req), key_bytes (sr_path req), sr_body req]) =
      concat (map field_bytes [key_bytes (sr_method req'), key_bytes (sr_path req'), sr_body req'])"
    by (simp add: canonical_def)
  note rest = this [unfolded cons]
  have m: "sr_method req = sr_method req'" and rest2: "field_bytes (key_bytes (sr_path req)) @ field_bytes (sr_body req) @ [] =
      field_bytes (key_bytes (sr_path req')) @ field_bytes (sr_body req') @ []"
    using field_bytes_inj [OF rest] assms(3,4) by (auto simp: request_fits_def bytes dest: key_bytes_inj)
  have p: "sr_path req = sr_path req'" and rest3: "field_bytes (sr_body req) @ [] = field_bytes (sr_body req') @ []"
    using field_bytes_inj [OF rest2] assms(3,4) by (auto simp: request_fits_def bytes dest: key_bytes_inj)
  have "sr_body req = sr_body req'" using field_bytes_inj(1) [OF rest3] assms(3,4) by (simp add: request_fits_def)
  with m p show ?thesis by simp
qed

lemma nonce_shape:
  "bytes \<noteq> [] \<Longrightarrow> hex_encode bytes \<noteq> [] \<and> CHR '','' \<notin> set (hex_encode bytes) \<and> list_all (\<lambda>c. \<not> ascii_space c) (hex_encode bytes)"
  by (intro conjI hex_encode_plain) (cases bytes; simp add: hex_encode_def)

section \<open>Properties\<close>

text \<open>
  C34. A credential is accepted once. After a verifier accepts a request, whatever requests it checks
  next on a clock that does not run back, it refuses every request that carries the same header: the
  cache still holds the nonce, or it dropped it only when its timestamp had left the window.
\<close>

theorem no_replay:
  assumes "verifier_ok v" and "verify_at hmac now header req v = (Inr (), v')"
    and "sorted (now # map fst requests)" and "last (now # map fst requests) \<le> later"
  shows "isl (fst (verify_at hmac later header req' (verify_all hmac requests v')))"
proof -
  obtain shown cred where h: "header = Some shown" "parse shown = Some cred" and s: "spent (cr_nonce cred) (cr_ts cred) now v'"
    using accepted_spent [OF assms(2)] .
  from spent_all [OF verify_fields(1) [OF assms(1,2)] s assms(3), of hmac]
  have "spent (cr_nonce cred) (cr_ts cred) (last (now # map fst requests)) (verify_all hmac requests v')" by simp
  then have "spent (cr_nonce cred) (cr_ts cred) later (verify_all hmac requests v')"
    using assms(4) by (auto simp: spent_def word_le_nat_alt word_less_nat_alt unat_sub)
  from spent_refused [OF this h(2)] h(1) show ?thesis by simp
qed

theorem no_replay_witness:
  "isl (fst (verify_at plain_hmac 9 (Some sample_header) sample_signed
     (verify_all plain_hmac [(7, None, sample_signed)]
       (snd (verify_at plain_hmac 6 (Some sample_header) sample_signed (verifier_with_limits [7] 30 4))))))"
proof -
  let ?v = "verifier_with_limits [7] 30 4"
  have "parse sample_header = Some \<lparr>cr_ts = 5, cr_nonce = hex_encode [171], cr_mac = mac plain_hmac [7] 5 (hex_encode [171]) sample_signed\<rparr>"
    unfolding sample_header_def using nonce_shape [of "[171]"] by (intro parse_header) simp_all
  then have "verify_at plain_hmac 6 (Some sample_header) sample_signed ?v =
      (Inr (), snd (verify_at plain_hmac 6 (Some sample_header) sample_signed ?v))"
    by (simp add: verify_at_def verifier_with_limits_def admit_nonce_def abs_diff_def)
  from no_replay [OF verifier_new_ok this, of "[(7, None, sample_signed)]" 9] show ?thesis by simp
qed



end
