(* ===== verification/RpcRoutes.thy ===== *)
theory RpcRoutes
  imports RpcAuth
begin

text \<open>
  The cluster port (\<^verbatim>\<open>crates/rift-cluster/src/rpc/mod.rs\<close>, \<^verbatim>\<open>routes.rs\<close>, \<^verbatim>\<open>server.rs\<close> and the reply half
  of \<^verbatim>\<open>client.rs\<close>): the errors of a call, version negotiation, the route registry, the member a request
  is addressed to, what a server checks before a handler runs, and the envelope an error travels in.
  HTTP itself is not modelled: a request is its method, target, headers and body.
\<close>

section \<open>Versions and errors\<close>

record protocol_version =
  pv_major :: u16
  pv_minor :: u16

definition PROTO_VERSION :: protocol_version where "PROTO_VERSION = \<lparr>pv_major = 1, pv_minor = 0\<rparr>"

definition parse_u16_text :: "string \<Rightarrow> u16 option" where
  "parse_u16_text s =
     (let digits = (case s of c # rest \<Rightarrow> if c = CHR ''+'' then rest else s | [] \<Rightarrow> [])
      in if digits \<noteq> [] \<and> list_all is_ascii_digit digits \<and> dec_val digits < 2 ^ 16 then Some (of_nat (dec_val digits)) else None)"

definition version_parse :: "string \<Rightarrow> protocol_version option" where
  "version_parse s =
     (case split_once ''.'' (trim s) of
        None \<Rightarrow> None
      | Some (major, minor) \<Rightarrow>
          (case (parse_u16_text major, parse_u16_text minor) of
             (Some ma, Some mi) \<Rightarrow> Some \<lparr>pv_major = ma, pv_minor = mi\<rparr>
           | _ \<Rightarrow> None))"

definition is_compatible_with :: "protocol_version \<Rightarrow> protocol_version \<Rightarrow> bool" where
  "is_compatible_with a b \<longleftrightarrow> pv_major a = pv_major b"

definition version_show :: "protocol_version \<Rightarrow> string" where
  "version_show v = show_word (pv_major v) @ ''.'' @ show_word (pv_minor v)"

datatype rpc_error =
    Unauthorized auth_error
  | VersionSkew "protocol_version option" protocol_version
  | UnknownRoute string string
  | BodyTooLarge u64
  | Timeout
  | Transport string
  | Shed
  | BadRequest string
  | Unavailable string "string option"
  | NotLeader "string option"
  | HandlerError string
  | NotFound string
  | WrongNode u64 u64

fun rpc_reason :: "rpc_error \<Rightarrow> string" where
  "rpc_reason (Unauthorized e) = auth_reason e"
| "rpc_reason (VersionSkew _ _) = ''version_skew''"
| "rpc_reason (UnknownRoute _ _) = ''unknown_route''"
| "rpc_reason (BodyTooLarge _) = ''body_too_large''"
| "rpc_reason Timeout = ''timeout''"
| "rpc_reason (Transport _) = ''transport''"
| "rpc_reason Shed = ''shed''"
| "rpc_reason (BadRequest _) = ''bad_request''"
| "rpc_reason (Unavailable _ _) = ''unavailable''"
| "rpc_reason (NotLeader _) = ''not_leader''"
| "rpc_reason (HandlerError _) = ''handler''"
| "rpc_reason (NotFound _) = ''not_found''"
| "rpc_reason (WrongNode _ _) = ''wrong_node''"

fun rpc_status :: "rpc_error \<Rightarrow> u16" where
  "rpc_status (Unauthorized _) = 401"
| "rpc_status (VersionSkew _ _) = 426"
| "rpc_status (UnknownRoute _ _) = 404"
| "rpc_status (BodyTooLarge _) = 413"
| "rpc_status Timeout = 504"
| "rpc_status (Transport _) = 502"
| "rpc_status Shed = 503"
| "rpc_status (BadRequest _) = 400"
| "rpc_status (Unavailable _ _) = 503"
| "rpc_status (NotLeader _) = 421"
| "rpc_status (HandlerError _) = 500"
| "rpc_status (NotFound _) = 404"
| "rpc_status (WrongNode _ _) = 409"

fun is_retryable :: "rpc_error \<Rightarrow> bool" where
  "is_retryable Timeout \<longleftrightarrow> True"
| "is_retryable (Transport _) \<longleftrightarrow> True"
| "is_retryable _ \<longleftrightarrow> False"

fun is_liveness_failure :: "rpc_error \<Rightarrow> bool" where
  "is_liveness_failure Timeout \<longleftrightarrow> True"
| "is_liveness_failure (Transport _) \<longleftrightarrow> True"
| "is_liveness_failure Shed \<longleftrightarrow> True"
| "is_liveness_failure _ \<longleftrightarrow> False"

text \<open>The \<^verbatim>\<open>#[error(..)]\<close> texts.\<close>

fun auth_display :: "auth_error \<Rightarrow> string" where
  "auth_display Malformed = ''malformed cluster auth header''"
| "auth_display BadMac = ''cluster auth MAC mismatch''"
| "auth_display StaleTimestamp = ''cluster auth timestamp outside skew window''"
| "auth_display ReplayedNonce = ''cluster auth nonce replayed''"
| "auth_display NonceCacheFull = ''cluster auth nonce cache full''"

definition version_debug :: "protocol_version option \<Rightarrow> string" where
  "version_debug peer =
     (case peer of
        None \<Rightarrow> ''None''
      | Some v \<Rightarrow> ''Some(ProtocolVersion { major: '' @ show_word (pv_major v) @ '', minor: '' @ show_word (pv_minor v) @ '' })'')"

fun rpc_display :: "rpc_error \<Rightarrow> string" where
  "rpc_display (Unauthorized e) = ''unauthorized: '' @ auth_display e"
| "rpc_display (VersionSkew peer ours) = ''protocol version skew: peer '' @ version_debug peer @ '', ours '' @ version_show ours"
| "rpc_display (UnknownRoute m p) = ''unknown route: '' @ m @ '' '' @ p"
| "rpc_display (BodyTooLarge limit) = ''request body exceeds '' @ show_word limit @ '' bytes''"
| "rpc_display Timeout = ''request timed out''"
| "rpc_display (Transport s) = ''transport failure: '' @ s"
| "rpc_display Shed = ''shed: no bridge capacity''"
| "rpc_display (BadRequest s) = ''bad request: '' @ s"
| "rpc_display (Unavailable detail _) = ''unavailable: '' @ detail"
| "rpc_display (NotLeader leader) = ''not the leader'' @ (case leader of None \<Rightarrow> [] | Some l \<Rightarrow> ''; leader is '' @ l)"
| "rpc_display (HandlerError s) = ''handler error: '' @ s"
| "rpc_display (NotFound what) = ''not found: '' @ what"
| "rpc_display (WrongNode expected actual) =
     ''request for node '' @ show_word expected @ '' was answered by node '' @ show_word actual"

definition negotiate :: "string option \<Rightarrow> rpc_error + protocol_version" where
  "negotiate header =
     (case Option.bind header version_parse of
        None \<Rightarrow> Inl (VersionSkew None PROTO_VERSION)
      | Some peer \<Rightarrow>
          if is_compatible_with PROTO_VERSION peer then Inr peer else Inl (VersionSkew (Some peer) PROTO_VERSION))"

section \<open>Targets\<close>

definition route_path :: "string \<Rightarrow> string" where
  "route_path path = (case split_once ''?'' path of None \<Rightarrow> path | Some (before, _) \<Rightarrow> before)"

definition addressed :: "string \<Rightarrow> u64 \<Rightarrow> string" where
  "addressed path to = path @ (if CHR ''?'' \<in> set path then ''&'' else ''?'') @ ''to='' @ show_word to"

fun recipient_of :: "string list \<Rightarrow> u64 option \<Rightarrow> rpc_error + u64 option" where
  "recipient_of [] found = Inr found"
| "recipient_of (s # ss) found =
     (if found \<noteq> None then Inl (BadRequest ''the recipient `to` is given more than once'')
      else if s = [] \<or> \<not> list_all is_ascii_digit s then Inl (BadRequest (''the recipient `to='' @ s @ ''` is not a node id''))
      else case parse_u64 s of
             None \<Rightarrow> Inl (BadRequest (''the recipient `to='' @ s @ ''` is out of range''))
           | Some i \<Rightarrow> recipient_of ss (Some i))"

definition recipient :: "string \<Rightarrow> rpc_error + u64 option" where
  "recipient path_and_query =
     (case split_once ''?'' path_and_query of
        None \<Rightarrow> Inr None
      | Some (_, query) \<Rightarrow>
          (let pairs = split_on (CHR ''&'') query
           in if ''to'' \<in> set pairs then Inl (BadRequest ''the recipient `to` has no value'')
              else recipient_of (List.map_filter (strip_prefix ''to='') pairs) None))"

section \<open>The registry\<close>

text \<open>\<^verbatim>\<open>str::to_ascii_uppercase\<close>.\<close>

definition to_ascii_uppercase :: "string \<Rightarrow> string" where
  "to_ascii_uppercase = map (\<lambda>c. if char_between (CHR ''a'') (CHR ''z'') c then char_of (of_char c - 32 :: nat) else c)"

record ('h, 'p, 's) router =
  rt_routes :: "(string \<times> string, 'h) table"
  rt_prefix_routes :: "(string \<times> string \<times> 'p) list"
  rt_stream_routes :: "(string \<times> string \<times> 's) list"

definition router_new :: "('h, 'p, 's) router" where
  "router_new = \<lparr>rt_routes = [], rt_prefix_routes = [], rt_stream_routes = []\<rparr>"

definition router_route :: "string \<Rightarrow> string \<Rightarrow> 'h \<Rightarrow> ('h, 'p, 's) router \<Rightarrow> ('h, 'p, 's) router" where
  "router_route meth path handler r = r\<lparr>rt_routes := tput (to_ascii_uppercase meth, path) handler (rt_routes r)\<rparr>"

definition router_route_prefix :: "string \<Rightarrow> string \<Rightarrow> 'p \<Rightarrow> ('h, 'p, 's) router \<Rightarrow> ('h, 'p, 's) router" where
  "router_route_prefix meth prefix handler r =
     r\<lparr>rt_prefix_routes := rt_prefix_routes r @ [(to_ascii_uppercase meth, prefix, handler)]\<rparr>"

definition router_route_stream_prefix :: "string \<Rightarrow> string \<Rightarrow> 's \<Rightarrow> ('h, 'p, 's) router \<Rightarrow> ('h, 'p, 's) router" where
  "router_route_stream_prefix meth prefix handler r =
     r\<lparr>rt_stream_routes := rt_stream_routes r @ [(to_ascii_uppercase meth, prefix, handler)]\<rparr>"

definition router_lookup :: "('h, 'p, 's) router \<Rightarrow> string \<Rightarrow> string \<Rightarrow> 'h option" where
  "router_lookup r meth path = tget (rt_routes r) (to_ascii_uppercase meth, route_path path)"

definition longest_prefix :: "(string \<times> string \<times> 'x) list \<Rightarrow> string \<Rightarrow> string \<Rightarrow> ('x \<times> string) option" where
  "longest_prefix table meth path =
     map_option (\<lambda>(_, prefix, handler). (handler, drop (length prefix) path))
       (max_by_key (\<lambda>(_, prefix, _). length prefix)
          (filter (\<lambda>(m, prefix, _). m = to_ascii_uppercase meth \<and> starts_with prefix (route_path path)) table))"

definition router_lookup_prefix :: "('h, 'p, 's) router \<Rightarrow> string \<Rightarrow> string \<Rightarrow> ('p \<times> string) option" where
  "router_lookup_prefix r meth path = longest_prefix (rt_prefix_routes r) meth path"

definition router_lookup_stream_prefix :: "('h, 'p, 's) router \<Rightarrow> string \<Rightarrow> string \<Rightarrow> ('s \<times> string) option" where
  "router_lookup_stream_prefix r meth path = longest_prefix (rt_stream_routes r) meth path"

definition router_merge :: "('h, 'p, 's) router \<Rightarrow> ('h, 'p, 's) router \<Rightarrow> ('h, 'p, 's) router" where
  "router_merge r other =
     \<lparr>rt_routes = fold (\<lambda>(k, h). tput k h) (rt_routes other) (rt_routes r),
      rt_prefix_routes = rt_prefix_routes r @ rt_prefix_routes other,
      rt_stream_routes = rt_stream_routes r @ rt_stream_routes other\<rparr>"

section \<open>The server\<close>

record ('h, 'p, 's) rpc_server_config =
  sv_verifier :: "verifier option"
  sv_router :: "('h, 'p, 's) router"
  sv_max_body_bytes :: u64
  sv_node_id :: "u64 option"

record http_request =
  hr_method :: string
  hr_path :: string  \<comment> \<open>path and query\<close>
  hr_proto :: "string option"
  hr_credential :: "string option"
  hr_body :: "u8 list"

text \<open>The handler a request reached, with what it is called with.\<close>

datatype ('h, 'p, 's) dispatched =
    RunExact 'h "u8 list"
  | RunPrefix 'p string "u8 list"
  | RunStream 's string

definition signed_part :: "http_request \<Rightarrow> signed_request" where
  "signed_part req = \<lparr>sr_method = hr_method req, sr_path = hr_path req, sr_body = hr_body req\<rparr>"

definition route_request :: "('h, 'p, 's) router \<Rightarrow> http_request \<Rightarrow> rpc_error + ('h, 'p, 's) dispatched" where
  "route_request r req =
     (case router_lookup r (hr_method req) (hr_path req) of
        Some h \<Rightarrow> Inr (RunExact h (hr_body req))
      | None \<Rightarrow>
          (case router_lookup_prefix r (hr_method req) (hr_path req) of
             Some (p, suffix) \<Rightarrow> Inr (RunPrefix p suffix (hr_body req))
           | None \<Rightarrow>
               (case router_lookup_stream_prefix r (hr_method req) (hr_path req) of
                  Some (s, suffix) \<Rightarrow> Inr (RunStream s suffix)
                | None \<Rightarrow> Inl (UnknownRoute (hr_method req) (hr_path req)))))"

text \<open>The server's checks in their order, with the verifier they leave behind.\<close>

definition dispatch ::
  "(u8 list \<Rightarrow> u8 list \<Rightarrow> u8 list) \<Rightarrow> u64 \<Rightarrow> ('h, 'p, 's) rpc_server_config \<Rightarrow> http_request \<Rightarrow>
   (rpc_error + ('h, 'p, 's) dispatched) \<times> verifier option" where
  "dispatch hmac now cfg req =
     (case negotiate (hr_proto req) of
        Inl e \<Rightarrow> (Inl e, sv_verifier cfg)
      | Inr _ \<Rightarrow>
          if unat (sv_max_body_bytes cfg) < length (hr_body req) then (Inl (BodyTooLarge (sv_max_body_bytes cfg)), sv_verifier cfg)
          else (let (verdict, v) =
                      (case sv_verifier cfg of
                         None \<Rightarrow> (Inr (), None)
                       | Some v \<Rightarrow> map_prod id Some (verify_at hmac now (hr_credential req) (signed_part req) v))
                in case verdict of
                     Inl e \<Rightarrow> (Inl (Unauthorized e), v)
                   | Inr _ \<Rightarrow>
                       (case recipient (hr_path req) of
                          Inl e \<Rightarrow> (Inl e, v)
                        | Inr to \<Rightarrow>
                            (case (to, sv_node_id cfg) of
                               (Some expected, Some me) \<Rightarrow>
                                 if expected \<noteq> me then (Inl (WrongNode expected me), v)
                                 else (route_request (sv_router cfg) req, v)
                             | _ \<Rightarrow> (route_request (sv_router cfg) req, v)))))"

section \<open>An error on the wire\<close>

text \<open>The status and the body of \<^verbatim>\<open>error_response\<close>; the headers it adds repeat the body.\<close>

definition error_response :: "rpc_error \<Rightarrow> u16 \<times> json" where
  "error_response err =
     (rpc_status err,
      JObj ([(''error'', JStr (rpc_reason err)), (''message'', JStr (rpc_display err))] @
            (case err of
               NotLeader (Some leader) \<Rightarrow> [(''leader'', JStr leader)]
             | WrongNode expected actual \<Rightarrow> [(''expected'', JStr (show_word expected)), (''actual'', JStr (show_word actual))]
             | Unavailable _ (Some i) \<Rightarrow> [(''opId'', JStr i)]
             | _ \<Rightarrow> [])))"

definition envelope_field :: "json option \<Rightarrow> string \<Rightarrow> string option" where
  "envelope_field envelope name =
     (case envelope of Some (JObj members) \<Rightarrow> Option.bind (map_of members name) as_str | _ \<Rightarrow> None)"

definition auth_error_from_reason :: "string option \<Rightarrow> auth_error" where
  "auth_error_from_reason reason =
     (if reason = Some ''malformed'' then Malformed
      else if reason = Some ''stale_timestamp'' then StaleTimestamp
      else if reason = Some ''replayed_nonce'' then ReplayedNonce
      else if reason = Some ''nonce_cache_full'' then NonceCacheFull
      else BadMac)"

text \<open>\<open>envelope\<close> is the body read as JSON, if it is JSON.\<close>

definition status_to_error :: "u16 \<Rightarrow> json option \<Rightarrow> string \<Rightarrow> string \<Rightarrow> rpc_error" where
  "status_to_error status envelope meth path =
     (let field = envelope_field envelope;
          detail = (case field ''message'' of Some m \<Rightarrow> m | None \<Rightarrow> ''peer returned status '' @ show_word status)
      in if status = 401 then Unauthorized (auth_error_from_reason (field ''error''))
         else if status = 400 then BadRequest detail
         else if status = 404 then (if field ''error'' = Some ''not_found'' then NotFound detail else UnknownRoute meth path)
         else if status = 413 then BodyTooLarge 0
         else if status = 409
         then (case (Option.bind (field ''expected'') parse_u64_text, Option.bind (field ''actual'') parse_u64_text) of
                 (Some expected, Some actual) \<Rightarrow>
                   if field ''error'' = Some ''wrong_node'' then WrongNode expected actual else HandlerError detail
               | _ \<Rightarrow> HandlerError detail)
         else if status = 421 then NotLeader (field ''leader'')
         else if status = 426 then VersionSkew None PROTO_VERSION
         else if status = 503
         then (if field ''error'' = Some ''unavailable'' then Unavailable detail (field ''opId'') else Shed)
         else if status = 504 then Timeout
         else HandlerError detail)"

section \<open>The client's request\<close>

text \<open>What \<^verbatim>\<open>attempt\<close> puts on the wire: the version, and the credential when the cluster has a secret. The
  clock reading and the nonce are the arguments.\<close>

definition client_request ::
  "(u8 list \<Rightarrow> u8 list \<Rightarrow> u8 list) \<Rightarrow> u8 list option \<Rightarrow> u64 \<Rightarrow> string \<Rightarrow> string \<Rightarrow> string \<Rightarrow> u8 list \<Rightarrow> http_request" where
  "client_request hmac signer ts nonce meth path body =
     \<lparr>hr_method = meth, hr_path = path, hr_proto = Some (version_show PROTO_VERSION),
      hr_credential =
        map_option (\<lambda>key. header_at hmac key ts nonce \<lparr>sr_method = meth, sr_path = path, sr_body = body\<rparr>) signer,
      hr_body = body\<rparr>"

text \<open>A target whose query does not already name a recipient.\<close>

definition unaddressed :: "string \<Rightarrow> bool" where
  "unaddressed path \<longleftrightarrow>
     (case split_once ''?'' path of
        None \<Rightarrow> True
      | Some (_, query) \<Rightarrow> list_all (\<lambda>pair. pair \<noteq> ''to'' \<and> \<not> starts_with ''to='' pair) (split_on (CHR ''&'') query))"

text \<open>What a caller learns of a peer's error: the same error, but for the texts, which carry the
  class again, the caller's own target, and a peer's transport failure, which reads as the peer's fault.\<close>

fun as_received :: "string \<Rightarrow> string \<Rightarrow> rpc_error \<Rightarrow> rpc_error" where
  "as_received meth path (VersionSkew _ _) = VersionSkew None PROTO_VERSION"
| "as_received meth path (UnknownRoute _ _) = UnknownRoute meth path"
| "as_received meth path (BodyTooLarge _) = BodyTooLarge 0"
| "as_received meth path (Transport s) = HandlerError (''transport failure: '' @ s)"
| "as_received meth path (BadRequest s) = BadRequest (''bad request: '' @ s)"
| "as_received meth path (Unavailable s i) = Unavailable (''unavailable: '' @ s) i"
| "as_received meth path (HandlerError s) = HandlerError (''handler error: '' @ s)"
| "as_received meth path (NotFound s) = NotFound (''not found: '' @ s)"
| "as_received meth path e = e"

text \<open>A sample server: node 3, with one route.\<close>

definition sample_server :: "(nat, unit, unit) rpc_server_config" where
  "sample_server =
     \<lparr>sv_verifier = Some (verifier_with_limits [7] 30 4), sv_router = router_route ''post'' ''/x'' 1 router_new,
      sv_max_body_bytes = 8, sv_node_id = Some 3\<rparr>"

section \<open>Lemmas\<close>

lemma split_once_free: "c \<notin> set s \<Longrightarrow> split_once [c] s = None"
  by (induction s) (auto simp: starts_with_def)

lemma split_once_at: "c \<notin> set a \<Longrightarrow> split_once [c] (a @ c # b) = Some (a, b)"
  by (induction a) (auto simp: starts_with_def)

lemma split_on_parts: "split_on c (a @ c # b) = split_on c a @ split_on c b"
proof (induction a)
  case (Cons x a)
  have "split_on c a \<noteq> []" by (cases a) (auto split: list.splits)
  with Cons show ?case by (auto split: list.splits)
qed simp

lemma query_mark: "CHR ''?'' \<in> set path \<Longrightarrow> \<exists>a b. path = a @ CHR ''?'' # b \<and> CHR ''?'' \<notin> set a"
  by (meson split_list_first)

lemma to_param: "CHR ''&'' \<notin> set (''to='' @ show_word to)" "''to='' @ show_word to \<noteq> ''to''"
proof -
  have "CHR ''&'' \<notin> set (show_word to)"
    using show_nat_digits [of "unat to"] by (auto simp: list_all_iff is_ascii_digit_def less_eq_char_def)
  then show "CHR ''&'' \<notin> set (''to='' @ show_word to)" "''to='' @ show_word to \<noteq> ''to''" by simp_all
qed

lemma map_filter_none: "list_all (\<lambda>x. f x = None) xs \<Longrightarrow> List.map_filter f xs = []"
  by (induction xs) (simp_all add: List.map_filter_simps)

lemma map_filter_append: "List.map_filter f (xs @ ys) = List.map_filter f xs @ List.map_filter f ys"
  by (simp add: List.map_filter_def)

lemma recipient_query:
  assumes "split_once ''?'' target = Some (p, query)" and "split_on (CHR ''&'') query = pairs @ [''to='' @ show_word to]"
    and "list_all (\<lambda>pair. pair \<noteq> ''to'' \<and> \<not> starts_with ''to='' pair) pairs"
  shows "recipient target = Inr (Some to)"
proof -
  from assms(3) have "List.map_filter (strip_prefix ''to='') pairs = []"
    by (intro map_filter_none) (auto simp: list_all_iff strip_prefix_def)
  moreover have "List.map_filter (strip_prefix ''to='') [''to='' @ show_word to] = [show_word to]"
    by (simp only: List.map_filter_simps strip_prefix_append option.case)
  ultimately have "List.map_filter (strip_prefix ''to='') (split_on (CHR ''&'') query) = [show_word to]"
    unfolding assms(2) map_filter_append by (simp only: append_Nil)
  moreover have "''to'' \<notin> set (split_on (CHR ''&'') query)"
    using assms(3) to_param(2) [of to] unfolding assms(2) by (auto simp: list_all_iff)
  moreover have "recipient_of [show_word to] None = Inr (Some to)" by (simp add: show_nat_digits)
  ultimately show ?thesis unfolding recipient_def assms(1) by (simp only: option.case prod.case Let_def if_False)
qed

lemma recipient_addressed:
  assumes "unaddressed path" shows "recipient (addressed path to) = Inr (Some to)"
proof (cases "CHR ''?'' \<in> set path")
  case False
  show ?thesis
  proof (rule recipient_query)
    show "split_once ''?'' (addressed path to) = Some (path, ''to='' @ show_word to)"
      using split_once_at [OF False] False by (simp add: addressed_def)
    show "split_on (CHR ''&'') (''to='' @ show_word to) = [] @ [''to='' @ show_word to]"
      using split_on_free [OF to_param(1)] by simp
  qed simp
next
  case True
  then obtain a b where path: "path = a @ CHR ''?'' # b" and a: "CHR ''?'' \<notin> set a" using query_mark by blast
  have once: "split_once ''?'' (a @ CHR ''?'' # c) = Some (a, c)" for c by (rule split_once_at [OF a])
  show ?thesis
  proof (rule recipient_query)
    show "split_once ''?'' (addressed path to) = Some (a, b @ CHR ''&'' # ''to='' @ show_word to)"
      using True once by (simp add: addressed_def path)
    show "split_on (CHR ''&'') (b @ CHR ''&'' # ''to='' @ show_word to) = split_on (CHR ''&'') b @ [''to='' @ show_word to]"
      by (simp only: split_on_parts split_on_free [OF to_param(1)])
    show "list_all (\<lambda>pair. pair \<noteq> ''to'' \<and> \<not> starts_with ''to='' pair) (split_on (CHR ''&'') b)"
      using assms by (simp add: unaddressed_def path once)
  qed
qed

lemma route_addressed: "route_path (addressed path to) = route_path path"
proof (cases "CHR ''?'' \<in> set path")
  case False
  then show ?thesis using split_once_at [OF False] split_once_free [OF False] by (simp add: route_path_def addressed_def)
next
  case True
  then obtain a b where path: "path = a @ CHR ''?'' # b" and a: "CHR ''?'' \<notin> set a" using query_mark by blast
  show ?thesis using split_once_at [OF a] by (simp add: route_path_def addressed_def path)
qed

lemma negotiate_ours: "negotiate (Some (version_show PROTO_VERSION)) = Inr PROTO_VERSION"
proof -
  have "show_nat 0 = ''0''" "show_nat 1 = ''1''" by code_simp+
  then have "version_show PROTO_VERSION = ''1.0''" by (simp add: version_show_def PROTO_VERSION_def)
  moreover have "split_once ''.'' ''1.0'' = Some (''1'', ''0'')" "parse_u16_text ''1'' = Some 1" "parse_u16_text ''0'' = Some 0"
    by (simp_all add: starts_with_def parse_u16_text_def is_ascii_digit_def less_eq_char_def dec_val_def digit_val_def)
  moreover have "trim ''1.0'' = ''1.0''" by (simp add: trim_def ascii_space_def is_whitespace_def)
  ultimately show ?thesis by (simp add: negotiate_def version_parse_def PROTO_VERSION_def is_compatible_with_def)
qed

lemma verify_signed:
  assumes "vf_key v = key" and "bytes \<noteq> []"
    and "length (nc_seen (vf_nonces v)) < nc_capacity (vf_nonces v)"
    and "tget (nc_seen (vf_nonces v)) (hex_encode bytes) = None" and "abs_diff now ts \<le> vf_skew_secs v"
  shows "fst (verify_at hmac now (Some (header_at hmac key ts (hex_encode bytes) req)) req v) = Inr ()"
proof -
  have shape: "hex_encode bytes \<noteq> []" "CHR '','' \<notin> set (hex_encode bytes)" "list_all (\<lambda>c. \<not> ascii_space c) (hex_encode bytes)"
    using nonce_shape [OF assms(2)] by simp_all
  show ?thesis using assms by (simp add: verify_at_def parse_header [OF shape] admit_nonce_def)
qed

lemma map_prod_verdict: "map_prod id f p = (a, b) \<Longrightarrow> fst p = a"
  by (cases p) simp

section \<open>Properties\<close>

text \<open>
  C36. A request a member signs and addresses is served by the member it names and by no other. On a
  server of the same cluster it passes the version and the credential checks; a server that answers
  as another node refuses it with both ids before any handler runs, and the named one runs the
  handler its registry has for the target as if the recipient were not in it.
\<close>

theorem addressed_request_served_by_its_member:
  assumes "sv_verifier cfg = Some v" and "vf_key v = key" and "bytes \<noteq> []"
    and "length (nc_seen (vf_nonces v)) < nc_capacity (vf_nonces v)"
    and "tget (nc_seen (vf_nonces v)) (hex_encode bytes) = None" and "abs_diff now ts \<le> vf_skew_secs v"
    and "length body \<le> unat (sv_max_body_bytes cfg)" and "sv_node_id cfg = Some me" and "unaddressed path"
    and "router_lookup (sv_router cfg) meth path = Some handler"
  shows "fst (dispatch hmac now cfg (client_request hmac (Some key) ts (hex_encode bytes) meth (addressed path to) body)) =
    (if to = me then Inr (RunExact handler body) else Inl (WrongNode to me))"
proof -
  let ?req = "client_request hmac (Some key) ts (hex_encode bytes) meth (addressed path to) body"
  have fields: "hr_proto ?req = Some (version_show PROTO_VERSION)" "hr_path ?req = addressed path to" "hr_method ?req = meth"
    "hr_body ?req = body" "hr_credential ?req = Some (header_at hmac key ts (hex_encode bytes) (signed_part ?req))"
    by (simp_all add: client_request_def signed_part_def)
  obtain v' where verified: "verify_at hmac now (hr_credential ?req) (signed_part ?req) v = (Inr (), v')"
    using verify_signed [where req = "signed_part ?req" and hmac = hmac, OF assms(2-6)] unfolding fields(5) by (metis prod.collapse)
  have "router_lookup (sv_router cfg) meth (addressed path to) = Some handler"
    using assms(10) by (simp add: router_lookup_def route_addressed)
  then have "route_request (sv_router cfg) ?req = Inr (RunExact handler body)" by (simp add: route_request_def fields)
  with verified assms(1,7,8) recipient_addressed [OF assms(9), of to] show ?thesis
    by (auto simp: dispatch_def fields negotiate_ours)
qed

theorem addressed_request_served_by_its_member_witness:
  "fst (dispatch plain_hmac 6 sample_server (client_request plain_hmac (Some [7]) 5 (hex_encode [171]) ''POST'' (addressed ''/x'' 3) [1])) =
     Inr (RunExact 1 [1]) \<and>
   fst (dispatch plain_hmac 6 sample_server (client_request plain_hmac (Some [7]) 5 (hex_encode [171]) ''POST'' (addressed ''/x'' 4) [1])) =
     Inl (WrongNode 4 3)"
proof -
  have "router_lookup (sv_router sample_server) ''POST'' ''/x'' = Some 1" "unaddressed ''/x''" by code_simp+
  then show ?thesis
    using addressed_request_served_by_its_member
      [where cfg = sample_server and v = "verifier_with_limits [7] 30 4" and key = "[7]" and me = 3 and handler = 1
        and bytes = "[171]" and now = 6 and ts = 5 and body = "[1]" and path = "''/x''" and meth = "''POST''" and hmac = plain_hmac]
    by (simp add: sample_server_def verifier_with_limits_def abs_diff_def)
qed


text \<open>
  Every request that reaches a handler passed every check before it: it announced a compatible
  version, fits the cap, was accepted by the verifier where there is one, and names this node or no node.
\<close>

theorem handler_behind_checks:
  assumes "fst (dispatch hmac now cfg req) = Inr reached"
  shows "(\<exists>peer. Option.bind (hr_proto req) version_parse = Some peer \<and> pv_major peer = pv_major PROTO_VERSION) \<and>
    length (hr_body req) \<le> unat (sv_max_body_bytes cfg) \<and>
    (\<forall>v. sv_verifier cfg = Some v \<longrightarrow> fst (verify_at hmac now (hr_credential req) (signed_part req) v) = Inr ()) \<and>
    (\<forall>me. sv_node_id cfg = Some me \<longrightarrow> recipient (hr_path req) = Inr None \<or> recipient (hr_path req) = Inr (Some me)) \<and>
    route_request (sv_router cfg) req = Inr reached"
  using assms
  by (auto simp: dispatch_def negotiate_def is_compatible_with_def dest: map_prod_verdict
      split: sum.splits option.splits if_splits prod.splits unit.splits)

theorem handler_behind_checks_witness:
  "recipient (addressed ''/x'' 3) = Inr (Some 3) \<and> (\<exists>peer. version_parse (version_show PROTO_VERSION) = Some peer \<and> pv_major peer = 1)"
proof -
  let ?req = "client_request plain_hmac None 5 [] ''POST'' (addressed ''/x'' 3) [1]"
  let ?cfg = "sample_server\<lparr>sv_verifier := None\<rparr>"
  have named: "recipient (addressed ''/x'' 3) = Inr (Some 3)" by (rule recipient_addressed) code_simp
  have "router_lookup (sv_router sample_server) ''POST'' (addressed ''/x'' 3) = Some 1"
    unfolding router_lookup_def route_addressed by code_simp
  then have "fst (dispatch plain_hmac 6 ?cfg ?req) = Inr (RunExact 1 [1])"
    using negotiate_ours named by (simp add: dispatch_def client_request_def route_request_def sample_server_def)
  from handler_behind_checks [OF this] named show ?thesis by (auto simp: client_request_def PROTO_VERSION_def)
qed

end
