(* ===== verification/RpcClient.thy ===== *)
theory RpcClient
  imports RpcRoutes
begin

text \<open>
  The calling side of the cluster port (\<^verbatim>\<open>crates/rift-cluster/src/rpc/client.rs\<close>, and the address sweep of
  \<^verbatim>\<open>raft/node.rs\<close>): the local view of a peer's health with its half-open trials, the retry loop of a call,
  the single attempt of a transfer, and the sweep over the addresses of a member. Instants are
  milliseconds of one monotone clock; the outcome of an attempt is an argument.
\<close>

section \<open>Peer health\<close>

type_synonym socket_addr = string

datatype admission = Healthy | Trial u64 | Refused

record peer_state =
  ps_consecutive_failures :: u32
  ps_unhealthy_until :: "nat option"
  ps_window_from :: "nat option"
  ps_trial :: "u64 option"

definition peer_state_default :: peer_state where
  "peer_state_default =
     \<lparr>ps_consecutive_failures = 0, ps_unhealthy_until = None, ps_window_from = None, ps_trial = None\<rparr>"

record tracked_peer_health =
  th_state :: "(socket_addr, peer_state) table"
  th_threshold :: u32
  th_cooldown :: nat
  th_half_open_interval :: nat
  th_next_trial :: u64

definition DEFAULT_FAILURE_THRESHOLD :: u32 where "DEFAULT_FAILURE_THRESHOLD = 3"
definition DEFAULT_COOLDOWN :: nat where "DEFAULT_COOLDOWN = 5000"
definition DEFAULT_HALF_OPEN_INTERVAL :: nat where "DEFAULT_HALF_OPEN_INTERVAL = 250"

definition health_with_params :: "u32 \<Rightarrow> nat \<Rightarrow> tracked_peer_health" where
  "health_with_params threshold cooldown =
     \<lparr>th_state = [], th_threshold = threshold, th_cooldown = cooldown,
      th_half_open_interval = DEFAULT_HALF_OPEN_INTERVAL, th_next_trial = 0\<rparr>"

definition health_new :: tracked_peer_health where
  "health_new = health_with_params DEFAULT_FAILURE_THRESHOLD DEFAULT_COOLDOWN"

definition admit :: "nat \<Rightarrow> socket_addr \<Rightarrow> tracked_peer_health \<Rightarrow> admission \<times> tracked_peer_health" where
  "admit now peer t =
     (case tget (th_state t) peer of
        None \<Rightarrow> (Healthy, t)
      | Some entry \<Rightarrow>
          (case ps_unhealthy_until entry of
             None \<Rightarrow> (Healthy, t)
           | Some until \<Rightarrow>
               if until \<le> now then (Healthy, t\<lparr>th_state := tdel peer (th_state t)\<rparr>)
               else if ps_trial entry \<noteq> None then (Refused, t)
               else if (case ps_window_from entry of None \<Rightarrow> True | Some start \<Rightarrow> th_half_open_interval t \<le> now - start)
               then (let i = th_next_trial t
                     in (Trial i,
                         t\<lparr>th_next_trial := i + 1,
                           th_state := tput peer (entry\<lparr>ps_window_from := Some now, ps_trial := Some i\<rparr>) (th_state t)\<rparr>))
               else (Refused, t)))"

definition record_success :: "socket_addr \<Rightarrow> admission \<Rightarrow> tracked_peer_health \<Rightarrow> tracked_peer_health" where
  "record_success peer adm t = t\<lparr>th_state := tdel peer (th_state t)\<rparr>"

text \<open>\<^verbatim>\<open>u32::saturating_add\<close>.\<close>

definition one_more :: "u32 \<Rightarrow> u32" where
  "one_more n = (if n = - 1 then n else n + 1)"

definition record_peer_failure :: "nat \<Rightarrow> socket_addr \<Rightarrow> admission \<Rightarrow> tracked_peer_health \<Rightarrow> tracked_peer_health" where
  "record_peer_failure now peer adm t =
     (let entry = (case tget (th_state t) peer of None \<Rightarrow> peer_state_default | Some e \<Rightarrow> e);
          counted = entry\<lparr>ps_consecutive_failures := one_more (ps_consecutive_failures entry)\<rparr>;
          ordinary =
            (if th_threshold t \<le> ps_consecutive_failures counted
             then counted\<lparr>ps_unhealthy_until := Some (now + th_cooldown t), ps_window_from := Some now\<rparr>
             else counted);
          entry' =
            (case adm of
               Trial i \<Rightarrow>
                 if ps_trial entry = Some i
                 then entry\<lparr>ps_trial := None, ps_window_from := Some now, ps_unhealthy_until := Some (now + th_cooldown t)\<rparr>
                 else ordinary
             | Healthy \<Rightarrow> ordinary
             | Refused \<Rightarrow> entry)
      in t\<lparr>th_state := tput peer entry' (th_state t)\<rparr>)"

definition release :: "socket_addr \<Rightarrow> admission \<Rightarrow> tracked_peer_health \<Rightarrow> tracked_peer_health" where
  "release peer adm t =
     (case adm of
        Trial i \<Rightarrow>
          (case tget (th_state t) peer of
             Some entry \<Rightarrow>
               if ps_trial entry = Some i then t\<lparr>th_state := tput peer (entry\<lparr>ps_trial := None\<rparr>) (th_state t)\<rparr> else t
           | None \<Rightarrow> t)
      | _ \<Rightarrow> t)"

section \<open>Calls\<close>

definition DEFAULT_MAX_RETRIES :: nat where "DEFAULT_MAX_RETRIES = 3"

text \<open>The attempts of \<^verbatim>\<open>call\<close>: \<open>outcomes k\<close> is what the attempt number \<open>k\<close> ends in. Beside the result it
  gives the number of attempts made.\<close>

function call_attempts :: "nat \<Rightarrow> (nat \<Rightarrow> rpc_error + 'r) \<Rightarrow> nat \<Rightarrow> (rpc_error + 'r) \<times> nat" where
  "call_attempts max_retries outcomes attempt =
     (case outcomes attempt of
        Inr response \<Rightarrow> (Inr response, attempt + 1)
      | Inl e \<Rightarrow>
          if is_retryable e \<and> attempt < max_retries then call_attempts max_retries outcomes (attempt + 1)
          else (Inl e, attempt + 1))"
  by auto

termination
  by (relation "measure (\<lambda>(max_retries, _, attempt). max_retries - attempt)") auto

declare call_attempts.simps [simp del]

text \<open>A call admitted at \<open>now\<close> whose attempts end at \<open>later\<close>.\<close>

definition rpc_call ::
  "nat \<Rightarrow> nat \<Rightarrow> nat \<Rightarrow> socket_addr \<Rightarrow> (nat \<Rightarrow> rpc_error + 'r) \<Rightarrow> tracked_peer_health \<Rightarrow>
   ((rpc_error + 'r) \<times> nat) \<times> tracked_peer_health" where
  "rpc_call max_retries now later peer outcomes t =
     (case admit now peer t of
        (Refused, t1) \<Rightarrow> ((Inl (Transport (''peer '' @ peer @ '' is not healthy'')), 0), t1)
      | (adm, t1) \<Rightarrow>
          (let (result, made) = call_attempts max_retries outcomes 0
           in case result of
                Inr response \<Rightarrow> ((Inr response, made), record_success peer adm t1)
              | Inl e \<Rightarrow>
                  ((Inl e, made),
                   if is_liveness_failure e then record_peer_failure later peer adm t1 else record_success peer adm t1)))"

definition settle_single_attempt ::
  "nat \<Rightarrow> socket_addr \<Rightarrow> rpc_error \<Rightarrow> admission \<Rightarrow> tracked_peer_health \<Rightarrow> tracked_peer_health" where
  "settle_single_attempt later peer err adm t =
     (if err = Timeout then release peer adm t
      else if is_liveness_failure err then record_peer_failure later peer adm t
      else record_success peer adm t)"

text \<open>One attempt on a deadline of the caller's; an expired deadline is \<^verbatim>\<open>Timeout\<close>.\<close>

definition call_once ::
  "nat \<Rightarrow> nat \<Rightarrow> socket_addr \<Rightarrow> rpc_error + 'r \<Rightarrow> tracked_peer_health \<Rightarrow> (rpc_error + 'r) \<times> tracked_peer_health" where
  "call_once now later peer attempt t =
     (case admit now peer t of
        (Refused, t1) \<Rightarrow> (Inl (Transport (''peer '' @ peer @ '' is not healthy'')), t1)
      | (adm, t1) \<Rightarrow>
          (case attempt of
             Inr response \<Rightarrow> (Inr response, record_success peer adm t1)
           | Inl e \<Rightarrow> (Inl e, settle_single_attempt later peer e adm t1)))"

definition probe :: "socket_addr \<Rightarrow> rpc_error + 'r \<Rightarrow> tracked_peer_health \<Rightarrow> (rpc_error + 'r) \<times> tracked_peer_health" where
  "probe peer attempt t =
     (case attempt of Inr response \<Rightarrow> (Inr response, record_success peer Healthy t) | Inl e \<Rightarrow> (Inl e, t))"

text \<open>The pause before attempt number \<open>attempt\<close>, in milliseconds; \<open>jitter\<close> is the random draw, at most half the base.\<close>

definition backoff_base :: "nat \<Rightarrow> nat" where
  "backoff_base attempt = 50 * 2 ^ (min attempt 6 - 1)"

definition backoff :: "nat \<Rightarrow> nat \<Rightarrow> nat" where
  "backoff attempt jitter = backoff_base attempt - backoff_base attempt div 4 + jitter"

section \<open>The addresses of a member\<close>

datatype sweep_failure = NoAddresses | Attempted socket_addr rpc_error

fun is_wrong_node :: "rpc_error \<Rightarrow> bool" where
  "is_wrong_node (WrongNode _ _) \<longleftrightarrow> True"
| "is_wrong_node _ \<longleftrightarrow> False"

fun sweep_from :: "sweep_failure \<Rightarrow> socket_addr list \<Rightarrow> (socket_addr \<Rightarrow> rpc_error + 'r) \<Rightarrow> sweep_failure + 'r" where
  "sweep_from failed [] call = Inl failed"
| "sweep_from failed (peer # addrs) call =
     (case call peer of
        Inr reply \<Rightarrow> Inr reply
      | Inl error \<Rightarrow>
          if is_liveness_failure error \<or> is_wrong_node error then sweep_from (Attempted peer error) addrs call
          else Inl (Attempted peer error))"

definition sweep_addresses :: "socket_addr list \<Rightarrow> (socket_addr \<Rightarrow> rpc_error + 'r) \<Rightarrow> sweep_failure + 'r" where
  "sweep_addresses addrs call = sweep_from NoAddresses addrs call"

fun sweep_describe :: "sweep_failure \<Rightarrow> string \<Rightarrow> string" where
  "sweep_describe NoAddresses authority = authority @ '' unreachable (no addresses to try)''"
| "sweep_describe (Attempted peer error) authority =
     (if is_liveness_failure error then authority @ '' unreachable ('' @ peer @ '': '' @ rpc_display error @ '')''
      else authority @ '' answered but refused ('' @ peer @ '': '' @ rpc_display error @ '')'')"

fun sweep_into_typed :: "sweep_failure \<Rightarrow> string \<Rightarrow> rpc_error" where
  "sweep_into_typed NoAddresses authority = Transport (authority @ '': no addresses to try'')"
| "sweep_into_typed (Attempted peer error) authority = error"

section \<open>Runs of the tracker\<close>

datatype health_event =
    EAdmit nat socket_addr
  | ESuccess socket_addr admission
  | EFailure nat socket_addr admission
  | ERelease socket_addr admission

fun health_step :: "health_event \<Rightarrow> tracked_peer_health \<Rightarrow> tracked_peer_health" where
  "health_step (EAdmit now peer) t = snd (admit now peer t)"
| "health_step (ESuccess peer adm) t = record_success peer adm t"
| "health_step (EFailure now peer adm) t = record_peer_failure now peer adm t"
| "health_step (ERelease peer adm) t = release peer adm t"

definition mark_of :: "socket_addr \<Rightarrow> tracked_peer_health \<Rightarrow> nat option" where
  "mark_of p t = Option.bind (tget (th_state t) p) ps_unhealthy_until"

text \<open>An event that leaves an outstanding trial as it is: no answer from the peer, no report of the trial
  itself, and no admission after the mark has run out. The clock has reached \<open>start\<close>.\<close>

fun leaves_trial :: "socket_addr \<Rightarrow> u64 \<Rightarrow> nat \<Rightarrow> nat \<Rightarrow> health_event \<Rightarrow> bool" where
  "leaves_trial p i start until (EAdmit now peer) \<longleftrightarrow> peer = p \<longrightarrow> now < until"
| "leaves_trial p i start until (ESuccess peer adm) \<longleftrightarrow> peer \<noteq> p"
| "leaves_trial p i start until (EFailure now peer adm) \<longleftrightarrow> peer = p \<longrightarrow> adm \<noteq> Trial i \<and> start \<le> now"
| "leaves_trial p i start until (ERelease peer adm) \<longleftrightarrow> peer = p \<longrightarrow> adm \<noteq> Trial i"

fun charges :: "socket_addr \<Rightarrow> health_event \<Rightarrow> bool" where
  "charges p (EFailure now peer adm) \<longleftrightarrow> peer = p"
| "charges p _ \<longleftrightarrow> False"

fun event_time_within :: "nat \<Rightarrow> health_event \<Rightarrow> bool" where
  "event_time_within T (EFailure now peer adm) \<longleftrightarrow> now \<le> T"
| "event_time_within T _ \<longleftrightarrow> True"

definition marks_within :: "nat \<Rightarrow> tracked_peer_health \<Rightarrow> bool" where
  "marks_within bound t \<longleftrightarrow>
     (\<forall>peer entry until. tget (th_state t) peer = Some entry \<longrightarrow> ps_unhealthy_until entry = Some until \<longrightarrow> until \<le> bound)"

definition trial_out :: "socket_addr \<Rightarrow> u64 \<Rightarrow> nat \<Rightarrow> tracked_peer_health \<Rightarrow> bool" where
  "trial_out p i until t \<longleftrightarrow>
     (\<exists>entry u. tget (th_state t) p = Some entry \<and> ps_trial entry = Some i \<and> ps_unhealthy_until entry = Some u \<and> until \<le> u)"

section \<open>Lemmas\<close>

lemma health_step_params [simp]:
  "th_cooldown (health_step e t) = th_cooldown t" "th_threshold (health_step e t) = th_threshold t"
  by (cases e; auto simp: admit_def record_success_def record_peer_failure_def release_def Let_def
      split: option.splits admission.splits)+

lemma admit_others: "peer \<noteq> p \<Longrightarrow> tget (th_state (snd (admit now peer t))) p = tget (th_state t) p"
  by (auto simp: admit_def Let_def split: option.splits)

lemma admit_while_out:
  assumes "trial_out p i until t" and "now < until"
  shows "admit now p t = (Refused, t)"
  using assms by (auto simp: trial_out_def admit_def)

lemma trial_out_step:
  assumes "trial_out p i until t" and "leaves_trial p i start until e" and "until \<le> start + th_cooldown t"
  shows "trial_out p i until (health_step e t)"
proof (cases e)
  case (EAdmit now peer)
  then show ?thesis
    using assms(1,2) admit_others [of peer p now t] admit_while_out [OF assms(1)] by (cases "peer = p") (auto simp: trial_out_def)
next
  case (ESuccess peer adm)
  with assms(1,2) show ?thesis by (auto simp: trial_out_def record_success_def)
next
  case (ERelease peer adm)
  with assms(1,2) show ?thesis by (auto simp: trial_out_def release_def split: admission.splits option.splits)
next
  case (EFailure now peer adm)
  with assms have "peer = p \<Longrightarrow> adm \<noteq> Trial i \<and> until \<le> now + th_cooldown t" by auto
  with EFailure assms(1) show ?thesis
    by (cases "peer = p") (auto simp: trial_out_def record_peer_failure_def Let_def split: admission.splits)
qed

lemma trial_out_run:
  assumes "trial_out p i until t" and "list_all (leaves_trial p i start until) events" and "until \<le> start + th_cooldown t"
  shows "trial_out p i until (fold health_step events t)"
  using assms
proof (induction events arbitrary: t)
  case (Cons e events)
  from Cons.prems have "trial_out p i until (health_step e t)" by (intro trial_out_step) auto
  with Cons show ?case by simp
qed simp

lemma cooldown_run [simp]: "th_cooldown (fold health_step events t) = th_cooldown t"
  by (induction events arbitrary: t) auto

lemma marks_step:
  assumes "marks_within (T + th_cooldown t) t" and "event_time_within T e"
  shows "marks_within (T + th_cooldown t) (health_step e t)"
proof (cases e)
  case (EAdmit now peer)
  with assms(1) show ?thesis
    by (fastforce simp: marks_within_def admit_def Let_def split: option.splits if_splits)
next
  case (ESuccess peer adm)
  with assms(1) show ?thesis by (auto simp: marks_within_def record_success_def)
next
  case (ERelease peer adm)
  with assms(1) show ?thesis by (fastforce simp: marks_within_def release_def split: admission.splits option.splits if_splits)
next
  case (EFailure now peer adm)
  with assms show ?thesis
    by (fastforce simp: marks_within_def record_peer_failure_def Let_def peer_state_default_def
        split: admission.splits option.splits if_splits)
qed

lemma marks_run:
  assumes "marks_within (T + th_cooldown t) t" and "list_all (event_time_within T) events"
  shows "marks_within (T + th_cooldown t) (fold health_step events t)"
  using assms
proof (induction events arbitrary: t)
  case (Cons e events)
  from Cons.prems marks_step [of T t e] Cons.IH [of "health_step e t"] show ?case by simp
qed simp

lemma mark_uncharged:
  assumes "\<not> charges p e" shows "mark_of p (health_step e t) \<in> {None, mark_of p t}"
proof (cases e)
  case (EAdmit now peer)
  then show ?thesis using admit_others [of peer p now t]
    by (cases "peer = p") (auto simp: mark_of_def admit_def Let_def split: option.splits)
qed (use assms in \<open>auto simp: mark_of_def record_success_def record_peer_failure_def release_def Let_def split: option.splits admission.splits\<close>)

lemma mark_uncharged_run:
  "list_all (\<lambda>e. \<not> charges p e) events \<Longrightarrow> mark_of p (fold health_step events t) \<in> {None, mark_of p t}"
proof (induction events arbitrary: t)
  case (Cons e events)
  from Cons.prems have "\<not> charges p e" and rest: "list_all (\<lambda>e. \<not> charges p e) events" by simp_all
  from mark_uncharged [OF this(1)] have "mark_of p (health_step e t) \<in> {None, mark_of p t}" .
  moreover from Cons.IH [OF rest]
  have "mark_of p (fold health_step events (health_step e t)) \<in> {None, mark_of p (health_step e t)}" .
  ultimately show ?case by auto
qed simp

lemma admit_after_mark: "(case mark_of p t of None \<Rightarrow> True | Some until \<Rightarrow> until \<le> now) \<Longrightarrow> fst (admit now p t) = Healthy"
  by (auto simp: mark_of_def admit_def split: option.splits)

lemma call_attempts_result:
  assumes "call_attempts max_retries outcomes attempt = (r, made)" and "attempt \<le> max_retries"
  shows "attempt < made \<and> made \<le> max_retries + 1 \<and> r = outcomes (made - 1) \<and>
    (\<forall>k. attempt \<le> k \<and> k < made - 1 \<longrightarrow> (\<exists>e. outcomes k = Inl e \<and> is_retryable e)) \<and>
    (made \<le> max_retries \<longrightarrow> (\<forall>e. r = Inl e \<longrightarrow> \<not> is_retryable e))"
  using assms
proof (induction max_retries outcomes attempt rule: call_attempts.induct)
  case (1 max_retries outcomes attempt)
  show ?case
  proof (cases "\<exists>e. outcomes attempt = Inl e \<and> is_retryable e \<and> attempt < max_retries")
    case True
    then obtain e where e: "outcomes attempt = Inl e" "is_retryable e" "attempt < max_retries" by blast
    with 1(2) have "call_attempts max_retries outcomes (attempt + 1) = (r, made)" by (subst (asm) call_attempts.simps) simp
    with 1(1) [OF e(1)] e have ih: "attempt + 1 < made" "made \<le> max_retries + 1" "r = outcomes (made - 1)"
      "\<forall>k. attempt + 1 \<le> k \<and> k < made - 1 \<longrightarrow> (\<exists>e. outcomes k = Inl e \<and> is_retryable e)"
      "made \<le> max_retries \<longrightarrow> (\<forall>e. r = Inl e \<longrightarrow> \<not> is_retryable e)" by auto
    have "\<exists>e. outcomes k = Inl e \<and> is_retryable e" if "attempt \<le> k \<and> k < made - 1" for k
      using that ih(4) e(1,2) by (cases "k = attempt") auto
    with ih show ?thesis by auto
  next
    case False
    with 1(2) have "r = outcomes attempt" "made = attempt + 1"
      by (subst (asm) call_attempts.simps; auto split: sum.splits if_splits)+
    with False 1(3) show ?thesis by auto
  qed
qed

section \<open>Properties\<close>



text \<open>
  C39. No peer is refused for longer than a cooldown after its last recorded failure: from a fresh
  tracker, after any events whose failures were recorded by time \<open>T\<close> and any further events that
  record no failure of the peer, a call to the peer one cooldown after \<open>T\<close> goes out as an ordinary call.
\<close>

theorem refusal_ends:
  assumes "th_state t = []" and "list_all (event_time_within T) past" and "list_all (\<lambda>e. \<not> charges p e) rest"
    and "T + th_cooldown t \<le> now"
  shows "fst (admit now p (fold health_step (past @ rest) t)) = Healthy"
proof (rule admit_after_mark)
  have "marks_within (T + th_cooldown t) (fold health_step past t)"
    using assms(1,2) by (intro marks_run) (simp_all add: marks_within_def)
  then have "case mark_of p (fold health_step past t) of None \<Rightarrow> True | Some until \<Rightarrow> until \<le> now"
    using assms(4) by (fastforce simp: marks_within_def mark_of_def bind_eq_Some_conv split: option.splits)
  with mark_uncharged_run [OF assms(3), of "fold health_step past t"]
  show "case mark_of p (fold health_step (past @ rest) t) of None \<Rightarrow> True | Some until \<Rightarrow> until \<le> now" by auto
qed

theorem refusal_ends_witness:
  "fst (admit 5000 ''a'' (fold health_step ([EFailure 0 ''a'' Healthy] @ [EAdmit 260 ''a'']) (health_with_params 1 5000))) = Healthy"
  by (rule refusal_ends [where T = 0]) (simp_all add: health_with_params_def)

text \<open>
  C40. A call tries at most one time more than its retries and answers with its last attempt: every
  attempt before it failed in a way a retry can help, and it gives up early only on a success or on a
  failure a retry cannot help.
\<close>

theorem call_gives_last_attempt:
  assumes "admit now peer t = (Healthy, t1)"
    and "rpc_call max_retries now later peer outcomes t = ((r, made), t2)"
  shows "1 \<le> made \<and> made \<le> max_retries + 1 \<and> r = outcomes (made - 1) \<and>
    (\<forall>k < made - 1. \<exists>e. outcomes k = Inl e \<and> is_retryable e) \<and>
    (made \<le> max_retries \<longrightarrow> (\<forall>e. r = Inl e \<longrightarrow> \<not> is_retryable e))"
proof -
  from assms have "call_attempts max_retries outcomes 0 = (r, made)"
    by (auto simp: rpc_call_def split: prod.splits sum.splits)
  from call_attempts_result [OF this] show ?thesis by auto
qed

theorem call_gives_last_attempt_witness:
  "fst (rpc_call 3 0 9 ''a'' (\<lambda>k. if k = 0 then Inl Timeout else Inr ''ok'') health_new) = (Inr ''ok'', 2)"
proof -
  obtain r made t2 where call: "rpc_call 3 0 9 ''a'' (\<lambda>k. if k = 0 then Inl Timeout else Inr ''ok'') health_new = ((r, made), t2)"
    by (metis prod.collapse)
  have "admit 0 ''a'' health_new = (Healthy, health_new)" by (simp add: admit_def health_new_def health_with_params_def)
  from call_gives_last_attempt [OF this call]
  have "1 \<le> made" "r = (if made - 1 = 0 then Inl Timeout else Inr ''ok'')" "\<And>k. k < made - 1 \<Longrightarrow> k = 0"
    "made \<le> 3 \<longrightarrow> r \<noteq> Inl Timeout" by (auto split: if_splits)
  moreover from this(3) [of 1] have "made \<le> 2" by arith
  ultimately have "made = 2" "r = Inr ''ok''" by (auto split: if_splits)
  with call show ?thesis by simp
qed

end
