(* ===== verification/FlowStore.thy ===== *)
theory FlowStore
  imports EngineDrive RpcClient
begin

text \<open>
  The clustered flow store (\<^verbatim>\<open>crates/rift-cluster/src/stores/flow.rs\<close>): one owner per flow, which every
  write and every strong read goes through, replicas fed by pushes, and the two repairs, adoption at
  a takeover and the anti-entropy pull. What an operation meets outside the node is an argument: its
  reading of the clock, the writer's verdict on each write, what the other holders answer, and what
  becomes of the calls it makes. One operation reads the clock once.
\<close>

section \<open>Constants and refusals\<close>

definition TOMBSTONE_TTL_MILLIS :: u64 where "TOMBSTONE_TTL_MILLIS = 60000"
definition REPLICAS :: nat where "REPLICAS = 3"
definition SYNC_CHUNK :: nat where "SYNC_CHUNK = 256"
definition REPAIR_DURABILITY :: shard_durability where "REPAIR_DURABILITY = DNone"

definition GET_PATH :: string where "GET_PATH = ''/_cluster/flow/get''"

definition ISOLATED_REFUSAL :: string where "ISOLATED_REFUSAL = ''flow store: owner is isolated from the cluster''"
definition NOT_READY_STARTING :: string where "NOT_READY_STARTING = ''flow store: cluster is still starting''"
definition NOT_READY_SHUT_DOWN :: string where "NOT_READY_SHUT_DOWN = ''flow store: cluster node has shut down''"
definition NOT_READY_NO_MEMBERSHIP :: string where "NOT_READY_NO_MEMBERSHIP = ''flow store: no applied membership yet''"
definition NOT_READY_NO_OWNER :: string where "NOT_READY_NO_OWNER = ''flow store: ring has no members''"

definition is_not_ready :: "string \<Rightarrow> bool" where
  "is_not_ready reason \<longleftrightarrow>
     reason \<in> set [NOT_READY_STARTING, NOT_READY_SHUT_DOWN, NOT_READY_NO_MEMBERSHIP, NOT_READY_NO_OWNER]"

text \<open>An error at the store face: unavailability carries \<^verbatim>\<open>BackendUnavailable\<close> and answers 503; any other is
  a plain fault.\<close>

datatype store_failure = BackendUnavailable string | StoreFault string

definition store_error :: "rpc_error \<Rightarrow> store_failure" where
  "store_error e =
     (if (case e of Unavailable _ _ \<Rightarrow> True | WrongNode _ _ \<Rightarrow> True | _ \<Rightarrow> False) \<or> is_liveness_failure e
      then BackendUnavailable (rpc_display e)
      else StoreFault (''flow store: '' @ rpc_display e))"

section \<open>The wire\<close>

text \<open>\<^verbatim>\<open>i64\<close> values are integers within bounds.\<close>

datatype write_op =
    FlowSet json
  | FlowDelete
  | FlowIncr int
  | FlowCas "json option" json
  | FlowSetTtl int
  | FlowSetKeyTtl int
  | FlowClear

record write_req =
  fw_flow_id :: string
  fw_key :: string
  fw_op :: write_op
  fw_ttl_seconds :: "int option"
  fw_durability :: shard_durability
  fw_m_idx :: u64

datatype write_reply =
    FlowApplied "versioned option" "int option" "bool option"
  | FlowCasConflict "json option"
  | FlowFenced u64
  | FlowNotOwner node_id
  | FlowError string

datatype replica_op =
    ReplicaPut string versioned
  | ReplicaDelete string
  | ReplicaClear

record replicate_req =
  rr_flow_id :: string
  rr_op :: replica_op
  rr_durability :: shard_durability

type_synonym pushes = "(node_id \<times> replicate_req) list"

type_synonym sync_reply = "(string \<times> (string \<times> versioned) list) list"

section \<open>A node\<close>

datatype flow_handle = HandleUnset | HandleGone | HandleLive node_id ring

record flow_node =
  fn_handle :: flow_handle
  fn_bridge :: bool
  fn_isolated :: bool
  fn_shard :: shard
  fn_adopted :: "(string, u64) table"

text \<open>What one operation meets: the clock, the writer's refusal of the write to a key if it refuses it,
  the answers of the other holders to a sync, and whether the node is isolated by the time it holds
  the lock.\<close>

record flow_env =
  fe_now :: u64
  fe_disk :: "string \<Rightarrow> string option"
  fe_pulls :: "node_id \<Rightarrow> sync_reply option"
  fe_isolated_late :: bool

fun flow_view :: "flow_handle \<Rightarrow> string + node_id \<times> ring" where
  "flow_view HandleUnset = Inl NOT_READY_STARTING"
| "flow_view HandleGone = Inl NOT_READY_SHUT_DOWN"
| "flow_view (HandleLive me r) = (if rg_members r = [] then Inl NOT_READY_NO_MEMBERSHIP else Inr (me, r))"

definition merge_entry :: "u64 \<Rightarrow> string \<Rightarrow> string \<Rightarrow> versioned \<Rightarrow> shard_durability \<Rightarrow> shard \<Rightarrow> shard" where
  "merge_entry now flow_id key entry durability sh = fst (shard_merge now flow_id key entry durability sh)"

definition merge_flows :: "u64 \<Rightarrow> sync_reply \<Rightarrow> shard \<Rightarrow> shard" where
  "merge_flows now flows sh =
     fold (\<lambda>(flow, entries) sh. fold (\<lambda>(key, entry). merge_entry now flow key entry REPAIR_DURABILITY) entries sh) flows sh"

definition holders :: "(u8 list \<Rightarrow> u64 \<Rightarrow> u64) \<Rightarrow> node_id \<Rightarrow> ring \<Rightarrow> string \<Rightarrow> node_id list" where
  "holders xxh64 me r flow_id = filter (\<lambda>i. i \<noteq> me) (owners xxh64 r (flow_key flow_id) REPLICAS)"

definition ensure_adopted ::
  "(u8 list \<Rightarrow> u64 \<Rightarrow> u64) \<Rightarrow> flow_env \<Rightarrow> node_id \<Rightarrow> ring \<Rightarrow> string \<Rightarrow> flow_node \<Rightarrow> flow_node" where
  "ensure_adopted xxh64 env me r flow_id node =
     (if tget (fn_adopted node) flow_id = Some (rg_m_idx r) then node
      else let peers = holders xxh64 me r flow_id;
               stamped = tput flow_id (rg_m_idx r) (fn_adopted node)
           in if peers = [] then node\<lparr>fn_adopted := stamped\<rparr>
              else let answers = List.map_filter (fe_pulls env) peers;
                       node' = node\<lparr>fn_shard := fold (merge_flows (fe_now env)) answers (fn_shard node)\<rparr>
                   in if answers = [] then node' else node'\<lparr>fn_adopted := stamped\<rparr>)"

definition replicate_push ::
  "(u8 list \<Rightarrow> u64 \<Rightarrow> u64) \<Rightarrow> node_id \<Rightarrow> ring \<Rightarrow> string \<Rightarrow> replica_op \<Rightarrow> shard_durability \<Rightarrow> pushes" where
  "replicate_push xxh64 me r flow_id rop durability =
     map (\<lambda>successor. (successor, \<lparr>rr_flow_id = flow_id, rr_op = rop, rr_durability = durability\<rparr>)) (holders xxh64 me r flow_id)"

section \<open>The owner's write path\<close>

text \<open>\<^verbatim>\<open>Duration::from_secs(secs.unsigned_abs())\<close> in milliseconds, as \<^verbatim>\<open>u64\<close> saturates it.\<close>

definition secs_millis :: "int \<Rightarrow> u64" where
  "secs_millis secs = (if abs secs * 1000 < 2 ^ 64 then of_int (abs secs * 1000) else - 1)"

definition mint :: "node_id \<Rightarrow> ring \<Rightarrow> u64 \<Rightarrow> versioned option \<Rightarrow> json \<Rightarrow> versioned" where
  "mint me r expiry prev v =
     \<lparr>vs_m_idx = rg_m_idx r, vs_v = (case prev of None \<Rightarrow> 1 | Some p \<Rightarrow> vs_v p + 1), vs_origin = me,
      vs_expires_at = expiry, vs_value = v, vs_deleted = False\<rparr>"

definition mint_tombstone :: "u64 \<Rightarrow> node_id \<Rightarrow> ring \<Rightarrow> versioned option \<Rightarrow> versioned" where
  "mint_tombstone now me r prev =
     (mint me r (expiry_from now (Some TOMBSTONE_TTL_MILLIS)) prev JNull)\<lparr>vs_deleted := True\<rparr>"

text \<open>A versioned write to one key: into the shard, then out to the successors unless the writer refused it.\<close>

definition commit_entry ::
  "(u8 list \<Rightarrow> u64 \<Rightarrow> u64) \<Rightarrow> flow_env \<Rightarrow> node_id \<Rightarrow> ring \<Rightarrow> write_req \<Rightarrow> versioned \<Rightarrow> write_reply \<Rightarrow> shard \<Rightarrow>
   (write_reply \<times> pushes) \<times> shard" where
  "commit_entry xxh64 env me r req entry reply sh =
     (let sh' = shard_set (fe_now env) (fw_flow_id req) (fw_key req) entry (fw_durability req) sh
      in case fe_disk env (fw_key req) of
           Some e \<Rightarrow> ((FlowError e, []), sh')
         | None \<Rightarrow> ((reply, replicate_push xxh64 me r (fw_flow_id req) (ReplicaPut (fw_key req) entry) (fw_durability req)), sh'))"

definition commit_clear ::
  "(u8 list \<Rightarrow> u64 \<Rightarrow> u64) \<Rightarrow> flow_env \<Rightarrow> node_id \<Rightarrow> ring \<Rightarrow> write_req \<Rightarrow> shard \<Rightarrow> (write_reply \<times> pushes) \<times> shard" where
  "commit_clear xxh64 env me r req sh =
     (let sh' = shard_clear_flow (fw_flow_id req) (fw_durability req) sh
      in case fe_disk env [] of
           Some e \<Rightarrow> ((FlowError e, []), sh')
         | None \<Rightarrow> ((FlowApplied None None None, replicate_push xxh64 me r (fw_flow_id req) ReplicaClear (fw_durability req)), sh'))"

fun rewrite_keys ::
  "(u8 list \<Rightarrow> u64 \<Rightarrow> u64) \<Rightarrow> flow_env \<Rightarrow> node_id \<Rightarrow> ring \<Rightarrow> write_req \<Rightarrow> u64 \<Rightarrow> (string \<times> versioned) list \<Rightarrow> shard \<Rightarrow>
   (string option \<times> pushes) \<times> shard" where
  "rewrite_keys xxh64 env me r req expiry [] sh = ((None, []), sh)"
| "rewrite_keys xxh64 env me r req expiry ((key, prev) # rows) sh =
     (let entry = \<lparr>vs_m_idx = rg_m_idx r, vs_v = vs_v prev + 1, vs_origin = me, vs_expires_at = expiry,
                   vs_value = vs_value prev, vs_deleted = vs_deleted prev\<rparr>;
          sh' = shard_set (fe_now env) (fw_flow_id req) key entry (fw_durability req) sh
      in case fe_disk env key of
           Some e \<Rightarrow> ((Some e, []), sh')
         | None \<Rightarrow>
             (let ((error, pushed), sh'') = rewrite_keys xxh64 env me r req expiry rows sh'
              in ((error, replicate_push xxh64 me r (fw_flow_id req) (ReplicaPut key entry) (fw_durability req) @ pushed), sh'')))"

definition rewrite_expiries ::
  "(u8 list \<Rightarrow> u64 \<Rightarrow> u64) \<Rightarrow> flow_env \<Rightarrow> node_id \<Rightarrow> ring \<Rightarrow> write_req \<Rightarrow> string option \<Rightarrow> int \<Rightarrow> write_reply \<Rightarrow> shard \<Rightarrow>
   (write_reply \<times> pushes) \<times> shard" where
  "rewrite_expiries xxh64 env me r req only_key ttl_seconds reply sh =
     (let rows = filter (\<lambda>(key, _). case only_key of None \<Rightarrow> True | Some k \<Rightarrow> k = key) (shard_flow (fe_now env) sh (fw_flow_id req));
          ((error, pushed), sh') =
            rewrite_keys xxh64 env me r req (expiry_from (fe_now env) (Some (secs_millis ttl_seconds))) rows sh
      in (((case error of Some e \<Rightarrow> FlowError e | None \<Rightarrow> reply), pushed), sh'))"

definition I64_MAX :: int where "I64_MAX = 2 ^ 63 - 1"
definition I64_MIN :: int where "I64_MIN = - (2 ^ 63)"

definition as_i64 :: "json \<Rightarrow> int option" where
  "as_i64 v = (case v of JInt n \<Rightarrow> if I64_MIN \<le> n \<and> n \<le> I64_MAX then Some n else None | _ \<Rightarrow> None)"

definition checked_add :: "int \<Rightarrow> int \<Rightarrow> int option" where
  "checked_add a b = (if I64_MIN \<le> a + b \<and> a + b \<le> I64_MAX then Some (a + b) else None)"

definition show_int :: "int \<Rightarrow> string" where
  "show_int n = (if n < 0 then ''-'' @ show_nat (nat (- n)) else show_nat (nat n))"

text \<open>The part of \<^verbatim>\<open>owner_write\<close> under the lock.\<close>

fun apply_write ::
  "(u8 list \<Rightarrow> u64 \<Rightarrow> u64) \<Rightarrow> flow_env \<Rightarrow> node_id \<Rightarrow> ring \<Rightarrow> write_req \<Rightarrow> write_op \<Rightarrow> shard \<Rightarrow> (write_reply \<times> pushes) \<times> shard" where
  "apply_write xxh64 env me r req (FlowSet v) sh =
     (let expiry = expiry_from (fe_now env) (map_option secs_millis (fw_ttl_seconds req));
          entry = mint me r expiry (get_versioned (fe_now env) sh (fw_flow_id req) (fw_key req)) v
      in commit_entry xxh64 env me r req entry (FlowApplied (Some entry) None None) sh)"
| "apply_write xxh64 env me r req FlowDelete sh =
     commit_entry xxh64 env me r req
       (mint_tombstone (fe_now env) me r (get_versioned (fe_now env) sh (fw_flow_id req) (fw_key req)))
       (FlowApplied None None None) sh"
| "apply_write xxh64 env me r req (FlowIncr by) sh =
     (let expiry = expiry_from (fe_now env) (map_option secs_millis (fw_ttl_seconds req));
          prev = get_versioned (fe_now env) sh (fw_flow_id req) (fw_key req);
          current = (case prev of
                       None \<Rightarrow> 0
                     | Some e \<Rightarrow> if vs_deleted e then 0 else case as_i64 (vs_value e) of None \<Rightarrow> 0 | Some n \<Rightarrow> n)
      in case checked_add current by of
           None \<Rightarrow> ((FlowError (''increment_by overflow: '' @ show_int current @ '' + '' @ show_int by @ '' exceeds i64 range''), []), sh)
         | Some new \<Rightarrow> commit_entry xxh64 env me r req (mint me r expiry prev (JInt new)) (FlowApplied None (Some new) None) sh)"
| "apply_write xxh64 env me r req (FlowCas expected new) sh =
     (let expiry = expiry_from (fe_now env) (map_option secs_millis (fw_ttl_seconds req));
          prev = get_versioned (fe_now env) sh (fw_flow_id req) (fw_key req);
          current = (case prev of None \<Rightarrow> None | Some e \<Rightarrow> if vs_deleted e then None else Some (vs_value e))
      in if current = expected
         then (let entry = mint me r expiry prev new in commit_entry xxh64 env me r req entry (FlowApplied (Some entry) None None) sh)
         else ((FlowCasConflict current, []), sh))"
| "apply_write xxh64 env me r req (FlowSetTtl ttl_seconds) sh =
     (if ttl_seconds \<le> 0 then commit_clear xxh64 env me r req sh
      else rewrite_expiries xxh64 env me r req None ttl_seconds (FlowApplied None None None) sh)"
| "apply_write xxh64 env me r req (FlowSetKeyTtl ttl_seconds) sh =
     (if shard_get (fe_now env) sh (fw_flow_id req) (fw_key req) = None then ((FlowApplied None None (Some False), []), sh)
      else if ttl_seconds \<le> 0
      then commit_entry xxh64 env me r req
             (mint_tombstone (fe_now env) me r (get_versioned (fe_now env) sh (fw_flow_id req) (fw_key req)))
             (FlowApplied None None (Some True)) sh
      else rewrite_expiries xxh64 env me r req (Some (fw_key req)) ttl_seconds (FlowApplied None None (Some True)) sh)"
| "apply_write xxh64 env me r req FlowClear sh = commit_clear xxh64 env me r req sh"

definition owner_write ::
  "(u8 list \<Rightarrow> u64 \<Rightarrow> u64) \<Rightarrow> flow_env \<Rightarrow> write_req \<Rightarrow> flow_node \<Rightarrow> (write_reply \<times> pushes) \<times> flow_node" where
  "owner_write xxh64 env req node =
     (case flow_view (fn_handle node) of
        Inl reason \<Rightarrow> ((FlowError reason, []), node)
      | Inr (me, r) \<Rightarrow>
          if fw_m_idx req \<noteq> rg_m_idx r then ((FlowFenced (rg_m_idx r), []), node)
          else case owner xxh64 r (flow_key (fw_flow_id req)) of
            None \<Rightarrow> ((FlowError NOT_READY_NO_OWNER, []), node)
          | Some o' \<Rightarrow>
              if o' \<noteq> me then ((FlowNotOwner o', []), node)
              else if fn_isolated node then ((FlowError ISOLATED_REFUSAL, []), node)
              else let node1 = ensure_adopted xxh64 env me r (fw_flow_id req) node
                   in if fe_isolated_late env then ((FlowError ISOLATED_REFUSAL, []), node1)
                      else let (answer, sh) = apply_write xxh64 env me r req (fw_op req) (fn_shard node1)
                           in (answer, node1\<lparr>fn_shard := sh\<rparr>))"

section \<open>Replicas and repair\<close>

fun apply_replica :: "u64 \<Rightarrow> replicate_req \<Rightarrow> shard \<Rightarrow> shard" where
  "apply_replica now req sh =
     (case rr_op req of
        ReplicaPut key entry \<Rightarrow> merge_entry now (rr_flow_id req) key entry (rr_durability req) sh
      | ReplicaDelete key \<Rightarrow> shard_delete now (rr_flow_id req) key (rr_durability req) sh
      | ReplicaClear \<Rightarrow> shard_clear_flow (rr_flow_id req) (rr_durability req) sh)"

text \<open>What a node answers to a sync: its copy of the flows asked for, tombstones included.\<close>

definition serve_sync :: "u64 \<Rightarrow> string list \<Rightarrow> shard \<Rightarrow> sync_reply" where
  "serve_sync now asked sh = map (\<lambda>flow_id. (flow_id, shard_flow now sh flow_id)) asked"

text \<open>\<^verbatim>\<open>slice::chunks\<close>.\<close>

function chunks :: "nat \<Rightarrow> 'a list \<Rightarrow> 'a list list" where
  "chunks n xs = (if xs = [] \<or> n = 0 then [] else take n xs # chunks n (drop n xs))"
  by auto

termination
  by (relation "measure (\<lambda>(n, xs). length xs)") auto

declare chunks.simps [simp del]

text \<open>One pass of the repair loop. \<open>pulls owner ids\<close> is the owner's answer to one request, if it answers;
  the groups are taken in the order of the owners' first flows.\<close>

definition flows_by_owner :: "(u8 list \<Rightarrow> u64 \<Rightarrow> u64) \<Rightarrow> node_id \<Rightarrow> ring \<Rightarrow> shard \<Rightarrow> (node_id \<times> string list) list" where
  "flows_by_owner xxh64 me r sh =
     (let owner_of = (\<lambda>flow_id. owner xxh64 r (flow_key flow_id));
          others = filter (\<lambda>flow_id. case owner_of flow_id of None \<Rightarrow> False | Some o' \<Rightarrow> o' \<noteq> me) (flow_ids sh)
      in map (\<lambda>o'. (o', filter (\<lambda>flow_id. owner_of flow_id = Some o') others))
           (remdups (List.map_filter owner_of others)))"

definition anti_entropy_tick ::
  "(u8 list \<Rightarrow> u64 \<Rightarrow> u64) \<Rightarrow> u64 \<Rightarrow> (node_id \<Rightarrow> string list \<Rightarrow> sync_reply option) \<Rightarrow> flow_node \<Rightarrow> flow_node" where
  "anti_entropy_tick xxh64 now pulls node =
     (case flow_view (fn_handle node) of
        Inl _ \<Rightarrow> node
      | Inr (me, r) \<Rightarrow>
          node\<lparr>fn_shard :=
            fold (\<lambda>(o', flows).
                    fold (\<lambda>chunk sh. case pulls o' chunk of None \<Rightarrow> sh | Some reply \<Rightarrow> merge_flows now reply sh) (chunks SYNC_CHUNK flows))
              (flows_by_owner xxh64 me r (fn_shard node)) (fn_shard node)\<rparr>)"

section \<open>Routing\<close>

type_synonym flow_fleet = "node_id \<Rightarrow> flow_node"

text \<open>What becomes of a call to the owner: its handler ran \<open>n\<close> times before the run whose answer came back, or
  ran \<open>n\<close> times and the caller got an error of the transport.\<close>

datatype flow_hop = Reached nat | Lost nat rpc_error

text \<open>What becomes of an op on the bridge: it ended inside the deadline, there was no permit, or the
  deadline passed, with the op done or not.\<close>

datatype bridge_outcome = Bridged | NoPermit | Late bool

text \<open>The route \<^verbatim>\<open>flow/write\<close>, with the pushes its runs have sent.\<close>

definition write_handler ::
  "(u8 list \<Rightarrow> u64 \<Rightarrow> u64) \<Rightarrow> flow_env \<Rightarrow> write_req \<Rightarrow> pushes \<times> flow_node \<Rightarrow> write_reply \<times> (pushes \<times> flow_node)" where
  "write_handler xxh64 env req s =
     (let ((reply, pushed), node) = owner_write xxh64 env req (snd s) in (reply, fst s @ pushed, node))"

definition routed_write ::
  "(u8 list \<Rightarrow> u64 \<Rightarrow> u64) \<Rightarrow> flow_env \<Rightarrow> flow_hop \<Rightarrow> node_id \<Rightarrow> write_req \<Rightarrow> flow_fleet \<Rightarrow>
   ((rpc_error + write_reply) \<times> pushes) \<times> flow_fleet" where
  "routed_write xxh64 env hop me req fleet =
     (case flow_view (fn_handle (fleet me)) of
        Inl reason \<Rightarrow> ((Inl (Unavailable reason None), []), fleet)
      | Inr (_, r) \<Rightarrow>
          (case owner xxh64 r (flow_key (fw_flow_id req)) of
             None \<Rightarrow> ((Inl (Unavailable NOT_READY_NO_OWNER None), []), fleet)
           | Some o' \<Rightarrow>
               if o' = me
               then (let ((reply, pushed), node) = owner_write xxh64 env req (fleet me) in ((Inr reply, pushed), fleet(me := node)))
               else (case hop of
                       Reached n \<Rightarrow>
                         (let (answer, pushed, node) = run_handler (Suc n) (write_handler xxh64 env req) ([], fleet o')
                          in ((Inr (the answer), pushed), fleet(o' := node)))
                     | Lost n error \<Rightarrow>
                         (let (_, pushed, node) = run_handler n (write_handler xxh64 env req) ([], fleet o')
                          in ((Inl error, pushed), fleet(o' := node))))))"

text \<open>\<open>seen\<close> is the handle as it was when the request was minted; the op looks at the node again.\<close>

definition blocking_write ::
  "(u8 list \<Rightarrow> u64 \<Rightarrow> u64) \<Rightarrow> flow_env \<Rightarrow> bridge_outcome \<Rightarrow> flow_hop \<Rightarrow> node_id \<Rightarrow> flow_handle \<Rightarrow> (u64 \<Rightarrow> write_req) \<Rightarrow>
   flow_fleet \<Rightarrow> ((store_failure + write_reply) \<times> pushes) \<times> flow_fleet" where
  "blocking_write xxh64 env bridge hop me seen req_for fleet =
     (if \<not> fn_bridge (fleet me) then ((Inl (BackendUnavailable NOT_READY_STARTING), []), fleet)
      else case flow_view seen of
        Inl reason \<Rightarrow> ((Inl (BackendUnavailable reason), []), fleet)
      | Inr (_, r) \<Rightarrow>
          (let ((result, pushed), fleet') = routed_write xxh64 env hop me (req_for (rg_m_idx r)) fleet
           in case bridge of
                Bridged \<Rightarrow> ((map_sum store_error id result, pushed), fleet')
              | NoPermit \<Rightarrow> ((Inl (store_error Shed), []), fleet)
              | Late finished \<Rightarrow> if finished then ((Inl (store_error Timeout), pushed), fleet') else ((Inl (store_error Timeout), []), fleet)))"

text \<open>An owner's answer to a strong read, local or forwarded.\<close>

definition serve_get ::
  "(u8 list \<Rightarrow> u64 \<Rightarrow> u64) \<Rightarrow> flow_env \<Rightarrow> string \<Rightarrow> string \<Rightarrow> flow_node \<Rightarrow> (rpc_error + versioned option) \<times> flow_node" where
  "serve_get xxh64 env flow_id key node =
     (case flow_view (fn_handle node) of
        Inl reason \<Rightarrow> (Inl (Unavailable reason None), node)
      | Inr (me, r) \<Rightarrow>
          if fn_isolated node then (Inl (Unavailable ISOLATED_REFUSAL None), node)
          else let node1 = ensure_adopted xxh64 env me r flow_id node
               in (Inr (shard_get (fe_now env) (fn_shard node1) flow_id key), node1))"

definition blocking_read ::
  "(u8 list \<Rightarrow> u64 \<Rightarrow> u64) \<Rightarrow> flow_env \<Rightarrow> bridge_outcome \<Rightarrow> flow_hop \<Rightarrow> node_id \<Rightarrow> string \<Rightarrow> string \<Rightarrow>
   flow_fleet \<Rightarrow> (store_failure + versioned option) \<times> flow_fleet" where
  "blocking_read xxh64 env bridge hop me flow_id key fleet =
     (if \<not> fn_bridge (fleet me) then (Inl (BackendUnavailable NOT_READY_STARTING), fleet)
      else let (result, fleet') =
             (case flow_view (fn_handle (fleet me)) of
                Inl reason \<Rightarrow> (Inl (Unavailable reason None), fleet)
              | Inr (_, r) \<Rightarrow>
                  (case owner xxh64 r (flow_key flow_id) of
                     None \<Rightarrow> (Inl (Unavailable NOT_READY_NO_OWNER None), fleet)
                   | Some o' \<Rightarrow>
                       if o' = me
                       then (let (answer, node) = serve_get xxh64 env flow_id key (fleet me) in (answer, fleet(me := node)))
                       else (case hop of
                               Reached n \<Rightarrow>
                                 (let (answer, node) = run_handler (Suc n) (serve_get xxh64 env flow_id key) (fleet o')
                                  in (map_sum (as_received ''POST'' GET_PATH) id (the answer), fleet(o' := node)))
                             | Lost n error \<Rightarrow>
                                 (let (_, node) = run_handler n (serve_get xxh64 env flow_id key) (fleet o')
                                  in (Inl error, fleet(o' := node))))))
           in case bridge of
                Bridged \<Rightarrow> (map_sum store_error id result, fleet')
              | NoPermit \<Rightarrow> (Inl (store_error Shed), fleet)
              | Late finished \<Rightarrow> (Inl (store_error Timeout), if finished then fleet' else fleet))"

section \<open>The store of one imposter\<close>

record store_face =
  sf_config :: flow_config
  sf_port :: "u16 option"

fun shard_durability_of :: "durability \<Rightarrow> shard_durability" where
  "shard_durability_of DurNone = DNone"
| "shard_durability_of DurAsync = DAsync"
| "shard_durability_of DurSync = DSync"

definition face_scoped :: "store_face \<Rightarrow> string \<Rightarrow> string" where
  "face_scoped face flow_id = scoped_flow_id (fc_scope (sf_config face)) (sf_port face) flow_id"

definition face_request :: "store_face \<Rightarrow> string \<Rightarrow> string \<Rightarrow> write_op \<Rightarrow> u64 \<Rightarrow> write_req" where
  "face_request face flow_id key wop m_idx =
     \<lparr>fw_flow_id = face_scoped face flow_id, fw_key = key, fw_op = wop, fw_ttl_seconds = fc_ttl_seconds (sf_config face),
      fw_durability = shard_durability_of (fc_durability (sf_config face)), fw_m_idx = m_idx\<rparr>"

text \<open>The way of one op through the cluster, as the op meets it.\<close>

record flow_path =
  fp_env :: flow_env
  fp_bridge :: bridge_outcome
  fp_hop :: flow_hop
  fp_seen :: flow_handle

definition face_write ::
  "(u8 list \<Rightarrow> u64 \<Rightarrow> u64) \<Rightarrow> flow_path \<Rightarrow> node_id \<Rightarrow> store_face \<Rightarrow> string \<Rightarrow> string \<Rightarrow> write_op \<Rightarrow> flow_fleet \<Rightarrow>
   ((store_failure + write_reply) \<times> pushes) \<times> flow_fleet" where
  "face_write xxh64 path me face flow_id key wop fleet =
     blocking_write xxh64 (fp_env path) (fp_bridge path) (fp_hop path) me (fp_seen path) (face_request face flow_id key wop) fleet"

fun applied :: "write_reply \<Rightarrow> store_failure + write_reply" where
  "applied (FlowFenced owner_m_idx) =
     Inl (BackendUnavailable (''flow write fenced: membership changed under the op (owner at m_idx '' @ show_word owner_m_idx @ ''); retry''))"
| "applied (FlowNotOwner o') =
     Inl (BackendUnavailable (''flow write misrouted: node '' @ show_word o' @ '' owns this flow; retry''))"
| "applied (FlowError reason) =
     (if reason = ISOLATED_REFUSAL \<or> is_not_ready reason then Inl (BackendUnavailable reason)
      else Inl (StoreFault (''flow store: '' @ reason)))"
| "applied reply = Inr reply"

definition face_applied :: "store_failure + write_reply \<Rightarrow> store_failure + write_reply" where
  "face_applied result = (case result of Inl e \<Rightarrow> Inl e | Inr reply \<Rightarrow> applied reply)"

text \<open>The trait's methods, on what \<open>face_write\<close> or \<open>blocking_read\<close> gave. \<open>dbg\<close> is the \<^verbatim>\<open>{:?}\<close> of a reply.\<close>

definition face_unit :: "store_failure + write_reply \<Rightarrow> store_failure + unit" where
  "face_unit result = map_sum id (\<lambda>_. ()) (face_applied result)"

definition face_increment_by :: "(write_reply \<Rightarrow> string) \<Rightarrow> store_failure + write_reply \<Rightarrow> store_failure + int" where
  "face_increment_by dbg result =
     (case face_applied result of
        Inl e \<Rightarrow> Inl e
      | Inr (FlowApplied _ (Some n) _) \<Rightarrow> Inr n
      | Inr other \<Rightarrow> Inl (StoreFault (''flow store: increment reply carried no value: '' @ dbg other)))"

definition face_set_key_ttl :: "(write_reply \<Rightarrow> string) \<Rightarrow> store_failure + write_reply \<Rightarrow> store_failure + bool" where
  "face_set_key_ttl dbg result =
     (case face_applied result of
        Inl e \<Rightarrow> Inl e
      | Inr (FlowApplied _ _ (Some existed)) \<Rightarrow> Inr existed
      | Inr other \<Rightarrow> Inl (StoreFault (''flow store: set_key_ttl reply carried no existence bit: '' @ dbg other)))"

datatype cas_outcome = CasApplied | CasConflictWith "json option"

definition face_compare_and_set :: "store_failure + write_reply \<Rightarrow> store_failure + cas_outcome" where
  "face_compare_and_set result =
     (case face_applied result of
        Inl e \<Rightarrow> Inl e
      | Inr (FlowCasConflict current) \<Rightarrow> Inr (CasConflictWith current)
      | Inr _ \<Rightarrow> Inr CasApplied)"

definition face_get ::
  "(u8 list \<Rightarrow> u64 \<Rightarrow> u64) \<Rightarrow> flow_path \<Rightarrow> node_id \<Rightarrow> store_face \<Rightarrow> string \<Rightarrow> string \<Rightarrow> flow_fleet \<Rightarrow>
   (store_failure + json option) \<times> flow_fleet" where
  "face_get xxh64 path me face flow_id key fleet =
     (case fc_read_consistency (sf_config face) of
        ReadLocal \<Rightarrow>
          (Inr (map_option vs_value (shard_get (fe_now (fp_env path)) (fn_shard (fleet me)) (face_scoped face flow_id) key)), fleet)
      | ReadStrong \<Rightarrow>
          map_prod (map_sum id (map_option vs_value)) id
            (blocking_read xxh64 (fp_env path) (fp_bridge path) (fp_hop path) me (face_scoped face flow_id) key fleet))"

text \<open>The provider: an imposter whose block this build refuses gets a store that refuses every operation.\<close>

definition provide :: "'a upstream_scheme \<Rightarrow> imposter_config \<Rightarrow> string + store_face" where
  "provide U config =
     (case flow_config_from_imposter U config of
        Inl reason \<Rightarrow>
          Inl (''flow state for imposter '' @ (case ic_port config of None \<Rightarrow> ''<unassigned>'' | Some p \<Rightarrow> show_word p) @
               '' is unavailable '' @ [CHR 0xE2, CHR 0x80, CHR 0x94] @ '' its flowState carries a value this build refuses: '' @ reason)
      | Inr flow_config \<Rightarrow> Inr \<lparr>sf_config = flow_config, sf_port = ic_port config\<rparr>)"

section \<open>Rooms, views and newness\<close>

text \<open>A well-formed shard whose flows are within a set that fits under its cap.\<close>

definition roomy :: "string set \<Rightarrow> shard \<Rightarrow> bool" where
  "roomy F sh \<longleftrightarrow>
     finite F \<and> card F \<le> sh_max_flows sh \<and> twf (sh_memory sh) \<and> fst ` set (sh_memory sh) \<subseteq> F \<and>
     list_all (\<lambda>row. twf (fm_keys (snd row))) (sh_memory sh)"

abbreviation shard_view :: "shard \<Rightarrow> view" where
  "shard_view sh \<equiv> mem_view (sh_memory sh)"

text \<open>An entry at least as new as \<open>e\<close>.\<close>

definition at_least :: "versioned \<Rightarrow> versioned option \<Rightarrow> bool" where
  "at_least e cur = (case cur of None \<Rightarrow> False | Some c \<Rightarrow> \<not> superseded_by c e)"

section \<open>Predicates of the properties and samples\<close>

text \<open>Every entry of the answer for one key is live.\<close>

definition lively :: "u64 \<Rightarrow> string \<Rightarrow> string \<Rightarrow> sync_reply \<Rightarrow> bool" where
  "lively now i k flows \<longleftrightarrow> (\<forall>(j, es) \<in> set flows. \<forall>(l, e) \<in> set es. j = i \<longrightarrow> l = k \<longrightarrow> is_live e now)"

text \<open>A shard with room that holds an entry at least as new as \<open>c\<close>.\<close>

definition kept :: "string set \<Rightarrow> u64 \<Rightarrow> string \<Rightarrow> string \<Rightarrow> versioned \<Rightarrow> shard \<Rightarrow> bool" where
  "kept F now i k c sh \<longleftrightarrow> roomy F sh \<and> at_least c (get_versioned now sh i k)"

text \<open>The tick as one fold over the requests it makes.\<close>

definition sync_requests :: "(u8 list \<Rightarrow> u64 \<Rightarrow> u64) \<Rightarrow> node_id \<Rightarrow> ring \<Rightarrow> shard \<Rightarrow> (node_id \<times> string list) list" where
  "sync_requests xxh64 me r sh =
     concat (map (\<lambda>(o', flows). map (Pair o') (chunks SYNC_CHUNK flows)) (flows_by_owner xxh64 me r sh))"

text \<open>Peers answer a sync with their own copies, as they were when asked.\<close>

definition honest_pulls :: "u64 \<Rightarrow> (node_id \<Rightarrow> shard) \<Rightarrow> (node_id \<Rightarrow> string list \<Rightarrow> sync_reply option) \<Rightarrow> bool" where
  "honest_pulls now shards pulls \<longleftrightarrow>
     (\<forall>n asked reply. pulls n asked = Some reply \<longrightarrow> (\<exists>past \<le> now. reply = serve_sync past asked (shards n)))"

text \<open>The answers an adoption takes, each a copy of the flow as a holder has it at that moment.\<close>

definition honest_holders :: "flow_env \<Rightarrow> string \<Rightarrow> (node_id \<Rightarrow> shard) \<Rightarrow> bool" where
  "honest_holders env i shards \<longleftrightarrow>
     (\<forall>n reply. fe_pulls env n = Some reply \<longrightarrow> reply = serve_sync (fe_now env) [i] (shards n))"

text \<open>A put that is not newer than the tombstone of its key.\<close>

definition delayed_put :: "string \<Rightarrow> string \<Rightarrow> versioned \<Rightarrow> replicate_req \<Rightarrow> bool" where
  "delayed_put i k tomb q =
     (case rr_op q of
        ReplicaPut key e \<Rightarrow> rr_flow_id q = i \<and> key = k \<longrightarrow> \<not> superseded_by tomb e
      | _ \<Rightarrow> False)"

text \<open>Three members under one membership, with a hash that ties every member; empty shards.\<close>

definition flat_hash :: "u8 list \<Rightarrow> u64 \<Rightarrow> u64" where "flat_hash bytes seed = 0"

definition sample_ring :: ring where "sample_ring = ring_new [1, 2, 3] 7"

definition empty_shard :: shard where
  "empty_shard = \<lparr>sh_memory = [], sh_seq = 0, sh_queue = [], sh_writer = True, sh_max_flows = 10\<rparr>"

definition sample_node :: "node_id \<Rightarrow> flow_node" where
  "sample_node n = \<lparr>fn_handle = HandleLive n sample_ring, fn_bridge = True, fn_isolated = False, fn_shard = empty_shard, fn_adopted = []\<rparr>"

definition sample_env :: "u64 \<Rightarrow> flow_env" where
  "sample_env now = \<lparr>fe_now = now, fe_disk = (\<lambda>_. None), fe_pulls = (\<lambda>_. Some []), fe_isolated_late = False\<rparr>"

definition sample_req :: "write_op \<Rightarrow> write_req" where
  "sample_req wop = \<lparr>fw_flow_id = ''f'', fw_key = ''k'', fw_op = wop, fw_ttl_seconds = None, fw_durability = DAsync, fw_m_idx = 7\<rparr>"

definition sample_copy :: "versioned \<Rightarrow> shard" where
  "sample_copy e = shard_set 1 ''f'' ''k'' e DNone empty_shard"

text \<open>A member that takes over with no copy, and a holder that has one.\<close>

definition takeover_env :: flow_env where
  "takeover_env = (sample_env 10)\<lparr>fe_pulls := (\<lambda>n. if n = 2 then Some (serve_sync 10 [''f''] (sample_copy (sample_entry_at 2 0))) else None)\<rparr>"

definition sample_tombstone :: versioned where
  "sample_tombstone = \<lparr>vs_m_idx = 7, vs_v = 1, vs_origin = 3, vs_expires_at = 60010, vs_value = JNull, vs_deleted = True\<rparr>"

definition sample_push :: "replica_op \<Rightarrow> replicate_req" where
  "sample_push rop = \<lparr>rr_flow_id = ''f'', rr_op = rop, rr_durability = DAsync\<rparr>"

section \<open>Lemmas: the shard under room\<close>

lemma get_versioned_view: "get_versioned now sh i k = live_view now (shard_view sh) (i, k)"
  by (simp add: get_versioned_def live_view_def mem_view_def split: option.split)

lemma shard_get_view:
  "shard_get now sh i k = (case live_view now (shard_view sh) (i, k) of None \<Rightarrow> None | Some e \<Rightarrow> if vs_deleted e then None else Some e)"
  by (auto simp: shard_get_def live_view_def mem_view_def split: option.splits)

lemma roomy_fits:
  assumes "roomy F sh" and "i \<in> F"
  shows "length (sh_memory (insert_entry now i k e sh)) \<le> sh_max_flows sh"
proof -
  have "length (sh_memory (insert_entry now i k e sh)) = card (insert i (fst ` set (sh_memory sh)))"
    using assms(1) length_table [OF insert_entry_fields(3)] by (simp add: roomy_def insert_entry_fields)
  also have "\<dots> \<le> card F" using assms by (intro card_mono) (auto simp: roomy_def)
  finally show ?thesis using assms(1) by (simp add: roomy_def)
qed

lemma roomy_insert:
  assumes "roomy F sh" and "i \<in> F"
  shows "roomy F (insert_entry now i k e sh)"
proof -
  let ?f = "flow_or_default (sh_memory sh) i"
  have "twf (fm_keys ?f)"
    using assms(1) by (auto simp: roomy_def flow_or_default_def flow_mem_default_def list_all_iff split: option.split
        dest!: map_of_SomeD)
  then have "list_all (\<lambda>row. twf (fm_keys (snd row))) (sh_memory (insert_entry now i k e sh))"
    using assms(1) by (auto simp: roomy_def insert_entry_def Let_def touch_def intro!: list_all_tput)
  then show ?thesis using assms by (simp add: roomy_def insert_entry_fields)
qed

lemma roomy_submit [simp]: "roomy F (submit m d sh) = roomy F sh"
  by (simp add: roomy_def)

lemma set_in_room:
  assumes "roomy F sh" and "i \<in> F"
  shows "shard_view (shard_set now i k e d sh) = (shard_view sh)((i, k) \<mapsto> e)" and "roomy F (shard_set now i k e d sh)"
  using roomy_fits [OF assms] roomy_insert [OF assms]
  by (simp_all add: shard_set_def evict_noop insert_entry_fields mem_view_insert)

lemma merge_in_room:
  assumes "roomy F sh" and "i \<in> F"
  shows "shard_view (merge_entry now i k e d sh) =
           (if merge_refused now i k e sh then shard_view sh else (shard_view sh)((i, k) \<mapsto> e))"
    and "roomy F (merge_entry now i k e d sh)"
  using roomy_fits [OF assms] roomy_insert [OF assms] assms(1)
  by (simp_all add: merge_entry_def shard_merge_def evict_noop insert_entry_fields mem_view_insert)

lemma clear_in_room:
  assumes "roomy F sh"
  shows "shard_view (shard_clear_flow i d sh) = view_apply (MClearFlow i) (shard_view sh)" and "roomy F (shard_clear_flow i d sh)"
  using assms by (auto simp: shard_clear_flow_def mem_view_clear roomy_def list_all_tdel)

lemma delete_in_room:
  assumes "roomy F sh"
  shows "shard_view (shard_delete now i k d sh) = (shard_view sh)((i, k) := None)" and "roomy F (shard_delete now i k d sh)"
proof -
  show "shard_view (shard_delete now i k d sh) = (shard_view sh)((i, k) := None)" by (rule mem_view_delete)
  show "roomy F (shard_delete now i k d sh)"
  proof (cases "tget (sh_memory sh) i")
    case (Some f)
    then have "twf (fm_keys f)" "i \<in> F"
      using assms by (auto simp: roomy_def list_all_iff dest!: map_of_SomeD)
    then show ?thesis using assms Some
      by (auto simp: shard_delete_def Let_def roomy_def touch_def list_all_tdel intro!: list_all_tput)
  qed (use assms in \<open>simp add: shard_delete_def\<close>)
qed

lemma at_least_refl: "at_least e (Some e)"
  by (simp add: at_least_def superseded_by_def)

lemma at_least_step:
  assumes "at_least c cur" and "cur = Some x" and "superseded_by x e"
  shows "at_least c (Some e)"
  using assms by (auto simp: at_least_def superseded_by_def)

section \<open>Lemmas: merging what a holder answers\<close>

lemma merge_refusedE: "merge_refused now i k e sh \<Longrightarrow> at_least e (get_versioned now sh i k)"
  by (simp add: merge_refused_def at_least_def split: option.splits)

lemma merge_entry_newest:
  assumes "roomy F sh" and "i \<in> F" and "is_live e now"
  shows "kept F now i k e (merge_entry now i k e d sh)"
proof (cases "merge_refused now i k e sh")
  case True
  then show ?thesis using merge_refusedE [OF True] merge_in_room [OF assms(1,2), of now k e d]
    by (simp add: kept_def get_versioned_view)
next
  case False
  then show ?thesis using merge_in_room [OF assms(1,2), of now k e d] assms(3)
    by (simp add: kept_def get_versioned_view live_view_def at_least_refl)
qed

lemma merge_entry_keeps:
  assumes "kept F now i k c sh" and "j \<in> F" and "j = i \<longrightarrow> l = k \<longrightarrow> is_live e now"
  shows "kept F now i k c (merge_entry now j l e d sh)"
proof -
  have room: "roomy F sh" using assms(1) by (simp add: kept_def)
  note m = merge_in_room [OF room assms(2), of now l e d]
  show ?thesis
  proof (cases "(j, l) = (i, k) \<and> \<not> merge_refused now j l e sh")
    case True
    then have "get_versioned now (merge_entry now j l e d sh) i k = Some e"
      using m assms(3) by (auto simp: get_versioned_view live_view_def)
    moreover have "at_least c (Some e)"
    proof -
      obtain x where x: "get_versioned now sh i k = Some x" using assms(1) by (auto simp: kept_def at_least_def split: option.splits)
      then have "superseded_by x e" using True by (auto simp: merge_refused_def)
      with x assms(1) show ?thesis using at_least_step by (auto simp: kept_def)
    qed
    ultimately show ?thesis using m by (simp add: kept_def)
  next
    case False
    then have "get_versioned now (merge_entry now j l e d sh) i k = get_versioned now sh i k"
      using m by (auto simp: get_versioned_view live_view_def)
    then show ?thesis using assms(1) m by (simp add: kept_def)
  qed
qed

lemma fold_rows_kept:
  assumes "kept F now i k c sh" and "j \<in> F" and "\<forall>(l, e) \<in> set es. j = i \<longrightarrow> l = k \<longrightarrow> is_live e now"
  shows "kept F now i k c (fold (\<lambda>(key, entry). merge_entry now j key entry d) es sh)"
  using assms(1,3)
proof (induction es arbitrary: sh)
  case (Cons row es)
  then have "kept F now i k c (merge_entry now j (fst row) (snd row) d sh)"
    by (intro merge_entry_keeps [OF _ assms(2)]) auto
  with Cons show ?case by (auto simp: case_prod_beta)
qed simp

lemma fold_rows_roomy:
  assumes "roomy F sh" and "j \<in> F"
  shows "roomy F (fold (\<lambda>(key, entry). merge_entry now j key entry d) es sh)"
  using assms(1) by (induction es arbitrary: sh) (auto intro!: merge_in_room(2) [OF _ assms(2)])

lemma flows_kept:
  assumes "kept F now i k c sh" and "lively now i k flows" and "fst ` set flows \<subseteq> F"
  shows "kept F now i k c (merge_flows now flows sh)"
  using assms unfolding merge_flows_def
proof (induction flows arbitrary: sh)
  case (Cons fl flows)
  obtain j es where fl: "fl = (j, es)" by (cases fl)
  have "kept F now i k c (fold (\<lambda>(key, entry). merge_entry now j key entry REPAIR_DURABILITY) es sh)"
    using Cons.prems by (intro fold_rows_kept) (auto simp: fl lively_def)
  then show ?case using Cons by (simp add: fl lively_def)
qed simp

lemma flows_roomy:
  assumes "roomy F sh" and "fst ` set flows \<subseteq> F"
  shows "roomy F (merge_flows now flows sh)"
  using assms unfolding merge_flows_def
  by (induction flows arbitrary: sh) (auto simp: fold_rows_roomy split: prod.split)

lemma rows_newest:
  assumes "roomy F sh" and "i \<in> F" and "(k, e) \<in> set es" and "\<forall>(l, e) \<in> set es. l = k \<longrightarrow> is_live e now"
  shows "kept F now i k e (fold (\<lambda>(key, entry). merge_entry now i key entry d) es sh)"
proof -
  obtain as bs where es: "es = as @ (k, e) # bs" using assms(3) by (meson split_list)
  let ?sh = "fold (\<lambda>(key, entry). merge_entry now i key entry d) as sh"
  have "kept F now i k e (merge_entry now i k e d ?sh)"
    by (rule merge_entry_newest) (use fold_rows_roomy [OF assms(1,2)] assms in auto)
  then show ?thesis using assms(2,4) by (simp add: es fold_rows_kept)
qed

lemma flows_newest:
  assumes "roomy F sh" and "lively now i k flows" and "fst ` set flows \<subseteq> F"
    and "(i, es) \<in> set flows" and "(k, e) \<in> set es"
  shows "kept F now i k e (merge_flows now flows sh)"
proof -
  obtain as bs where fl: "flows = as @ (i, es) # bs" using assms(4) by (meson split_list)
  let ?merge = "\<lambda>flows. fold (\<lambda>(flow, entries) sh. fold (\<lambda>(key, entry). merge_entry now flow key entry REPAIR_DURABILITY) entries sh) flows"
  have "roomy F (?merge as sh)" using flows_roomy [OF assms(1), of as now] assms(3) by (auto simp: fl merge_flows_def)
  then have "kept F now i k e (fold (\<lambda>(key, entry). merge_entry now i key entry REPAIR_DURABILITY) es (?merge as sh))"
    using assms by (intro rows_newest) (auto simp: fl lively_def)
  then have "kept F now i k e (merge_flows now bs (fold (\<lambda>(key, entry). merge_entry now i key entry REPAIR_DURABILITY) es (?merge as sh)))"
    using assms(2,3) by (intro flows_kept) (auto simp: fl lively_def)
  then show ?thesis by (simp add: fl merge_flows_def)
qed

lemma rows_elsewhere:
  assumes "roomy F sh" and "j \<in> F" and "fst x \<noteq> j"
  shows "shard_view (fold (\<lambda>(key, entry). merge_entry now j key entry d) es sh) x = shard_view sh x"
  using assms(1) by (induction es arbitrary: sh) (use assms(2,3) in \<open>auto simp: merge_in_room\<close>)

lemma flows_elsewhere:
  assumes "roomy F sh" and "fst ` set flows \<subseteq> F" and "fst x \<notin> fst ` set flows"
  shows "shard_view (merge_flows now flows sh) x = shard_view sh x"
  using assms unfolding merge_flows_def
  by (induction flows arbitrary: sh) (auto simp: fold_rows_roomy rows_elsewhere split: prod.split)

lemma is_live_earlier: "is_live e now \<Longrightarrow> past \<le> now \<Longrightarrow> is_live e past"
  by (auto simp: is_live_def)

lemma shard_flow_rows:
  assumes "roomy F sh"
  shows "(k, e) \<in> set (shard_flow past sh i) \<longleftrightarrow> shard_view sh (i, k) = Some e \<and> is_live e past"
proof (cases "tget (sh_memory sh) i")
  case (Some f)
  then have "twf (fm_keys f)" using assms by (auto simp: roomy_def list_all_iff dest!: map_of_SomeD)
  then show ?thesis by (auto simp: shard_flow_def mem_view_def mem_entry_def Some twf_row)
qed (simp add: shard_flow_def mem_view_def mem_entry_def)

lemma serve_sync_flows [simp]: "fst ` set (serve_sync past asked sh) = set asked"
  by (force simp: serve_sync_def)

lemma sync_lively:
  assumes "roomy F' peer" and "\<And>e. shard_view peer (i, k) = Some e \<Longrightarrow> is_live e now"
  shows "lively now i k (serve_sync past asked peer)"
  using assms(2) by (auto simp: lively_def serve_sync_def shard_flow_rows [OF assms(1)])

lemma chunks_concat: "0 < n \<Longrightarrow> concat (chunks n xs) = xs"
proof (induction n xs rule: chunks.induct)
  case (1 n xs)
  then show ?case by (cases "xs = []") (simp_all add: chunks.simps [of n xs] chunks.simps [of n "[]"])
qed

lemma chunks_cover: "0 < n \<Longrightarrow> \<Union> (set ` set (chunks n xs)) = set xs"
  using chunks_concat [of n xs] by (metis set_concat)

lemma tick_requests:
  assumes "flow_view (fn_handle node) = Inr (me, r)"
  shows "fn_shard (anti_entropy_tick xxh64 now pulls node) =
    fold (\<lambda>(o', chunk) sh. case pulls o' chunk of None \<Rightarrow> sh | Some reply \<Rightarrow> merge_flows now reply sh)
      (sync_requests xxh64 me r (fn_shard node)) (fn_shard node)"
proof -
  have inner: "fold (\<lambda>(o', chunk) sh. case pulls o' chunk of None \<Rightarrow> sh | Some reply \<Rightarrow> merge_flows now reply sh) (map (Pair o') cs) sh =
    fold (\<lambda>chunk sh. case pulls o' chunk of None \<Rightarrow> sh | Some reply \<Rightarrow> merge_flows now reply sh) cs sh" for o' cs sh
    by (induction cs arbitrary: sh) auto
  have "fold (\<lambda>(o', chunk) sh. case pulls o' chunk of None \<Rightarrow> sh | Some reply \<Rightarrow> merge_flows now reply sh)
      (concat (map (\<lambda>(o', flows). map (Pair o') (chunks SYNC_CHUNK flows)) gs)) sh =
    fold (\<lambda>(o', flows). fold (\<lambda>chunk sh. case pulls o' chunk of None \<Rightarrow> sh | Some reply \<Rightarrow> merge_flows now reply sh) (chunks SYNC_CHUNK flows)) gs sh"
    for gs sh by (induction gs arbitrary: sh) (auto simp: inner)
  then show ?thesis using assms by (simp add: anti_entropy_tick_def sync_requests_def)
qed

lemma request_flows:
  assumes "(o', chunk) \<in> set (sync_requests xxh64 me r sh)" and "i \<in> set chunk"
  shows "owner xxh64 r (flow_key i) = Some o' \<and> o' \<noteq> me \<and> i \<in> set (flow_ids sh)"
proof -
  obtain flows where "(o', flows) \<in> set (flows_by_owner xxh64 me r sh)" "chunk \<in> set (chunks SYNC_CHUNK flows)"
    using assms(1) by (auto simp: sync_requests_def)
  moreover from this(2) assms(2) have "i \<in> set flows"
    using chunks_cover [of SYNC_CHUNK flows] by (auto simp: SYNC_CHUNK_def)
  ultimately show ?thesis by (auto simp: flows_by_owner_def Let_def split: option.splits)
qed

lemma request_for:
  assumes "i \<in> set (flow_ids sh)" and "owner xxh64 r (flow_key i) = Some o'" and "o' \<noteq> me"
  shows "\<exists>chunk. (o', chunk) \<in> set (sync_requests xxh64 me r sh) \<and> i \<in> set chunk"
proof -
  let ?others = "filter (\<lambda>j. case owner xxh64 r (flow_key j) of None \<Rightarrow> False | Some o' \<Rightarrow> o' \<noteq> me) (flow_ids sh)"
  let ?flows = "filter (\<lambda>j. owner xxh64 r (flow_key j) = Some o') ?others"
  have i: "i \<in> set ?others" using assms by simp
  then have "o' \<in> set (List.map_filter (\<lambda>j. owner xxh64 r (flow_key j)) ?others)"
    using assms(2) by (force simp: List.map_filter_def)
  then have "(o', ?flows) \<in> set (flows_by_owner xxh64 me r sh)" by (auto simp: flows_by_owner_def Let_def)
  moreover have "i \<in> set ?flows" using assms i by simp
  then obtain chunk where "chunk \<in> set (chunks SYNC_CHUNK ?flows)" "i \<in> set chunk"
    using chunks_cover [of SYNC_CHUNK ?flows] by (auto simp: SYNC_CHUNK_def)
  ultimately show ?thesis unfolding sync_requests_def by force
qed

lemma honest_reply:
  assumes "honest_pulls now shards pulls" and "pulls n asked = Some reply"
  obtains past where "past \<le> now" and "reply = serve_sync past asked (shards n)"
  using assms unfolding honest_pulls_def by blast

lemma requests_roomy:
  assumes "roomy F sh" and "honest_pulls now shards pulls" and "\<forall>(n, chunk) \<in> set reqs. set chunk \<subseteq> F"
  shows "roomy F (fold (\<lambda>(n, chunk) sh. case pulls n chunk of None \<Rightarrow> sh | Some reply \<Rightarrow> merge_flows now reply sh) reqs sh)"
  using assms(1,3)
proof (induction reqs arbitrary: sh)
  case (Cons q reqs)
  obtain n chunk where q: "q = (n, chunk)" by (cases q)
  have "roomy F (merge_flows now reply sh)" if "pulls n chunk = Some reply" for reply
    by (rule honest_reply [OF assms(2) that]) (use Cons.prems in \<open>simp add: q flows_roomy\<close>)
  then show ?case using Cons by (auto simp: q split: option.split)
qed simp

lemma requests_kept:
  assumes "kept F now i k c sh" and "honest_pulls now shards pulls" and "\<forall>(n, chunk) \<in> set reqs. set chunk \<subseteq> F"
    and "\<And>n. roomy (G n) (shards n)"
    and "\<forall>(n, chunk) \<in> set reqs. i \<in> set chunk \<longrightarrow> (\<forall>x. shard_view (shards n) (i, k) = Some x \<longrightarrow> is_live x now)"
  shows "kept F now i k c (fold (\<lambda>(n, chunk) sh. case pulls n chunk of None \<Rightarrow> sh | Some reply \<Rightarrow> merge_flows now reply sh) reqs sh)"
  using assms(1,3,5)
proof (induction reqs arbitrary: sh)
  case (Cons q reqs)
  obtain n chunk where q: "q = (n, chunk)" by (cases q)
  have "kept F now i k c (merge_flows now reply sh)" if reply: "pulls n chunk = Some reply" for reply
  proof -
    obtain past where past: "past \<le> now" "reply = serve_sync past chunk (shards n)" by (rule honest_reply [OF assms(2) reply])
    have "lively now i k reply"
    proof (cases "i \<in> set chunk")
      case True
      then show ?thesis unfolding past(2) using Cons.prems(3) q by (intro sync_lively [OF assms(4)]) auto
    next
      case False
      then show ?thesis by (auto simp: lively_def past(2) serve_sync_def)
    qed
    then show ?thesis using Cons.prems by (intro flows_kept) (auto simp: past(2) q)
  qed
  then show ?case using Cons by (auto simp: q split: option.split)
qed simp

lemma requests_elsewhere:
  assumes "roomy F sh" and "honest_pulls now shards pulls" and "\<forall>(n, chunk) \<in> set reqs. set chunk \<subseteq> F \<and> fst x \<notin> set chunk"
  shows "shard_view (fold (\<lambda>(n, chunk) sh. case pulls n chunk of None \<Rightarrow> sh | Some reply \<Rightarrow> merge_flows now reply sh) reqs sh) x =
    shard_view sh x"
  using assms(1,3)
proof (induction reqs arbitrary: sh)
  case (Cons q reqs)
  obtain n chunk where q: "q = (n, chunk)" by (cases q)
  have "roomy F (merge_flows now reply sh) \<and> shard_view (merge_flows now reply sh) x = shard_view sh x"
    if "pulls n chunk = Some reply" for reply
    by (rule honest_reply [OF assms(2) that]) (use Cons.prems in \<open>auto simp: q flows_roomy flows_elsewhere\<close>)
  then show ?case using Cons by (auto simp: q split: option.split)
qed simp

text \<open>C16. Anti-entropy catches up: one pass in which the owner of a flow answers leaves a node that holds a
  copy of the flow with entries at least as new as the owner's, whatever the other owners answer or
  not, and leaves the flows the node owns itself as they were.\<close>

theorem anti_entropy_catches_up:
  assumes view: "flow_view (fn_handle node) = Inr (me, r)"
    and room: "roomy (set (flow_ids (fn_shard node))) (fn_shard node)"
    and peers: "\<And>n. roomy (G n) (shards n)"
    and honest: "honest_pulls now shards pulls"
    and owner: "owner xxh64 r (flow_key i) = Some o'" "o' \<noteq> me"
    and held: "i \<in> set (flow_ids (fn_shard node))"
    and answers: "\<And>asked. i \<in> set asked \<Longrightarrow> pulls o' asked \<noteq> None"
    and entry: "get_versioned now (shards o') i k = Some e"
  shows "at_least e (get_versioned now (fn_shard (anti_entropy_tick xxh64 now pulls node)) i k) \<and>
    (\<forall>x. owner xxh64 r (flow_key (fst x)) = Some me \<longrightarrow>
       shard_view (fn_shard (anti_entropy_tick xxh64 now pulls node)) x = shard_view (fn_shard node) x)"
proof
  let ?sh = "fn_shard node" and ?reqs = "sync_requests xxh64 me r (fn_shard node)"
  let ?step = "\<lambda>(n, chunk) sh. case pulls n chunk of None \<Rightarrow> sh | Some reply \<Rightarrow> merge_flows now reply sh"
  have within: "\<forall>(n, chunk) \<in> set ?reqs. set chunk \<subseteq> set (flow_ids ?sh)" by (auto dest: request_flows)
  have e: "shard_view (shards o') (i, k) = Some e" "is_live e now"
    using entry by (auto simp: get_versioned_view live_view_def split: option.splits if_splits)
  have live: "\<forall>(n, chunk) \<in> set ?reqs. i \<in> set chunk \<longrightarrow> (\<forall>x. shard_view (shards n) (i, k) = Some x \<longrightarrow> is_live x now)"
    using owner(1) e by (auto dest!: request_flows)
  obtain chunk where chunk: "(o', chunk) \<in> set ?reqs" "i \<in> set chunk" using request_for [OF held owner] by blast
  then obtain as bs where reqs: "?reqs = as @ (o', chunk) # bs" by (meson split_list)
  obtain reply where reply: "pulls o' chunk = Some reply" using answers [OF chunk(2)] by blast
  then obtain past where past: "past \<le> now" "reply = serve_sync past chunk (shards o')" by (rule honest_reply [OF honest])
  have "roomy (set (flow_ids ?sh)) (fold ?step as ?sh)" using room honest within by (intro requests_roomy) (auto simp: reqs)
  then have "kept (set (flow_ids ?sh)) now i k e (merge_flows now reply (fold ?step as ?sh))"
  proof (rule flows_newest)
    show "lively now i k reply" unfolding past(2) using e by (intro sync_lively [OF peers]) auto
    show "fst ` set reply \<subseteq> set (flow_ids ?sh)" using within chunk by (auto simp: past(2))
    show "(i, shard_flow past (shards o') i) \<in> set reply" using chunk(2) by (auto simp: past(2) serve_sync_def)
    show "(k, e) \<in> set (shard_flow past (shards o') i)"
      using e past(1) by (simp add: shard_flow_rows [OF peers] is_live_earlier)
  qed
  then have "kept (set (flow_ids ?sh)) now i k e (fold ?step bs (merge_flows now reply (fold ?step as ?sh)))"
    using within live by (intro requests_kept [OF _ honest _ peers]) (auto simp: reqs)
  then show "at_least e (get_versioned now (fn_shard (anti_entropy_tick xxh64 now pulls node)) i k)"
    by (simp add: tick_requests [OF view] reqs reply kept_def)
  show "\<forall>x. owner xxh64 r (flow_key (fst x)) = Some me \<longrightarrow>
      shard_view (fn_shard (anti_entropy_tick xxh64 now pulls node)) x = shard_view ?sh x"
    unfolding tick_requests [OF view]
    by (intro allI impI requests_elsewhere [OF room honest]) (auto dest: request_flows)
qed

lemma flow_rows_live: "(k, e) \<in> set (shard_flow now sh i) \<Longrightarrow> is_live e now"
  by (auto simp: shard_flow_def split: option.splits)

lemma sync_now_lively: "lively now i k (serve_sync now asked sh)"
  by (auto simp: lively_def serve_sync_def dest: flow_rows_live)

lemma fold_flows_kept:
  assumes "kept F now i k c sh" and "\<forall>reply \<in> set answers. lively now i k reply \<and> fst ` set reply \<subseteq> F"
  shows "kept F now i k c (fold (merge_flows now) answers sh)"
  using assms by (induction answers arbitrary: sh) (auto simp: flows_kept)

lemma fold_flows_roomy:
  assumes "roomy F sh" and "\<forall>reply \<in> set answers. fst ` set reply \<subseteq> F"
  shows "roomy F (fold (merge_flows now) answers sh)"
  using assms by (induction answers arbitrary: sh) (auto simp: flows_roomy)

lemma adopted_shard:
  assumes "tget (fn_adopted node) i \<noteq> Some (rg_m_idx r)"
  shows "fn_shard (ensure_adopted xxh64 env me r i node) =
    fold (merge_flows (fe_now env)) (List.map_filter (fe_pulls env) (holders xxh64 me r i)) (fn_shard node)"
  using assms by (simp add: ensure_adopted_def Let_def)

lemma honest_answers:
  assumes "honest_holders env i shards" and "i \<in> F" and "reply \<in> set (List.map_filter (fe_pulls env) ps)"
  shows "lively (fe_now env) i k reply \<and> fst ` set reply \<subseteq> F"
proof -
  obtain n where "fe_pulls env n = Some reply" using assms(3) by (auto simp: map_filter_def)
  with assms(1) have "reply = serve_sync (fe_now env) [i] (shards n)" by (simp add: honest_holders_def)
  with assms(2) show ?thesis by (simp add: sync_now_lively)
qed

lemma adopted_twice:
  assumes "p \<in> set (holders xxh64 me r i)" and "fe_pulls env p \<noteq> None"
  shows "ensure_adopted xxh64 env' me r i (ensure_adopted xxh64 env me r i node) = ensure_adopted xxh64 env me r i node"
proof -
  have "List.map_filter (fe_pulls env) (holders xxh64 me r i) \<noteq> []" "holders xxh64 me r i \<noteq> []"
    using assms by (auto simp: map_filter_def filter_empty_conv)
  then have "tget (fn_adopted (ensure_adopted xxh64 env me r i node)) i = Some (rg_m_idx r)"
    by (simp add: ensure_adopted_def Let_def)
  then show ?thesis by (subst ensure_adopted_def) simp
qed

text \<open>C17. A takeover takes the newest copy: when a member first touches a flow under a membership, every entry
  it then holds is at least as new as each answering holder's and as its own before, and the flow is
  not pulled again under that membership.\<close>

theorem adoption_takes_newest:
  assumes new: "tget (fn_adopted node) i \<noteq> Some (rg_m_idx r)"
    and room: "roomy F (fn_shard node)" "i \<in> F"
    and honest: "honest_holders env i shards"
    and holder: "p \<in> set (holders xxh64 me r i)" "fe_pulls env p \<noteq> None" "roomy G (shards p)"
    and entry: "get_versioned (fe_now env) (shards p) i k = Some e"
  shows "at_least e (get_versioned (fe_now env) (fn_shard (ensure_adopted xxh64 env me r i node)) i k) \<and>
    (\<forall>c. get_versioned (fe_now env) (fn_shard node) i k = Some c \<longrightarrow>
       at_least c (get_versioned (fe_now env) (fn_shard (ensure_adopted xxh64 env me r i node)) i k)) \<and>
    ensure_adopted xxh64 env' me r i (ensure_adopted xxh64 env me r i node) = ensure_adopted xxh64 env me r i node"
proof (intro conjI allI impI)
  let ?now = "fe_now env" and ?answers = "List.map_filter (fe_pulls env) (holders xxh64 me r i)"
  let ?mine = "serve_sync (fe_now env) [i] (shards p)"
  have all: "\<forall>reply \<in> set ?answers. lively ?now i k reply \<and> fst ` set reply \<subseteq> F"
    using honest_answers [OF honest room(2)] by blast
  have "?mine \<in> set ?answers" using holder(1,2) honest by (force simp: map_filter_def honest_holders_def)
  then obtain as bs where answers: "?answers = as @ ?mine # bs" by (meson split_list)
  have e: "shard_view (shards p) (i, k) = Some e" "is_live e ?now"
    using entry by (auto simp: get_versioned_view live_view_def split: option.splits if_splits)
  have "roomy F (fold (merge_flows ?now) as (fn_shard node))" using room all by (intro fold_flows_roomy) (auto simp: answers)
  then have "kept F ?now i k e (merge_flows ?now ?mine (fold (merge_flows ?now) as (fn_shard node)))"
    using room(2) e by (intro flows_newest [OF _ sync_now_lively]) (auto simp: serve_sync_def shard_flow_rows [OF holder(3)])
  then have "kept F ?now i k e (fold (merge_flows ?now) ?answers (fn_shard node))"
    using all by (simp add: answers fold_flows_kept)
  then show "at_least e (get_versioned ?now (fn_shard (ensure_adopted xxh64 env me r i node)) i k)"
    by (simp add: adopted_shard [OF new] kept_def)
  show "at_least c (get_versioned ?now (fn_shard (ensure_adopted xxh64 env me r i node)) i k)"
    if "get_versioned ?now (fn_shard node) i k = Some c" for c
    using fold_flows_kept [OF _ all, of c "fn_shard node"] room(1) that by (simp add: adopted_shard [OF new] kept_def at_least_refl)
  show "ensure_adopted xxh64 env' me r i (ensure_adopted xxh64 env me r i node) = ensure_adopted xxh64 env me r i node"
    by (rule adopted_twice [OF holder(1,2)])
qed

lemma owner_write_accepts:
  assumes "flow_view (fn_handle node) = Inr (me, r)" and "fw_m_idx req = rg_m_idx r"
    and "owner xxh64 r (flow_key (fw_flow_id req)) = Some me" and "\<not> fn_isolated node" and "\<not> fe_isolated_late env"
  shows "owner_write xxh64 env req node =
    (let node1 = ensure_adopted xxh64 env me r (fw_flow_id req) node;
         (answer, sh) = apply_write xxh64 env me r req (fw_op req) (fn_shard node1)
     in (answer, node1\<lparr>fn_shard := sh\<rparr>))"
  using assms by (simp add: owner_write_def Let_def)

lemma refused_whole:
  assumes "\<not> (\<exists>me r. flow_view (fn_handle node) = Inr (me, r) \<and> fw_m_idx req = rg_m_idx r \<and>
      owner xxh64 r (flow_key (fw_flow_id req)) = Some me \<and> \<not> fn_isolated node \<and> \<not> fe_isolated_late env)"
  shows "\<exists>reply node' reason. owner_write xxh64 env req node = ((reply, []), node') \<and>
    applied reply = Inl (BackendUnavailable reason) \<and>
    (node' = node \<or> fe_isolated_late env \<and> (\<exists>me r. node' = ensure_adopted xxh64 env me r (fw_flow_id req) node))"
proof (cases "flow_view (fn_handle node)")
  case (Inl reason)
  then have "is_not_ready reason" by (cases "fn_handle node") (auto simp: is_not_ready_def split: if_splits)
  with Inl show ?thesis by (simp add: owner_write_def)
next
  case (Inr view)
  obtain me r where view: "view = (me, r)" by (cases view)
  show ?thesis
  proof (cases "owner xxh64 r (flow_key (fw_flow_id req))")
    case None
    then show ?thesis using Inr by (simp add: view owner_write_def is_not_ready_def)
  next
    case (Some o')
    then show ?thesis using Inr assms by (auto simp: view owner_write_def Let_def)
  qed
qed

text \<open>C19. A write its owner cannot take is refused whole: unless the node is ready, is the owner under the
  very membership the request was minted for and can see a quorum, before and after it holds the
  lock, nothing is pushed, the shard changes by an adoption at most, and the caller is told that the
  backend is unavailable.\<close>

theorem refused_write_changes_nothing:
  assumes "\<not> (\<exists>me r. flow_view (fn_handle node) = Inr (me, r) \<and> fw_m_idx req = rg_m_idx r \<and>
      owner xxh64 r (flow_key (fw_flow_id req)) = Some me \<and> \<not> fn_isolated node \<and> \<not> fe_isolated_late env)"
  shows "\<exists>reply node' reason. owner_write xxh64 env req node = ((reply, []), node') \<and>
    applied reply = Inl (BackendUnavailable reason) \<and>
    (node' = node \<or> fe_isolated_late env \<and> (\<exists>me r. node' = ensure_adopted xxh64 env me r (fw_flow_id req) node))"
  using assms by (rule refused_whole)

text \<open>What a delete pushes: a tombstone that lives for the tombstone's time.\<close>

lemma delete_pushes:
  assumes "fst (owner_write xxh64 env req node) = (reply, pushed)" and "fw_op req = FlowDelete" and "(p, push) \<in> set pushed"
  obtains tomb where "rr_flow_id push = fw_flow_id req" and "rr_op push = ReplicaPut (fw_key req) tomb"
    and "vs_deleted tomb" and "vs_expires_at tomb = sat_add (fe_now env) TOMBSTONE_TTL_MILLIS"
proof (cases "\<exists>me r. flow_view (fn_handle node) = Inr (me, r) \<and> fw_m_idx req = rg_m_idx r \<and>
      owner xxh64 r (flow_key (fw_flow_id req)) = Some me \<and> \<not> fn_isolated node \<and> \<not> fe_isolated_late env")
  case True
  then obtain me r where "owner_write xxh64 env req node =
    (let node1 = ensure_adopted xxh64 env me r (fw_flow_id req) node;
         (answer, sh) = apply_write xxh64 env me r req (fw_op req) (fn_shard node1)
     in (answer, node1\<lparr>fn_shard := sh\<rparr>))" using owner_write_accepts by blast
  with assms that show ?thesis
    by (auto simp: Let_def commit_entry_def replicate_push_def mint_tombstone_def mint_def expiry_from_def split: prod.splits option.splits)
next
  case False
  then show ?thesis using assms refused_whole [OF False] by auto
qed

lemma delayed_put_step:
  assumes "roomy F sh" and "shard_view sh (i, k) = Some tomb" and "is_live tomb t"
    and "rr_flow_id q \<in> F" and "delayed_put i k tomb q"
  shows "roomy F (apply_replica t q sh) \<and> shard_view (apply_replica t q sh) (i, k) = Some tomb"
proof (cases "rr_op q")
  case (ReplicaPut key e)
  note m = merge_in_room [OF assms(1,4), of t key e "rr_durability q"]
  have "merge_refused t i k e sh" if "rr_flow_id q = i" "key = k"
    using assms that ReplicaPut by (simp add: merge_refused_def get_versioned_view live_view_def delayed_put_def)
  then show ?thesis using m assms(2) ReplicaPut by auto
qed (use assms(5) in \<open>simp_all add: delayed_put_def\<close>)

lemma delayed_puts:
  assumes "roomy F sh" and "shard_view sh (i, k) = Some tomb"
    and "list_all (\<lambda>(t, q). is_live tomb t \<and> rr_flow_id q \<in> F \<and> delayed_put i k tomb q) late"
  shows "shard_view (fold (\<lambda>(t, q). apply_replica t q) late sh) (i, k) = Some tomb"
  using assms
proof (induction late arbitrary: sh)
  case (Cons tq late)
  obtain t q where tq: "tq = (t, q)" by (cases tq)
  have "roomy F (apply_replica t q sh) \<and> shard_view (apply_replica t q sh) (i, k) = Some tomb"
    by (rule delayed_put_step) (use Cons.prems in \<open>auto simp: tq\<close>)
  then show ?case using Cons by (simp add: tq del: apply_replica.simps)
qed simp


section \<open>A sample fleet\<close>

lemma sample_rooms: "roomy {''f''} empty_shard" "roomy {''f''} (sample_copy e)"
proof -
  show room: "roomy {''f''} empty_shard" by (simp add: roomy_def empty_shard_def)
  show "roomy {''f''} (sample_copy e)" unfolding sample_copy_def by (rule set_in_room(2) [OF room]) simp
qed

lemma sample_flows: "flow_ids (sample_copy (sample_entry_at 1 0)) = [''f'']"
  by code_simp

lemma sample_owner: "owner flat_hash sample_ring (flow_key i) = Some 3"
  by (simp add: owner_def sample_ring_def ring_new_def node_rank_def score_def flat_hash_def)

theorem anti_entropy_catches_up_witness:
  "at_least (sample_entry_at 2 0)
     (get_versioned 10 (fn_shard (anti_entropy_tick flat_hash 10
        (\<lambda>n asked. if n = 3 then Some (serve_sync 9 asked (sample_copy (sample_entry_at 2 0))) else None)
        ((sample_node 2)\<lparr>fn_shard := sample_copy (sample_entry_at 1 0)\<rparr>))) ''f'' ''k'')"
proof -
  have "honest_pulls 10 (\<lambda>_. sample_copy (sample_entry_at 2 0))
      (\<lambda>n asked. if n = 3 then Some (serve_sync 9 asked (sample_copy (sample_entry_at 2 0))) else None)"
    by (auto simp: honest_pulls_def intro!: exI [of _ 9])
  moreover have "flow_view (fn_handle ((sample_node 2)\<lparr>fn_shard := sample_copy (sample_entry_at 1 0)\<rparr>)) = Inr (2, sample_ring)"
    by code_simp
  moreover have "get_versioned 10 (sample_copy (sample_entry_at 2 0)) ''f'' ''k'' = Some (sample_entry_at 2 0)" by code_simp
  ultimately show ?thesis
    using anti_entropy_catches_up [where node = "(sample_node 2)\<lparr>fn_shard := sample_copy (sample_entry_at 1 0)\<rparr>" and me = 2
        and r = sample_ring and G = "\<lambda>_. {''f''}" and shards = "\<lambda>_. sample_copy (sample_entry_at 2 0)" and o' = 3 and i = "''f''"
        and k = "''k''" and e = "sample_entry_at 2 0" and now = 10 and ?xxh64.0 = flat_hash
        and pulls = "\<lambda>n asked. if n = 3 then Some (serve_sync 9 asked (sample_copy (sample_entry_at 2 0))) else None"]
    by (simp add: sample_rooms sample_flows sample_owner)
qed

theorem adoption_takes_newest_witness:
  "at_least (sample_entry_at 2 0)
     (get_versioned 10 (fn_shard (ensure_adopted flat_hash takeover_env 3 sample_ring ''f'' (sample_node 3))) ''f'' ''k'')"
proof -
  have "tget (fn_adopted (sample_node 3)) ''f'' = None"
    "holders flat_hash 3 sample_ring ''f'' = [2, 1]" "fe_now takeover_env = 10"
    "get_versioned 10 (sample_copy (sample_entry_at 2 0)) ''f'' ''k'' = Some (sample_entry_at 2 0)" by code_simp+
  moreover have "honest_holders takeover_env ''f'' (\<lambda>_. sample_copy (sample_entry_at 2 0))"
    by (auto simp: honest_holders_def takeover_env_def sample_env_def split: if_splits)
  moreover have "fe_pulls takeover_env 2 \<noteq> None" by (simp add: takeover_env_def)
  ultimately show ?thesis
    using adoption_takes_newest [where node = "sample_node 3" and i = "''f''" and k = "''k''" and r = sample_ring and F = "{''f''}" and G = "{''f''}"
        and env = takeover_env and shards = "\<lambda>_. sample_copy (sample_entry_at 2 0)" and p = 2 and me = 3 and e = "sample_entry_at 2 0"
        and ?xxh64.0 = flat_hash] by (simp add: sample_rooms sample_node_def)
qed

theorem refused_write_changes_nothing_witness:
  "\<exists>reply node' reason. owner_write flat_hash (sample_env 10) (sample_req FlowDelete) (sample_node 2) = ((reply, []), node') \<and>
     applied reply = Inl (BackendUnavailable reason) \<and>
     (node' = sample_node 2 \<or> fe_isolated_late (sample_env 10) \<and>
        (\<exists>me r. node' = ensure_adopted flat_hash (sample_env 10) me r (fw_flow_id (sample_req FlowDelete)) (sample_node 2)))"
  by (rule refused_write_changes_nothing) (auto simp: sample_node_def sample_owner split: if_splits)


end
