(* ===== verification/FlowFleet.thy ===== *)
theory FlowFleet
  imports FlowStore
begin

text \<open>
  What the clustered flow store promises its callers: under one membership, whichever member a call
  reaches and whatever becomes of the pushes, the repairs and the sweeps, the fleet answers as one
  store does. The specification is a map from flow and key to a value and its expiry.
\<close>

section \<open>One store\<close>

type_synonym store_spec = "string \<times> string \<Rightarrow> (json \<times> u64) option"

definition alive :: "u64 \<Rightarrow> u64 \<Rightarrow> bool" where
  "alive now expiry \<longleftrightarrow> expiry = 0 \<or> now < expiry"

definition prune :: "u64 \<Rightarrow> store_spec \<Rightarrow> store_spec" where
  "prune now A x = (case A x of None \<Rightarrow> None | Some (v, expiry) \<Rightarrow> if alive now expiry then Some (v, expiry) else None)"

definition spec_count :: "(json \<times> u64) option \<Rightarrow> int" where
  "spec_count cur = (case cur of None \<Rightarrow> 0 | Some (v, _) \<Rightarrow> (case as_i64 v of None \<Rightarrow> 0 | Some n \<Rightarrow> n))"

fun spec_write :: "u64 \<Rightarrow> int option \<Rightarrow> string \<Rightarrow> string \<Rightarrow> write_op \<Rightarrow> store_spec \<Rightarrow> write_reply \<times> store_spec" where
  "spec_write now ttl i k (FlowSet v) A =
     (FlowApplied None None None, A((i, k) \<mapsto> (v, expiry_from now (map_option secs_millis ttl))))"
| "spec_write now ttl i k FlowDelete A = (FlowApplied None None None, A((i, k) := None))"
| "spec_write now ttl i k (FlowIncr by) A =
     (case checked_add (spec_count (A (i, k))) by of
        None \<Rightarrow> (FlowError (''increment_by overflow: '' @ show_int (spec_count (A (i, k))) @ '' + '' @ show_int by @ '' exceeds i64 range''), A)
      | Some n \<Rightarrow> (FlowApplied None (Some n) None, A((i, k) \<mapsto> (JInt n, expiry_from now (map_option secs_millis ttl)))))"
| "spec_write now ttl i k (FlowCas expected new) A =
     (if map_option fst (A (i, k)) = expected
      then (FlowApplied None None None, A((i, k) \<mapsto> (new, expiry_from now (map_option secs_millis ttl))))
      else (FlowCasConflict (map_option fst (A (i, k))), A))"
| "spec_write now ttl i k (FlowSetTtl ttl_seconds) A =
     (FlowApplied None None None,
      (\<lambda>x. if fst x \<noteq> i then A x
           else if ttl_seconds \<le> 0 then None
           else map_option (\<lambda>(v, _). (v, expiry_from now (Some (secs_millis ttl_seconds)))) (A x)))"
| "spec_write now ttl i k (FlowSetKeyTtl ttl_seconds) A =
     (FlowApplied None None (Some (A (i, k) \<noteq> None)),
      A((i, k) := if ttl_seconds \<le> 0 then None
                  else map_option (\<lambda>(v, _). (v, expiry_from now (Some (secs_millis ttl_seconds)))) (A (i, k))))"
| "spec_write now ttl i k FlowClear A = (FlowApplied None None None, (\<lambda>x. if fst x = i then None else A x))"

text \<open>What a shard says to its clients: the live entries that are not tombstones.\<close>

definition client_view :: "u64 \<Rightarrow> view \<Rightarrow> store_spec" where
  "client_view now v x =
     (case v x of
        None \<Rightarrow> None
      | Some e \<Rightarrow> if is_live e now \<and> \<not> vs_deleted e then Some (vs_value e, vs_expires_at e) else None)"

text \<open>A reply without the version it carries, which no face of the store looks at.\<close>

fun unversioned :: "write_reply \<Rightarrow> write_reply" where
  "unversioned (FlowApplied _ n b) = FlowApplied None n b"
| "unversioned reply = reply"

text \<open>Two shards that agree on every flow but one.\<close>

definition only_flow :: "string \<Rightarrow> shard \<Rightarrow> shard \<Rightarrow> bool" where
  "only_flow i sh sh' \<longleftrightarrow> (\<forall>j. j \<noteq> i \<longrightarrow> tget (sh_memory sh') j = tget (sh_memory sh) j)"

section \<open>Runs, the invariant and samples\<close>

text \<open>One write at the owner, against the store.\<close>

definition implements ::
  "string set \<Rightarrow> (u8 list \<Rightarrow> u64 \<Rightarrow> u64) \<Rightarrow> flow_env \<Rightarrow> node_id \<Rightarrow> ring \<Rightarrow> string \<Rightarrow> shard \<Rightarrow> write_reply \<times> store_spec \<Rightarrow>
   (write_reply \<times> pushes) \<times> shard \<Rightarrow> bool" where
  "implements F xxh64 env me r i sh spec result \<longleftrightarrow>
     roomy F (snd result) \<and> only_flow i sh (snd result) \<and>
     unversioned (fst (fst result)) = fst spec \<and>
     client_view (fe_now env) (shard_view (snd result)) = prune (fe_now env) (snd spec) \<and>
     (\<forall>(p, q) \<in> set (snd (fst result)). p \<in> set (holders xxh64 me r i) \<and> rr_flow_id q = i)"

definition renewed :: "node_id \<Rightarrow> ring \<Rightarrow> u64 \<Rightarrow> versioned \<Rightarrow> versioned" where
  "renewed me r expiry prev =
     \<lparr>vs_m_idx = rg_m_idx r, vs_v = vs_v prev + 1, vs_origin = me, vs_expires_at = expiry, vs_value = vs_value prev,
      vs_deleted = vs_deleted prev\<rparr>"

datatype flow_event =
    CallWrite flow_path node_id store_face string string write_op
  | CallRead flow_path node_id store_face string string
  | DeliverPush u64 node_id replicate_req
  | RepairTick u64 "node_id \<Rightarrow> string list \<Rightarrow> sync_reply option" node_id
  | SweepTick u64 node_id

datatype flow_answer =
    WriteAnswer "store_failure + write_reply"
  | ReadAnswer "store_failure + json option"

type_synonym flow_state = "pushes \<times> flow_fleet"

text \<open>The pushes sent so far stay in the pool, so that one may be lost, late or delivered again; one that
  was never sent is not delivered.\<close>

definition on_shard :: "(shard \<Rightarrow> shard) \<Rightarrow> node_id \<Rightarrow> flow_fleet \<Rightarrow> flow_fleet" where
  "on_shard f n fleet = fleet(n := (fleet n)\<lparr>fn_shard := f (fn_shard (fleet n))\<rparr>)"

fun fleet_exec :: "(u8 list \<Rightarrow> u64 \<Rightarrow> u64) \<Rightarrow> flow_event \<Rightarrow> flow_state \<Rightarrow> flow_answer option \<times> flow_state" where
  "fleet_exec xxh64 (CallWrite path me face flow_id key wop) (pool, fleet) =
     (let ((result, pushed), fleet') = face_write xxh64 path me face flow_id key wop fleet
      in (Some (WriteAnswer (map_sum (\<lambda>e. e) unversioned (face_applied result))), (pool @ pushed, fleet')))"
| "fleet_exec xxh64 (CallRead path me face flow_id key) (pool, fleet) =
     (let (result, fleet') = face_get xxh64 path me face flow_id key fleet in (Some (ReadAnswer result), (pool, fleet')))"
| "fleet_exec xxh64 (DeliverPush now n q) (pool, fleet) =
     (None, (pool, if (n, q) \<in> set pool then on_shard (apply_replica now q) n fleet else fleet))"
| "fleet_exec xxh64 (RepairTick now pulls n) (pool, fleet) =
     (None, (pool, fleet(n := anti_entropy_tick xxh64 now pulls (fleet n))))"
| "fleet_exec xxh64 (SweepTick now n) (pool, fleet) =
     (None, (pool, on_shard (\<lambda>sh. sh\<lparr>sh_memory := fst (sweep_expired now (sh_memory sh))\<rparr>) n fleet))"

fun event_time :: "flow_event \<Rightarrow> u64" where
  "event_time (CallWrite path _ _ _ _ _) = fe_now (fp_env path)"
| "event_time (CallRead path _ _ _ _) = fe_now (fp_env path)"
| "event_time (DeliverPush now _ _) = now"
| "event_time (RepairTick now _ _) = now"
| "event_time (SweepTick now _) = now"

fun spec_exec :: "flow_event \<Rightarrow> store_spec \<Rightarrow> flow_answer option \<times> store_spec" where
  "spec_exec (CallWrite path me face flow_id key wop) A =
     (let (reply, A') = spec_write (fe_now (fp_env path)) (fc_ttl_seconds (sf_config face)) (face_scoped face flow_id) key wop
                          (prune (fe_now (fp_env path)) A)
      in (Some (WriteAnswer (applied reply)), A'))"
| "spec_exec (CallRead path me face flow_id key) A =
     (Some (ReadAnswer (Inr (map_option fst (prune (fe_now (fp_env path)) A (face_scoped face flow_id, key))))), A)"
| "spec_exec _ A = (None, A)"

text \<open>The way of a call that the fleet answers: it is bridged and reaches the owner once, the disk takes
  the write, a holder that answers an adoption answers with its own copy, and one does answer when
  the owner has the flow to adopt.\<close>

definition sound_path :: "(u8 list \<Rightarrow> u64 \<Rightarrow> u64) \<Rightarrow> ring \<Rightarrow> flow_fleet \<Rightarrow> string \<Rightarrow> node_id \<Rightarrow> flow_path \<Rightarrow> bool" where
  "sound_path xxh64 r fleet i me path \<longleftrightarrow>
     me \<in> set (rg_members r) \<and> fp_bridge path = Bridged \<and> fp_hop path = Reached 0 \<and> fp_seen path = fn_handle (fleet me) \<and>
     fe_disk (fp_env path) = (\<lambda>_. None) \<and> \<not> fe_isolated_late (fp_env path) \<and>
     honest_holders (fp_env path) i (\<lambda>n. fn_shard (fleet n)) \<and>
     (\<forall>o'. owner xxh64 r (flow_key i) = Some o' \<longrightarrow>
        tget (fn_adopted (fleet o')) i = Some (rg_m_idx r) \<or> holders xxh64 o' r i = [] \<or> (\<exists>p \<in> set (holders xxh64 o' r i). fe_pulls (fp_env path) p \<noteq> None))"

fun sound_event :: "(u8 list \<Rightarrow> u64 \<Rightarrow> u64) \<Rightarrow> ring \<Rightarrow> string set \<Rightarrow> flow_fleet \<Rightarrow> flow_event \<Rightarrow> bool" where
  "sound_event xxh64 r F fleet (CallWrite path me face flow_id key wop) \<longleftrightarrow>
     face_scoped face flow_id \<in> F \<and> sound_path xxh64 r fleet (face_scoped face flow_id) me path"
| "sound_event xxh64 r F fleet (CallRead path me face flow_id key) \<longleftrightarrow>
     face_scoped face flow_id \<in> F \<and> sound_path xxh64 r fleet (face_scoped face flow_id) me path \<and>
     fc_read_consistency (sf_config face) = ReadStrong"
| "sound_event xxh64 r F fleet (DeliverPush now n q) \<longleftrightarrow> True"
| "sound_event xxh64 r F fleet (RepairTick now pulls n) \<longleftrightarrow>
     n \<in> set (rg_members r) \<and> honest_pulls now (\<lambda>n. fn_shard (fleet n)) pulls"
| "sound_event xxh64 r F fleet (SweepTick now n) \<longleftrightarrow> n \<in> set (rg_members r)"

text \<open>A run whose clock does not go back, each event sound in the state it meets.\<close>

fun sound_run :: "(u8 list \<Rightarrow> u64 \<Rightarrow> u64) \<Rightarrow> ring \<Rightarrow> string set \<Rightarrow> u64 \<Rightarrow> flow_event list \<Rightarrow> flow_state \<Rightarrow> bool" where
  "sound_run xxh64 r F now [] s = True"
| "sound_run xxh64 r F now (ev # evs) s \<longleftrightarrow>
     now \<le> event_time ev \<and> sound_event xxh64 r F (snd s) ev \<and> sound_run xxh64 r F (event_time ev) evs (snd (fleet_exec xxh64 ev s))"

fun fleet_answers :: "(u8 list \<Rightarrow> u64 \<Rightarrow> u64) \<Rightarrow> flow_event list \<Rightarrow> flow_state \<Rightarrow> flow_answer option list" where
  "fleet_answers xxh64 [] s = []"
| "fleet_answers xxh64 (ev # evs) s = (let (a, s') = fleet_exec xxh64 ev s in a # fleet_answers xxh64 evs s')"

fun spec_answers :: "flow_event list \<Rightarrow> store_spec \<Rightarrow> flow_answer option list" where
  "spec_answers [] A = []"
| "spec_answers (ev # evs) A = (let (a, A') = spec_exec ev A in a # spec_answers evs A')"

text \<open>A fleet under one membership, every member ready and with room for the flows.\<close>

definition fleet_ready :: "ring \<Rightarrow> string set \<Rightarrow> flow_fleet \<Rightarrow> bool" where
  "fleet_ready r F fleet \<longleftrightarrow>
     rg_members r \<noteq> [] \<and>
     list_all (\<lambda>n. fn_handle (fleet n) = HandleLive n r \<and> fn_bridge (fleet n) \<and> \<not> fn_isolated (fleet n) \<and> roomy F (fn_shard (fleet n)))
       (rg_members r)"

text \<open>The owner of each flow says what the store says; a flow its owner has not adopted is held by no
  member and in no push; pushes go to members that do not own their flow.\<close>

definition fleet_inv :: "(u8 list \<Rightarrow> u64 \<Rightarrow> u64) \<Rightarrow> ring \<Rightarrow> string set \<Rightarrow> u64 \<Rightarrow> store_spec \<Rightarrow> flow_state \<Rightarrow> bool" where
  "fleet_inv xxh64 r F now A s \<longleftrightarrow>
     fleet_ready r F (snd s) \<and>
     (\<forall>i o'. owner xxh64 r (flow_key i) = Some o' \<longrightarrow>
        (\<forall>k. prune now A (i, k) = client_view now (shard_view (fn_shard (snd s o'))) (i, k)) \<and>
        (tget (fn_adopted (snd s o')) i = Some (rg_m_idx r) \<or>
         (\<forall>n \<in> set (rg_members r). tget (sh_memory (fn_shard (snd s n))) i = None) \<and> (\<forall>(p, q) \<in> set (fst s). rr_flow_id q \<noteq> i))) \<and>
     (\<forall>(p, q) \<in> set (fst s). p \<in> set (rg_members r) \<and> owner xxh64 r (flow_key (rr_flow_id q)) \<noteq> Some p \<and> rr_flow_id q \<in> F)"

text \<open>A fleet of three: an increment put to one member, the push of it to another, a read there.\<close>

definition shared_face :: store_face where
  "shared_face = \<lparr>sf_config = flow_config_default\<lparr>fc_scope := ScopeFleet, fc_ttl_seconds := None\<rparr>, sf_port = None\<rparr>"

definition plain_path :: "u64 \<Rightarrow> (node_id \<Rightarrow> sync_reply option) \<Rightarrow> node_id \<Rightarrow> flow_path" where
  "plain_path now pulls me = \<lparr>fp_env = (sample_env now)\<lparr>fe_pulls := pulls\<rparr>, fp_bridge = Bridged, fp_hop = Reached 0, fp_seen = HandleLive me sample_ring\<rparr>"

definition first_call :: flow_event where
  "first_call = CallWrite (plain_path 10 (\<lambda>_. Some [(''f:f'', [])]) 1) 1 shared_face ''f'' ''k'' (FlowIncr 5)"

definition after_first :: flow_state where
  "after_first = snd (fleet_exec flat_hash first_call ([], sample_node))"

definition sample_events :: "flow_event list" where
  "sample_events = [first_call, DeliverPush 11 2 (snd (hd (fst after_first))), CallRead (plain_path 12 (\<lambda>_. None) 2) 2 shared_face ''f'' ''k'']"

definition after_push :: flow_state where
  "after_push = snd (fleet_exec flat_hash (DeliverPush 11 2 (snd (hd (fst after_first)))) after_first)"

text \<open>A change of a flow's time to live stamps its tombstones with it too. A tombstone that should stand
  for a minute is gone after a second, and a delayed put of the deleted value is taken.\<close>

definition hurried_owner :: flow_node where
  "hurried_owner = snd (owner_write flat_hash (sample_env 20) (sample_req (FlowSetTtl 1))
     (snd (owner_write flat_hash (sample_env 10) (sample_req FlowDelete) (sample_node 3))))"

section \<open>Lemmas: the owner's write implements the store\<close>

lemma only_flow_refl [simp]: "only_flow i sh sh"
  by (simp add: only_flow_def)

lemma only_flow_trans: "only_flow i a b \<Longrightarrow> only_flow i b c \<Longrightarrow> only_flow i a c"
  by (simp add: only_flow_def)

lemma only_flow_view: "only_flow i sh sh' \<Longrightarrow> fst x \<noteq> i \<Longrightarrow> shard_view sh' x = shard_view sh x"
  by (cases x) (simp add: only_flow_def mem_view_def mem_entry_def)

lemma insert_only: "only_flow i sh (insert_entry now i k e sh)"
  by (simp add: only_flow_def insert_entry_def Let_def)

lemma only_submit [simp]: "only_flow i sh (submit m d sh') = only_flow i sh sh'"
  by (simp add: only_flow_def)

lemma set_only: "roomy F sh \<Longrightarrow> i \<in> F \<Longrightarrow> only_flow i sh (shard_set now i k e d sh)"
  using roomy_fits [of F sh i now k e] insert_only [of i sh now k e]
  by (simp add: shard_set_def evict_noop insert_entry_fields)

lemma merge_only: "roomy F sh \<Longrightarrow> i \<in> F \<Longrightarrow> only_flow i sh (merge_entry now i k e d sh)"
  using roomy_fits [of F sh i now k e] insert_only [of i sh now k e]
  by (simp add: merge_entry_def shard_merge_def evict_noop insert_entry_fields)

lemma clear_only: "only_flow i sh (shard_clear_flow i d sh)"
  by (simp add: shard_clear_flow_def only_flow_def)

lemma delete_only: "only_flow i sh (shard_delete now i k d sh)"
  by (simp add: shard_delete_def only_flow_def Let_def split: option.split)

lemma client_view_get: "shard_get now sh i k = None \<longleftrightarrow> client_view now (shard_view sh) (i, k) = None"
  by (auto simp: shard_get_view client_view_def live_view_def split: option.splits)

lemma client_view_value: "map_option vs_value (shard_get now sh i k) = map_option fst (client_view now (shard_view sh) (i, k))"
  by (auto simp: shard_get_view client_view_def live_view_def split: option.splits)

lemma client_view_put:
  "\<not> vs_deleted e \<Longrightarrow> client_view now (v(x \<mapsto> e)) = prune now ((client_view now v)(x \<mapsto> (vs_value e, vs_expires_at e)))"
  by (auto simp: client_view_def prune_def alive_def is_live_def fun_eq_iff split: option.splits)

lemma client_view_bury:
  "vs_deleted e \<Longrightarrow> client_view now (v(x \<mapsto> e)) = prune now ((client_view now v)(x := None))"
  by (auto simp: client_view_def prune_def alive_def is_live_def fun_eq_iff split: option.splits)

lemma client_view_pruned [simp]: "prune now (client_view now v) = client_view now v"
  by (auto simp: client_view_def prune_def alive_def is_live_def fun_eq_iff split: option.splits)

lemma current_value:
  "(case get_versioned now sh i k of None \<Rightarrow> None | Some e \<Rightarrow> if vs_deleted e then None else Some (vs_value e)) =
     map_option fst (client_view now (shard_view sh) (i, k))"
  by (auto simp: get_versioned_view client_view_def live_view_def split: option.splits)

lemma current_count:
  "(case get_versioned now sh i k of
      None \<Rightarrow> 0
    | Some e \<Rightarrow> if vs_deleted e then 0 else case as_i64 (vs_value e) of None \<Rightarrow> 0 | Some n \<Rightarrow> n) =
     spec_count (client_view now (shard_view sh) (i, k))"
  by (auto simp: get_versioned_view client_view_def live_view_def spec_count_def split: option.splits)

lemma push_targets: "\<forall>(p, q) \<in> set (replicate_push xxh64 me r i rop d). p \<in> set (holders xxh64 me r i) \<and> rr_flow_id q = i"
  by (auto simp: replicate_push_def)

lemma commit_implements:
  assumes "roomy F sh" and "fw_flow_id req \<in> F" and "fe_disk env = (\<lambda>_. None)"
    and "fst spec = unversioned reply"
    and "client_view (fe_now env) ((shard_view sh)((fw_flow_id req, fw_key req) \<mapsto> entry)) = prune (fe_now env) (snd spec)"
  shows "implements F xxh64 env me r (fw_flow_id req) sh spec (commit_entry xxh64 env me r req entry reply sh)"
  using set_in_room [OF assms(1,2)] set_only [OF assms(1,2)] assms(3-5) push_targets
  by (simp add: implements_def commit_entry_def Let_def)

lemma clear_implements:
  assumes "roomy F sh" and "fe_disk env = (\<lambda>_. None)"
    and "spec = (FlowApplied None None None, (\<lambda>x. if fst x = fw_flow_id req then None else client_view (fe_now env) (shard_view sh) x))"
  shows "implements F xxh64 env me r (fw_flow_id req) sh spec (commit_clear xxh64 env me r req sh)"
  using clear_in_room [OF assms(1)] clear_only assms(2) push_targets
  by (auto simp: implements_def commit_clear_def Let_def assms(3) client_view_def prune_def alive_def is_live_def fun_eq_iff
      split: option.splits)

lemma rewrite_keys_effect:
  assumes "roomy F sh" and "fw_flow_id req \<in> F" and "fe_disk env = (\<lambda>_. None)" and "distinct (map fst rows)"
  shows "\<exists>pushed sh'. rewrite_keys xxh64 env me r req expiry rows sh = ((None, pushed), sh') \<and> roomy F sh' \<and>
    only_flow (fw_flow_id req) sh sh' \<and>
    (\<forall>k. shard_view sh' (fw_flow_id req, k) =
       (case map_of rows k of None \<Rightarrow> shard_view sh (fw_flow_id req, k) | Some prev \<Rightarrow> Some (renewed me r expiry prev))) \<and>
    (\<forall>(p, q) \<in> set pushed. p \<in> set (holders xxh64 me r (fw_flow_id req)) \<and> rr_flow_id q = fw_flow_id req)"
  using assms(1,4)
proof (induction rows arbitrary: sh)
  case (Cons row rows)
  obtain key prev where row: "row = (key, prev)" by (cases row)
  let ?sh = "shard_set (fe_now env) (fw_flow_id req) key (renewed me r expiry prev) (fw_durability req) sh"
  note set = set_in_room [OF Cons.prems(1) assms(2)]
  have "distinct (map fst rows)" using Cons.prems(2) by simp
  from Cons.IH [OF set(2) this, of "fe_now env" key "renewed me r expiry prev" "fw_durability req"] obtain pushed sh' where
    rest: "rewrite_keys xxh64 env me r req expiry rows ?sh = ((None, pushed), sh')" "roomy F sh'"
    "only_flow (fw_flow_id req) ?sh sh'"
    "\<forall>k. shard_view sh' (fw_flow_id req, k) =
       (case map_of rows k of None \<Rightarrow> shard_view ?sh (fw_flow_id req, k) | Some prev \<Rightarrow> Some (renewed me r expiry prev))"
    "\<forall>(p, q) \<in> set pushed. p \<in> set (holders xxh64 me r (fw_flow_id req)) \<and> rr_flow_id q = fw_flow_id req"
    by blast
  have "map_of rows key = None" using Cons.prems(2) by (simp add: row map_of_eq_None_iff)
  then have view: "shard_view sh' (fw_flow_id req, k) = (case map_of (row # rows) k of
      None \<Rightarrow> shard_view sh (fw_flow_id req, k) | Some prev \<Rightarrow> Some (renewed me r expiry prev))" for k
    using rest(4) by (simp add: row set(1) split: option.split)
  have only: "only_flow (fw_flow_id req) sh sh'" using set_only [OF Cons.prems(1) assms(2)] rest(3) by (rule only_flow_trans)
  have "rewrite_keys xxh64 env me r req expiry (row # rows) sh =
      ((None, replicate_push xxh64 me r (fw_flow_id req) (ReplicaPut key (renewed me r expiry prev)) (fw_durability req) @ pushed), sh')"
    using assms(3) rest(1) by (simp add: row renewed_def Let_def)
  then show ?case using rest(2,5) view only push_targets by fastforce
qed simp

lemma flow_rows_distinct: "roomy F sh \<Longrightarrow> distinct (map fst (shard_flow now sh i))"
  by (auto simp: shard_flow_def roomy_def list_all_iff twf_distinct twf_filter split: option.split dest!: map_of_SomeD)

lemma flow_rows_lookup:
  assumes "roomy F sh"
  shows "map_of (filter (\<lambda>(key, _). case only of None \<Rightarrow> True | Some k \<Rightarrow> k = key) (shard_flow now sh i)) k =
    (if only = None \<or> only = Some k then live_view now (shard_view sh) (i, k) else None)"
proof -
  have "map_of (shard_flow now sh i) k = live_view now (shard_view sh) (i, k)"
  proof (cases "tget (sh_memory sh) i")
    case (Some f)
    then have "twf (fm_keys f)" using assms by (auto simp: roomy_def list_all_iff dest!: map_of_SomeD)
    then show ?thesis
      by (simp add: shard_flow_def Some live_view_def mem_view_def mem_entry_def tget_filter twf_distinct split: option.split)
  qed (simp add: shard_flow_def live_view_def mem_view_def mem_entry_def)
  then show ?thesis
    by (simp add: tget_filter [OF flow_rows_distinct [OF assms]] split: option.split)
qed

lemma rewrite_implements:
  assumes "roomy F sh" and "fw_flow_id req \<in> F" and "fe_disk env = (\<lambda>_. None)" and "fst spec = unversioned reply"
    and "snd spec = (\<lambda>x. if fst x = fw_flow_id req \<and> (only = None \<or> only = Some (snd x))
        then map_option (\<lambda>(v, _). (v, expiry_from (fe_now env) (Some (secs_millis ttl)))) (client_view (fe_now env) (shard_view sh) x)
        else client_view (fe_now env) (shard_view sh) x)"
  shows "implements F xxh64 env me r (fw_flow_id req) sh spec (rewrite_expiries xxh64 env me r req only ttl reply sh)"
proof -
  let ?i = "fw_flow_id req" and ?now = "fe_now env" and ?expiry = "expiry_from (fe_now env) (Some (secs_millis ttl))"
  let ?rows = "filter (\<lambda>(key, _). case only of None \<Rightarrow> True | Some k \<Rightarrow> k = key) (shard_flow ?now sh ?i)"
  have "distinct (map fst ?rows)" using flow_rows_distinct [OF assms(1)] by (rule distinct_map_filter)
  from rewrite_keys_effect [OF assms(1-3) this, of xxh64 me r ?expiry] obtain pushed sh' where
    res: "rewrite_keys xxh64 env me r req ?expiry ?rows sh = ((None, pushed), sh')" "roomy F sh'" "only_flow ?i sh sh'"
    and view: "\<forall>k. shard_view sh' (?i, k) = (case map_of ?rows k of None \<Rightarrow> shard_view sh (?i, k) | Some prev \<Rightarrow> Some (renewed me r ?expiry prev))"
    and targets: "\<forall>(p, q) \<in> set pushed. p \<in> set (holders xxh64 me r ?i) \<and> rr_flow_id q = ?i" by blast
  have "client_view ?now (shard_view sh') x = prune ?now (snd spec) x" for x
  proof (cases "fst x = ?i")
    case True
    then obtain k where x: "x = (?i, k)" by (cases x) auto
    show ?thesis
      by (auto simp: x assms(5) client_view_def prune_def alive_def is_live_def renewed_def view flow_rows_lookup [OF assms(1)] live_view_def
          split: option.splits)
  next
    case False
    then have "client_view ?now (shard_view sh') x = client_view ?now (shard_view sh) x"
      using only_flow_view [OF res(3)] by (simp add: client_view_def)
    also have "\<dots> = prune ?now (client_view ?now (shard_view sh)) x" by simp
    also have "\<dots> = prune ?now (snd spec) x" using False by (simp only: prune_def assms(5) if_False simp_thms)
    finally show ?thesis .
  qed
  then have "client_view ?now (shard_view sh') = prune ?now (snd spec)" by (rule ext)
  then show ?thesis using res targets assms(4) by (simp add: implements_def rewrite_expiries_def Let_def)
qed

lemma apply_write_implements:
  assumes "roomy F sh" and "fw_flow_id req \<in> F" and "fe_disk env = (\<lambda>_. None)"
  shows "implements F xxh64 env me r (fw_flow_id req) sh
    (spec_write (fe_now env) (fw_ttl_seconds req) (fw_flow_id req) (fw_key req) wop (client_view (fe_now env) (shard_view sh)))
    (apply_write xxh64 env me r req wop sh)"
proof (cases wop)
  case (FlowSet v)
  show ?thesis unfolding FlowSet apply_write.simps Let_def
    by (rule commit_implements [OF assms]) (simp_all add: client_view_put mint_def)
next
  case FlowDelete
  show ?thesis unfolding FlowDelete apply_write.simps
    by (rule commit_implements [OF assms]) (simp_all add: client_view_bury mint_tombstone_def)
next
  case (FlowIncr by')
  show ?thesis
  proof (cases "checked_add (spec_count (client_view (fe_now env) (shard_view sh) (fw_flow_id req, fw_key req))) by'")
    case None
    then show ?thesis using assms(1) by (simp add: FlowIncr current_count implements_def)
  next
    case (Some n)
    then show ?thesis unfolding FlowIncr apply_write.simps Let_def current_count
      by simp (rule commit_implements [OF assms]; simp add: client_view_put mint_def)
  qed
next
  case (FlowCas expected new)
  show ?thesis
  proof (cases "map_option fst (client_view (fe_now env) (shard_view sh) (fw_flow_id req, fw_key req)) = expected")
    case True
    then show ?thesis unfolding FlowCas apply_write.simps Let_def current_value
      by simp (rule commit_implements [OF assms]; simp add: client_view_put mint_def)
  next
    case False
    then show ?thesis using assms(1) by (simp add: FlowCas current_value implements_def)
  qed
next
  case (FlowSetTtl ttl)
  show ?thesis
  proof (cases "ttl \<le> 0")
    case True
    then show ?thesis unfolding FlowSetTtl apply_write.simps
      by simp (rule clear_implements [OF assms(1,3)]; auto)
  next
    case False
    then show ?thesis unfolding FlowSetTtl apply_write.simps
      by simp (rule rewrite_implements [OF assms]; auto)
  qed
next
  case (FlowSetKeyTtl ttl)
  let ?A = "client_view (fe_now env) (shard_view sh)" and ?x = "(fw_flow_id req, fw_key req)"
  consider "?A ?x = None" | "?A ?x \<noteq> None" "ttl \<le> 0" | "?A ?x \<noteq> None" "\<not> ttl \<le> 0" by blast
  then show ?thesis
  proof cases
    case 1
    then have "?A(?x := None) = ?A" by auto
    then show ?thesis using assms(1) 1 by (simp add: FlowSetKeyTtl client_view_get implements_def)
  next
    case 2
    then have "apply_write xxh64 env me r req wop sh = commit_entry xxh64 env me r req
        (mint_tombstone (fe_now env) me r (get_versioned (fe_now env) sh (fw_flow_id req) (fw_key req))) (FlowApplied None None (Some True)) sh"
      by (auto simp: FlowSetKeyTtl client_view_get)
    then show ?thesis using 2
      by (simp only:) (rule commit_implements [OF assms]; simp add: FlowSetKeyTtl client_view_bury mint_tombstone_def)
  next
    case 3
    then have "apply_write xxh64 env me r req wop sh =
        rewrite_expiries xxh64 env me r req (Some (fw_key req)) ttl (FlowApplied None None (Some True)) sh"
      by (auto simp: FlowSetKeyTtl client_view_get)
    then show ?thesis using 3 by (simp only:) (rule rewrite_implements [OF assms]; auto simp: FlowSetKeyTtl)
  qed
next
  case FlowClear
  show ?thesis unfolding FlowClear apply_write.simps by (rule clear_implements [OF assms(1,3)]) simp
qed

section \<open>A fleet and its runs\<close>

section \<open>Lemmas: every event keeps the fleet in step with the store\<close>

lemma ready_view:
  assumes "fleet_ready r F fleet" and "n \<in> set (rg_members r)"
  shows "flow_view (fn_handle (fleet n)) = Inr (n, r)" "fn_bridge (fleet n)" "\<not> fn_isolated (fleet n)" "roomy F (fn_shard (fleet n))"
  using assms by (auto simp: fleet_ready_def list_all_iff)

lemma client_view_later: "now \<le> later \<Longrightarrow> client_view later v = prune later (client_view now v)"
  by (auto simp: client_view_def prune_def alive_def is_live_def fun_eq_iff split: option.splits)

lemma prune_later: "now \<le> later \<Longrightarrow> prune later (prune now A) = prune later A"
  by (auto simp: prune_def alive_def fun_eq_iff split: option.splits prod.splits)

lemma prune_cong: "A x = B x \<Longrightarrow> prune now A x = prune now B x"
  by (simp add: prune_def)

lemma inv_later:
  assumes "fleet_inv xxh64 r F now A s" and "now \<le> later"
  shows "fleet_inv xxh64 r F later A s"
proof -
  have "prune later A (i, k) = client_view later (shard_view (fn_shard (snd s o'))) (i, k)" if "owner xxh64 r (flow_key i) = Some o'" for i o' k
  proof -
    have "prune later A (i, k) = prune later (prune now A) (i, k)" by (simp add: prune_later [OF assms(2)])
    also have "\<dots> = prune later (client_view now (shard_view (fn_shard (snd s o')))) (i, k)"
      using assms(1) that by (intro prune_cong) (simp add: fleet_inv_def)
    finally show ?thesis by (simp add: client_view_later [OF assms(2)])
  qed
  then show ?thesis using assms(1) unfolding fleet_inv_def by blast
qed

text \<open>A change of one member's shard that its own flows do not show.\<close>

lemma inv_shard:
  assumes inv: "fleet_inv xxh64 r F now A (pool, fleet)" and n: "n \<in> set (rg_members r)"
    and room: "roomy F sh'"
    and own: "\<And>i k. owner xxh64 r (flow_key i) = Some n \<Longrightarrow> client_view now (shard_view sh') (i, k) = client_view now (shard_view (fn_shard (fleet n))) (i, k)"
    and held: "\<And>i o'. owner xxh64 r (flow_key i) = Some o' \<Longrightarrow> tget (fn_adopted (fleet o')) i \<noteq> Some (rg_m_idx r) \<Longrightarrow>
      tget (sh_memory (fn_shard (fleet n))) i = None \<Longrightarrow> tget (sh_memory sh') i = None"
  shows "fleet_inv xxh64 r F now A (pool, fleet(n := (fleet n)\<lparr>fn_shard := sh'\<rparr>))"
proof -
  have "fleet_ready r F (fleet(n := (fleet n)\<lparr>fn_shard := sh'\<rparr>))"
    using inv room by (auto simp: fleet_inv_def fleet_ready_def list_all_iff)
  then show ?thesis using inv own held n unfolding fleet_inv_def fst_conv snd_conv
    by (intro conjI) (blast, (intro allI impI conjI), simp_all, blast?)
qed

lemma holders_members: "p \<in> set (holders xxh64 me r i) \<Longrightarrow> p \<in> set (rg_members r) \<and> p \<noteq> me"
  by (auto simp: holders_def owners_preference preference_def dest: in_set_takeD)

lemma unheld_sync: "tget (sh_memory sh) i = None \<Longrightarrow> serve_sync now [i] sh = [(i, [])]"
  by (simp add: serve_sync_def shard_flow_def)

lemma merge_nothing: "(\<And>reply. reply \<in> set answers \<Longrightarrow> reply = [(i, [])]) \<Longrightarrow> fold (merge_flows now) answers sh = sh"
proof (induction answers arbitrary: sh)
  case (Cons a answers)
  have "a = [(i, [])]" using Cons.prems by simp
  then have "merge_flows now a sh = sh" by (simp add: merge_flows_def)
  then show ?case using Cons by simp
qed simp

text \<open>The owner's adoption stamps the flow and changes nothing else.\<close>

lemma adoption_stamps:
  assumes inv: "fleet_inv xxh64 r F now A (pool, fleet)" and own: "owner xxh64 r (flow_key i) = Some o'"
    and path: "sound_path xxh64 r fleet i me path"
  obtains a where "ensure_adopted xxh64 (fp_env path) o' r i (fleet o') = (fleet o')\<lparr>fn_adopted := a\<rparr>"
    and "tget a i = Some (rg_m_idx r)" and "\<forall>j. j \<noteq> i \<longrightarrow> tget a j = tget (fn_adopted (fleet o')) j"
proof (cases "tget (fn_adopted (fleet o')) i = Some (rg_m_idx r)")
  case True
  then show ?thesis by (intro that [of "fn_adopted (fleet o')"]) (simp_all add: ensure_adopted_def)
next
  case False
  let ?answers = "List.map_filter (fe_pulls (fp_env path)) (holders xxh64 o' r i)"
  have "reply = [(i, [])]" if reply: "reply \<in> set ?answers" for reply
  proof -
    obtain p where p: "p \<in> set (holders xxh64 o' r i)" "fe_pulls (fp_env path) p = Some reply"
      using reply by (auto simp: map_filter_def)
    then have "reply = serve_sync (fe_now (fp_env path)) [i] (fn_shard (fleet p))"
      using path by (simp add: sound_path_def honest_holders_def)
    moreover have "tget (sh_memory (fn_shard (fleet p))) i = None"
      using inv own False holders_members [OF p(1)] unfolding fleet_inv_def by fastforce
    ultimately show ?thesis by (simp add: unheld_sync)
  qed
  then have same: "fold (merge_flows (fe_now (fp_env path))) ?answers (fn_shard (fleet o')) = fn_shard (fleet o')"
    by (rule merge_nothing)
  have "holders xxh64 o' r i = [] \<or> ?answers \<noteq> []"
    using path own False by (auto simp: sound_path_def map_filter_def filter_empty_conv)
  with same False have "ensure_adopted xxh64 (fp_env path) o' r i (fleet o') = (fleet o')\<lparr>fn_adopted := tput i (rg_m_idx r) (fn_adopted (fleet o'))\<rparr>"
    by (auto simp: ensure_adopted_def Let_def)
  then show ?thesis by (rule that) simp_all
qed

lemma spec_write_local:
  assumes "\<And>k. A (i, k) = B (i, k)"
  shows "fst (spec_write now ttl i k wop A) = fst (spec_write now ttl i k wop B)"
    and "snd (spec_write now ttl i k wop A) (i, l) = snd (spec_write now ttl i k wop B) (i, l)"
  using assms by (cases wop; simp split: option.split)+

lemma spec_write_elsewhere: "j \<noteq> i \<Longrightarrow> snd (spec_write now ttl i k wop A) (j, l) = A (j, l)"
  by (cases wop) (simp_all split: option.split)

text \<open>A change of the owner's shard and adoptions for one flow, with the pushes it sends.\<close>

lemma inv_owner:
  assumes inv: "fleet_inv xxh64 r F now A (pool, fleet)" and own: "owner xxh64 r (flow_key i) = Some o'" and i: "i \<in> F"
    and room: "roomy F sh'" and only: "only_flow i (fn_shard (fleet o')) sh'"
    and a: "tget a i = Some (rg_m_idx r)" "\<forall>j. j \<noteq> i \<longrightarrow> tget a j = tget (fn_adopted (fleet o')) j"
    and here: "\<And>k. prune now A' (i, k) = client_view now (shard_view sh') (i, k)"
    and there: "\<And>j k. j \<noteq> i \<Longrightarrow> prune now A' (j, k) = prune now A (j, k)"
    and pushed: "\<forall>(p, q) \<in> set pushed. p \<in> set (holders xxh64 o' r i) \<and> rr_flow_id q = i"
  shows "fleet_inv xxh64 r F now A' (pool @ pushed, fleet(o' := (fleet o')\<lparr>fn_adopted := a, fn_shard := sh'\<rparr>))"
proof -
  let ?fleet = "fleet(o' := (fleet o')\<lparr>fn_adopted := a, fn_shard := sh'\<rparr>)"
  have ready: "fleet_ready r F ?fleet" using inv room by (auto simp: fleet_inv_def fleet_ready_def list_all_iff)
  have mem: "tget (sh_memory (fn_shard (?fleet n))) j = tget (sh_memory (fn_shard (fleet n))) j" if "j \<noteq> i" for n j
    using only that by (simp add: only_flow_def)
  have view: "client_view now (shard_view (fn_shard (?fleet n))) (j, k) = client_view now (shard_view (fn_shard (fleet n))) (j, k)"
    if "j \<noteq> i" for n j k using mem [OF that] by (simp add: client_view_def mem_view_def mem_entry_def)
  have adopted: "tget (fn_adopted (?fleet n)) j = tget (fn_adopted (fleet n)) j" if "j \<noteq> i" for n j using a(2) that by simp
  have pool: "\<forall>(p, q) \<in> set (pool @ pushed). p \<in> set (rg_members r) \<and> owner xxh64 r (flow_key (rr_flow_id q)) \<noteq> Some p \<and> rr_flow_id q \<in> F"
    using inv pushed own i holders_members by (fastforce simp: fleet_inv_def)
  have "(\<forall>k. prune now A' (j, k) = client_view now (shard_view (fn_shard (?fleet n))) (j, k)) \<and>
      (tget (fn_adopted (?fleet n)) j = Some (rg_m_idx r) \<or>
       (\<forall>m \<in> set (rg_members r). tget (sh_memory (fn_shard (?fleet m))) j = None) \<and> (\<forall>(p, q) \<in> set (pool @ pushed). rr_flow_id q \<noteq> j))"
    if n: "owner xxh64 r (flow_key j) = Some n" for j n
  proof (cases "j = i")
    case True
    then show ?thesis using n own a(1) here by simp
  next
    case False
    have "\<forall>(p, q) \<in> set pushed. rr_flow_id q \<noteq> j" using pushed False by auto
    moreover have "(\<forall>k. prune now A (j, k) = client_view now (shard_view (fn_shard (fleet n))) (j, k)) \<and>
      (tget (fn_adopted (fleet n)) j = Some (rg_m_idx r) \<or>
       (\<forall>m \<in> set (rg_members r). tget (sh_memory (fn_shard (fleet m))) j = None) \<and> (\<forall>(p, q) \<in> set pool. rr_flow_id q \<noteq> j))"
      using inv n unfolding fleet_inv_def fst_conv snd_conv by blast
    ultimately show ?thesis unfolding there [OF False] view [OF False] adopted [OF False] mem [OF False] set_append by blast
  qed
  with ready pool show ?thesis unfolding fleet_inv_def fst_conv snd_conv by blast
qed

lemma routed_to_owner:
  assumes "fleet_ready r F fleet" and "me \<in> set (rg_members r)" and "owner xxh64 r (flow_key (fw_flow_id req)) = Some o'"
    and "owner_write xxh64 env req (fleet o') = ((reply, pushed), node)"
  shows "routed_write xxh64 env (Reached 0) me req fleet = ((Inr reply, pushed), fleet(o' := node))"
  using assms(3,4) ready_view(1) [OF assms(1,2)]
  by (cases "o' = me") (simp_all add: routed_write_def write_handler_def)

lemma owner_write_step:
  assumes inv: "fleet_inv xxh64 r F (fe_now (fp_env path)) A (pool, fleet)" and own: "owner xxh64 r (flow_key (fw_flow_id req)) = Some o'"
    and i: "fw_flow_id req \<in> F" and path: "sound_path xxh64 r fleet (fw_flow_id req) me path" and m_idx: "fw_m_idx req = rg_m_idx r"
    and spec: "spec_write (fe_now (fp_env path)) (fw_ttl_seconds req) (fw_flow_id req) (fw_key req) (fw_op req) (prune (fe_now (fp_env path)) A) = (reply', A')"
  obtains reply pushed node where "owner_write xxh64 (fp_env path) req (fleet o') = ((reply, pushed), node)"
    and "unversioned reply = reply'" and "fleet_inv xxh64 r F (fe_now (fp_env path)) A' (pool @ pushed, fleet(o' := node))"
proof -
  let ?i = "fw_flow_id req" and ?env = "fp_env path" and ?now = "fe_now (fp_env path)"
  let ?view = "client_view ?now (shard_view (fn_shard (fleet o')))"
  let ?spec = "spec_write ?now (fw_ttl_seconds req) ?i (fw_key req) (fw_op req)"
  have ready: "fleet_ready r F fleet" using inv by (simp add: fleet_inv_def)
  note o = ready_view [OF ready owner_member [OF own]]
  have disk: "fe_disk ?env = (\<lambda>_. None)" and late: "\<not> fe_isolated_late ?env" using path by (simp_all add: sound_path_def)
  obtain a where a: "ensure_adopted xxh64 ?env o' r ?i (fleet o') = (fleet o')\<lparr>fn_adopted := a\<rparr>" "tget a ?i = Some (rg_m_idx r)"
    "\<forall>j. j \<noteq> ?i \<longrightarrow> tget a j = tget (fn_adopted (fleet o')) j" by (rule adoption_stamps [OF inv own path])
  obtain reply pushed sh' where w: "apply_write xxh64 ?env o' r req (fw_op req) (fn_shard (fleet o')) = ((reply, pushed), sh')"
    by (metis surj_pair)
  have "implements F xxh64 ?env o' r ?i (fn_shard (fleet o')) (?spec ?view) ((reply, pushed), sh')"
    using apply_write_implements [OF o(4) i disk, of xxh64 o' r "fw_op req"] w by simp
  then have impl: "roomy F sh'" "only_flow ?i (fn_shard (fleet o')) sh'" "unversioned reply = fst (?spec ?view)"
    "client_view ?now (shard_view sh') = prune ?now (snd (?spec ?view))"
    "\<forall>(p, q) \<in> set pushed. p \<in> set (holders xxh64 o' r ?i) \<and> rr_flow_id q = ?i" by (simp_all add: implements_def)
  have agree: "prune ?now A (?i, k) = ?view (?i, k)" for k using inv own by (simp add: fleet_inv_def)
  note local = spec_write_local [of "prune ?now A" ?i ?view, OF agree]
  have A': "reply' = fst (?spec (prune ?now A))" "A' = snd (?spec (prune ?now A))" using spec by simp_all
  show ?thesis
  proof (rule that)
    show "owner_write xxh64 ?env req (fleet o') = ((reply, pushed), (fleet o')\<lparr>fn_adopted := a, fn_shard := sh'\<rparr>)"
      using owner_write_accepts [OF o(1) m_idx own o(3) late] a(1) w by simp
    show "unversioned reply = reply'" unfolding impl(3) A' by (rule local(1) [symmetric])
    show "fleet_inv xxh64 r F ?now A' (pool @ pushed, fleet(o' := (fleet o')\<lparr>fn_adopted := a, fn_shard := sh'\<rparr>))"
    proof (rule inv_owner [OF inv own i impl(1,2) a(2,3) _ _ impl(5)])
      show "prune ?now A' (?i, k) = client_view ?now (shard_view sh') (?i, k)" for k
        unfolding impl(4) A' by (rule prune_cong) (rule local(2))
      show "prune ?now A' (j, k) = prune ?now A (j, k)" if "j \<noteq> ?i" for j k
        using prune_later [of ?now ?now A] by (simp add: prune_def A' spec_write_elsewhere [OF that] fun_eq_iff)
    qed
  qed
qed

lemma write_step:
  assumes inv: "fleet_inv xxh64 r F (fe_now (fp_env path)) A (pool, fleet)"
    and sound: "sound_event xxh64 r F fleet (CallWrite path me face flow_id key wop)"
    and exec: "fleet_exec xxh64 (CallWrite path me face flow_id key wop) (pool, fleet) = (answer, s')"
    and spec: "spec_exec (CallWrite path me face flow_id key wop) A = (answer', A')"
  shows "answer = answer' \<and> fleet_inv xxh64 r F (fe_now (fp_env path)) A' s'"
proof -
  let ?i = "face_scoped face flow_id" and ?now = "fe_now (fp_env path)"
  let ?req = "face_request face flow_id key wop (rg_m_idx r)"
  have req: "fw_flow_id ?req = ?i" "fw_key ?req = key" "fw_op ?req = wop" "fw_ttl_seconds ?req = fc_ttl_seconds (sf_config face)"
    "fw_m_idx ?req = rg_m_idx r" by (simp_all add: face_request_def)
  have path: "fw_flow_id ?req \<in> F" "sound_path xxh64 r fleet (fw_flow_id ?req) me path" using sound by (simp_all add: req)
  have ready: "fleet_ready r F fleet" using inv by (simp add: fleet_inv_def)
  have me: "me \<in> set (rg_members r)" and how: "fp_bridge path = Bridged" "fp_hop path = Reached 0" "fp_seen path = fn_handle (fleet me)"
    using path(2) by (simp_all add: sound_path_def)
  obtain o' where own: "owner xxh64 r (flow_key (fw_flow_id ?req)) = Some o'" using owner_exists ready by (metis fleet_ready_def)
  obtain reply' where spec': "spec_write ?now (fw_ttl_seconds ?req) (fw_flow_id ?req) (fw_key ?req) (fw_op ?req) (prune ?now A) = (reply', A')"
    "answer' = Some (WriteAnswer (applied reply'))" using spec by (auto simp: req split: prod.splits)
  from owner_write_step [OF inv own path req(5) spec'(1)] obtain reply pushed node where
    w: "owner_write xxh64 (fp_env path) ?req (fleet o') = ((reply, pushed), node)" "unversioned reply = reply'"
    "fleet_inv xxh64 r F ?now A' (pool @ pushed, fleet(o' := node))" .
  have "answer = Some (WriteAnswer (map_sum (\<lambda>e. e) unversioned (applied reply)))" "s' = (pool @ pushed, fleet(o' := node))"
    using exec how ready_view [OF ready me] routed_to_owner [OF ready me own w(1)]
    by (auto simp: face_write_def blocking_write_def face_applied_def)
  moreover have "map_sum (\<lambda>e. e) unversioned (applied reply) = applied reply'" unfolding w(2) [symmetric] by (cases reply) simp_all
  ultimately show ?thesis using w(3) by (simp add: spec')
qed

lemma read_step:
  assumes inv: "fleet_inv xxh64 r F (fe_now (fp_env path)) A (pool, fleet)"
    and sound: "sound_event xxh64 r F fleet (CallRead path me face flow_id key)"
    and exec: "fleet_exec xxh64 (CallRead path me face flow_id key) (pool, fleet) = (answer, s')"
    and spec: "spec_exec (CallRead path me face flow_id key) A = (answer', A')"
  shows "answer = answer' \<and> fleet_inv xxh64 r F (fe_now (fp_env path)) A' s'"
proof -
  let ?i = "face_scoped face flow_id" and ?env = "fp_env path" and ?now = "fe_now (fp_env path)"
  have i: "?i \<in> F" and path: "sound_path xxh64 r fleet ?i me path" and strong: "fc_read_consistency (sf_config face) = ReadStrong"
    using sound by simp_all
  have ready: "fleet_ready r F fleet" using inv by (simp add: fleet_inv_def)
  have me: "me \<in> set (rg_members r)" and how: "fp_bridge path = Bridged" "fp_hop path = Reached 0" using path by (simp_all add: sound_path_def)
  obtain o' where own: "owner xxh64 r (flow_key ?i) = Some o'" using owner_exists ready by (metis fleet_ready_def)
  note o = ready_view [OF ready owner_member [OF own]]
  obtain a where a: "ensure_adopted xxh64 ?env o' r ?i (fleet o') = (fleet o')\<lparr>fn_adopted := a\<rparr>" "tget a ?i = Some (rg_m_idx r)"
    "\<forall>j. j \<noteq> ?i \<longrightarrow> tget a j = tget (fn_adopted (fleet o')) j" by (rule adoption_stamps [OF inv own path])
  have serve: "serve_get xxh64 ?env ?i key (fleet o') =
      (Inr (shard_get ?now (fn_shard (fleet o')) ?i key), (fleet o')\<lparr>fn_adopted := a, fn_shard := fn_shard (fleet o')\<rparr>)"
    using o(1,3) a(1) by (simp add: serve_get_def)
  have "blocking_read xxh64 ?env Bridged (Reached 0) me ?i key fleet =
      (Inr (shard_get ?now (fn_shard (fleet o')) ?i key), fleet(o' := (fleet o')\<lparr>fn_adopted := a, fn_shard := fn_shard (fleet o')\<rparr>))"
    using ready_view(1,2) [OF ready me] own serve by (cases "o' = me") (simp_all add: blocking_read_def)
  then have step: "answer = Some (ReadAnswer (Inr (map_option vs_value (shard_get ?now (fn_shard (fleet o')) ?i key))))"
    "s' = (pool @ [], fleet(o' := (fleet o')\<lparr>fn_adopted := a, fn_shard := fn_shard (fleet o')\<rparr>))"
    using exec strong how by (simp_all add: face_get_def)
  have agree: "prune ?now A (?i, k) = client_view ?now (shard_view (fn_shard (fleet o'))) (?i, k)" for k using inv own by (simp add: fleet_inv_def)
  have "answer = answer'" using spec by (auto simp: step client_view_value agree)
  moreover have "fleet_inv xxh64 r F ?now A s'" unfolding step(2)
    by (rule inv_owner [OF inv own i o(4) _ a(2,3)]) (simp_all add: agree)
  ultimately show ?thesis using spec by simp
qed

lemma replica_in_room:
  assumes "roomy F sh" and "rr_flow_id q \<in> F"
  shows "roomy F (apply_replica now q sh)" and "only_flow (rr_flow_id q) sh (apply_replica now q sh)"
  using assms by (cases "rr_op q"; simp add: merge_in_room merge_only delete_in_room delete_only clear_in_room clear_only)+

lemma deliver_step:
  assumes inv: "fleet_inv xxh64 r F now A (pool, fleet)" and sent: "(n, q) \<in> set pool"
  shows "fleet_inv xxh64 r F now A (pool, on_shard (apply_replica now q) n fleet)"
proof -
  have q: "n \<in> set (rg_members r)" "owner xxh64 r (flow_key (rr_flow_id q)) \<noteq> Some n" "rr_flow_id q \<in> F"
    using inv sent by (auto simp: fleet_inv_def)
  have "fleet_ready r F fleet" using inv by (simp add: fleet_inv_def)
  note applied = replica_in_room [OF ready_view(4) [OF this q(1)] q(3), of now]
  show ?thesis unfolding on_shard_def
  proof (rule inv_shard [OF inv q(1) applied(1)])
    show "client_view now (shard_view (apply_replica now q (fn_shard (fleet n)))) (i, k) = client_view now (shard_view (fn_shard (fleet n))) (i, k)"
      if "owner xxh64 r (flow_key i) = Some n" for i k
    proof -
      have "fst (i, k) \<noteq> rr_flow_id q" using that q(2) by auto
      from only_flow_view [OF applied(2) this] show ?thesis by (simp only: client_view_def)
    qed
    show "tget (sh_memory (apply_replica now q (fn_shard (fleet n)))) i = None"
      if "owner xxh64 r (flow_key i) = Some o'" "tget (fn_adopted (fleet o')) i \<noteq> Some (rg_m_idx r)"
        "tget (sh_memory (fn_shard (fleet n))) i = None" for i o'
    proof -
      have "\<forall>(p, q) \<in> set pool. rr_flow_id q \<noteq> i" using inv that(1,2) unfolding fleet_inv_def fst_conv snd_conv by blast
      then have "i \<noteq> rr_flow_id q" using sent by auto
      then show ?thesis using applied(2) that(3) by (simp add: only_flow_def del: apply_replica.simps)
    qed
  qed
qed

lemma roomy_own: "roomy F sh \<Longrightarrow> roomy (set (flow_ids sh)) sh"
  using card_mono [of F "fst ` set (sh_memory sh)"] by (auto simp: roomy_def flow_ids_def)

lemma repair_step:
  assumes inv: "fleet_inv xxh64 r F now A (pool, fleet)" and n: "n \<in> set (rg_members r)"
    and honest: "honest_pulls now (\<lambda>n. fn_shard (fleet n)) pulls"
  shows "fleet_inv xxh64 r F now A (pool, fleet(n := anti_entropy_tick xxh64 now pulls (fleet n)))"
proof -
  let ?sh = "fn_shard (fleet n)" and ?sh' = "fn_shard (anti_entropy_tick xxh64 now pulls (fleet n))"
  have ready: "fleet_ready r F fleet" using inv by (simp add: fleet_inv_def)
  note view = ready_view(1) [OF ready n] and room = ready_view(4) [OF ready n]
  have tick: "anti_entropy_tick xxh64 now pulls (fleet n) = (fleet n)\<lparr>fn_shard := ?sh'\<rparr>"
    using view by (simp add: anti_entropy_tick_def)
  have own: "\<forall>(m, chunk) \<in> set (sync_requests xxh64 n r ?sh). set chunk \<subseteq> set (flow_ids ?sh)" by (auto dest: request_flows)
  moreover have "set (flow_ids ?sh) \<subseteq> F" using room by (simp add: roomy_def flow_ids_def)
  ultimately have "roomy F ?sh'" unfolding tick_requests [OF view] by (intro requests_roomy [OF room honest]) fast
  have "roomy (set (flow_ids ?sh)) ?sh'" unfolding tick_requests [OF view] by (rule requests_roomy [OF roomy_own [OF room] honest own])
  then have held: "set (flow_ids ?sh') \<subseteq> set (flow_ids ?sh)" by (simp add: roomy_def flow_ids_def)
  show ?thesis
  proof (subst tick, rule inv_shard [OF inv n \<open>roomy F ?sh'\<close>])
    show "client_view now (shard_view ?sh') (i, k) = client_view now (shard_view ?sh) (i, k)" if "owner xxh64 r (flow_key i) = Some n" for i k
    proof -
      have "shard_view ?sh' (i, k) = shard_view ?sh (i, k)" unfolding tick_requests [OF view]
        by (rule requests_elsewhere [OF roomy_own [OF room] honest]) (use that in \<open>auto dest: request_flows\<close>)
      then show ?thesis by (simp add: client_view_def)
    qed
    show "tget (sh_memory ?sh') i = None" if "tget (sh_memory ?sh) i = None" for i
      using held that by (auto simp: flow_ids_def map_of_eq_None_iff)
  qed
qed

lemma sweep_step:
  assumes inv: "fleet_inv xxh64 r F now A (pool, fleet)" and n: "n \<in> set (rg_members r)"
  shows "fleet_inv xxh64 r F now A (pool, on_shard (\<lambda>sh. sh\<lparr>sh_memory := fst (sweep_expired now (sh_memory sh))\<rparr>) n fleet)"
proof -
  have "fleet_ready r F fleet" using inv by (simp add: fleet_inv_def)
  from ready_view(4) [OF this n] have wf: "twf (sh_memory (fn_shard (fleet n)))" "\<forall>row \<in> set (sh_memory (fn_shard (fleet n))). twf (fm_keys (snd row))"
    and room: "roomy F (fn_shard (fleet n))" by (auto simp: roomy_def list_all_iff)
  have "roomy F ((fn_shard (fleet n))\<lparr>sh_memory := fst (sweep_expired now (sh_memory (fn_shard (fleet n))))\<rparr>)"
    using room sweep_wf(1) [OF wf(1), of now] by (auto simp: roomy_def sweep_expired_def list_all_iff twf_filter)
  then show ?thesis unfolding on_shard_def
    by (rule inv_shard [OF inv n])
      (auto simp: sweep_view [OF wf] sweep_flow [OF wf(1)] client_view_def live_view_def split: option.splits)
qed

lemma fleet_step:
  assumes inv: "fleet_inv xxh64 r F now A s" and later: "now \<le> event_time ev" and sound: "sound_event xxh64 r F (snd s) ev"
    and exec: "fleet_exec xxh64 ev s = (answer, s')" and spec: "spec_exec ev A = (answer', A')"
  shows "answer = answer' \<and> fleet_inv xxh64 r F (event_time ev) A' s'"
proof -
  obtain pool fleet where s: "s = (pool, fleet)" by (cases s)
  have inv': "fleet_inv xxh64 r F (event_time ev) A (pool, fleet)" using inv_later [OF inv later] by (simp add: s)
  show ?thesis
  proof (cases ev)
    case (CallWrite path me face flow_id key wop)
    then show ?thesis using write_step [of xxh64 r F path A pool fleet me face flow_id key wop answer s' answer' A'] inv' sound exec spec
      by (simp only: s event_time.simps snd_conv simp_thms)
  next
    case (CallRead path me face flow_id key)
    then show ?thesis using read_step [of xxh64 r F path A pool fleet me face flow_id key answer s' answer' A'] inv' sound exec spec
      by (simp only: s event_time.simps snd_conv simp_thms)
  next
    case (DeliverPush t n q)
    then show ?thesis using inv' exec spec deliver_step [of xxh64 r F t A pool fleet n q] by (auto simp: s split: if_splits)
  next
    case (RepairTick t pulls n)
    then show ?thesis using inv' sound exec spec repair_step [of xxh64 r F t A pool fleet n pulls] by (auto simp: s)
  next
    case (SweepTick t n)
    then show ?thesis using inv' sound exec spec sweep_step [of xxh64 r F t A pool fleet n] by (auto simp: s)
  qed
qed

lemma fleet_run:
  assumes "fleet_inv xxh64 r F now A s" and "sound_run xxh64 r F now evs s"
  shows "fleet_answers xxh64 evs s = spec_answers evs A"
  using assms
proof (induction evs arbitrary: now A s)
  case (Cons ev evs)
  obtain a s' where exec: "fleet_exec xxh64 ev s = (a, s')" by (metis surj_pair)
  obtain a' A' where spec: "spec_exec ev A = (a', A')" by (metis surj_pair)
  have "a = a' \<and> fleet_inv xxh64 r F (event_time ev) A' s'"
    by (rule fleet_step [OF Cons.prems(1) _ _ exec spec]) (use Cons.prems(2) in auto)
  then show ?case using Cons.IH [of "event_time ev" A' s'] Cons.prems(2) by (simp add: exec spec)
qed simp

text \<open>C4. A fleet answers as one store: under one membership, starting with no flow state, every write and
  every strong read that a member bridges and that reaches its owner once is answered as a single map
  from flow and key to value and expiry answers it, whichever member it was put to, however the
  pushes to the replicas are delayed, reordered, repeated or lost, and whatever anti-entropy passes
  and expiry sweeps run in between.\<close>

theorem fleet_answers_as_one_store:
  assumes "fleet_ready r F fleet" and "\<And>n. n \<in> set (rg_members r) \<Longrightarrow> sh_memory (fn_shard (fleet n)) = []"
    and "sound_run xxh64 r F now evs ([], fleet)"
  shows "fleet_answers xxh64 evs ([], fleet) = spec_answers evs (\<lambda>_. None)"
proof (rule fleet_run [OF _ assms(3)])
  have "sh_memory (fn_shard (fleet n)) = []" if "owner xxh64 r key = Some n" for key n
    using assms(2) owner_member [OF that] by blast
  then show "fleet_inv xxh64 r F now (\<lambda>_. None) ([], fleet)"
    using assms(1,2) by (auto simp: fleet_inv_def client_view_def prune_def mem_view_def mem_entry_def)
qed

theorem fleet_answers_as_one_store_witness:
  "fleet_answers flat_hash sample_events ([], sample_node) =
     [Some (WriteAnswer (Inr (FlowApplied None (Some 5) None))), None, Some (ReadAnswer (Inr (Some (JInt 5))))]"
proof -
  have ring: "rg_members sample_ring = [1, 2, 3]" "rg_m_idx sample_ring = 7" and flow: "face_scoped shared_face ''f'' = ''f:f''"
    and strong: "fc_read_consistency (sf_config shared_face) = ReadStrong" and held: "holders flat_hash 3 sample_ring ''f:f'' = [2, 1]" by code_simp+
  have after: "fn_handle (snd after_push 2) = HandleLive 2 sample_ring" "tget (fn_adopted (snd after_push 3)) ''f:f'' = Some 7" by code_simp+
  have "fleet_ready sample_ring {''f:f''} sample_node"
    by (simp add: fleet_ready_def ring sample_node_def roomy_def empty_shard_def)
  moreover have "sh_memory (fn_shard (sample_node n)) = []" for n by (simp add: sample_node_def empty_shard_def)
  moreover have "sound_event flat_hash sample_ring {''f:f''} sample_node first_call"
    by (simp add: first_call_def flow sound_path_def plain_path_def sample_env_def ring honest_holders_def sample_node_def empty_shard_def
        serve_sync_def shard_flow_def sample_owner held) blast
  moreover have "sound_event flat_hash sample_ring {''f:f''} (snd after_push) (CallRead (plain_path 12 (\<lambda>_. None) 2) 2 shared_face ''f'' ''k'')"
    by (simp add: flow strong sound_path_def plain_path_def sample_env_def ring honest_holders_def sample_owner after)
  ultimately have "sound_run flat_hash sample_ring {''f:f''} 10 sample_events ([], sample_node)"
    by (simp add: sample_events_def after_first_def [symmetric] after_push_def [symmetric] del: fleet_exec.simps sound_event.simps(1,2))
       (simp add: first_call_def plain_path_def sample_env_def)
  then have "fleet_answers flat_hash sample_events ([], sample_node) = spec_answers sample_events (\<lambda>_. None)"
    using \<open>fleet_ready sample_ring {''f:f''} sample_node\<close> by (intro fleet_answers_as_one_store) (simp_all add: sample_node_def empty_shard_def)
  also have "\<dots> = [Some (WriteAnswer (Inr (FlowApplied None (Some 5) None))), None, Some (ReadAnswer (Inr (Some (JInt 5))))]" by code_simp
  finally show ?thesis .
qed

section \<open>Behaviour outside the contract\<close>

text \<open>A forwarded write whose first answer is lost is sent again by the transport, and the owner applies it
  twice: the caller of one increment by five gets ten.\<close>

lemma retried_increment_counts_twice:
  "fst (fst (routed_write flat_hash (sample_env 10) (Reached 1) 1 (sample_req (FlowIncr 5)) sample_node)) = Inr (FlowApplied None (Some 10) None)"
  by code_simp

lemma tombstone_cut_short:
  "map_option vs_expires_at (get_versioned 20 (fn_shard hurried_owner) ''f'' ''k'') = Some 1020 \<and>
   shard_get 1030 (apply_replica 1025 (sample_push (ReplicaPut ''k'' (sample_entry_at 1 0))) (fn_shard hurried_owner)) ''f'' ''k''
     = Some (sample_entry_at 1 0)"
  by code_simp

text \<open>A replica that misses a clear keeps its old entry. When the owner loses its memory of the flow and
  adopts it again, the cleared value is back.\<close>

lemma cleared_value_adopted:
  "shard_get 30 (fn_shard (ensure_adopted flat_hash
       ((sample_env 30)\<lparr>fe_pulls := (\<lambda>n. if n = 2 then Some (serve_sync 30 [''f''] (sample_copy (sample_entry_at 1 0))) else None)\<rparr>) 3 sample_ring ''f''
       ((snd (owner_write flat_hash (sample_env 20) (sample_req FlowClear) (sample_node 3)))\<lparr>fn_adopted := []\<rparr>))) ''f'' ''k''
     = Some (sample_entry_at 1 0)"
  by code_simp

end
