(* ===== verification/FlowSpaces.thy ===== *)
theory FlowSpaces
  imports FlowStore
begin

text \<open>
  The fleet-wide listings of flow state (\<^verbatim>\<open>stores/flow.rs\<close>: \<^verbatim>\<open>fleet_entry_counts\<close>, \<^verbatim>\<open>fleet_spaces\<close> and the routes
  that answer them): each member reports the flows it owns, and the caller merges the answers.
\<close>

section \<open>Counts and spaces across the fleet\<close>

definition owned_counts ::
  "(u8 list \<Rightarrow> u64 \<Rightarrow> u64) \<Rightarrow> u64 \<Rightarrow> node_id \<Rightarrow> ring \<Rightarrow> u16 list \<Rightarrow> shard \<Rightarrow> (u16, u64) table" where
  "owned_counts xxh64 now me r ports sh =
     fold (\<lambda>(flow_id, count) counts.
             case imposter_port flow_id of
               None \<Rightarrow> counts
             | Some port \<Rightarrow>
                 if port \<in> set ports \<and> owner xxh64 r (flow_key flow_id) = Some me
                 then tput port ((case tget counts port of None \<Rightarrow> 0 | Some n \<Rightarrow> n) + of_nat count) counts else counts)
       (entries_by_flow now sh) (fold (\<lambda>port. tput port 0) ports [])"

definition serve_counts ::
  "(u8 list \<Rightarrow> u64 \<Rightarrow> u64) \<Rightarrow> u64 \<Rightarrow> u16 list \<Rightarrow> u64 \<Rightarrow> flow_node \<Rightarrow> rpc_error + (u16 \<times> u64) list" where
  "serve_counts xxh64 now ports m_idx node =
     (case flow_view (fn_handle node) of
        Inl reason \<Rightarrow> Inl (HandlerError reason)
      | Inr (me, r) \<Rightarrow>
          if m_idx \<noteq> rg_m_idx r
          then Inl (HandlerError (''flow/counts: ring diverged (caller m_idx '' @ show_word m_idx @ '', this node '' @
                 show_word (rg_m_idx r) @ '')''))
          else let totals = owned_counts xxh64 now me r ports (fn_shard node)
               in Inr (map (\<lambda>port. (port, case tget totals port of None \<Rightarrow> 0 | Some n \<Rightarrow> n)) ports))"

definition merge_peer_counts :: "('k::linorder \<times> u64) list \<Rightarrow> ('k, u64) table \<Rightarrow> ('k, u64) table" where
  "merge_peer_counts slots totals =
     fold (\<lambda>(key, count) totals. case tget totals key of None \<Rightarrow> totals | Some so_far \<Rightarrow> tput key (sat_add so_far count) totals)
       slots totals"

text \<open>\<open>answers\<close> is what each peer's answer was within the budget, if it had one.\<close>

definition fleet_entry_counts ::
  "(u8 list \<Rightarrow> u64 \<Rightarrow> u64) \<Rightarrow> u64 \<Rightarrow> (node_id \<Rightarrow> (u16 \<times> u64) list option) \<Rightarrow> u16 list \<Rightarrow> flow_node \<Rightarrow> (u16, u64) table \<times> bool" where
  "fleet_entry_counts xxh64 now answers ports node =
     (if ports = [] then ([], False)
      else case flow_view (fn_handle node) of
        Inl _ \<Rightarrow> ([], True)
      | Inr (me, r) \<Rightarrow>
          (let peers = filter (\<lambda>i. i \<noteq> me) (rg_members r)
           in (fold (\<lambda>peer totals. case answers peer of None \<Rightarrow> totals | Some slots \<Rightarrow> merge_peer_counts slots totals) peers
                 (owned_counts xxh64 now me r ports (fn_shard node)),
               list_ex (\<lambda>peer. answers peer = None) peers)))"

definition owned_spaces :: "(string \<times> nat) list \<Rightarrow> string \<Rightarrow> (string \<Rightarrow> node_id option) \<Rightarrow> node_id \<Rightarrow> (string \<times> u64) list" where
  "owned_spaces entries prefix owner_of me =
     List.map_filter (\<lambda>(scoped_id, count).
       case strip_prefix prefix scoped_id of
         None \<Rightarrow> None
       | Some unscoped \<Rightarrow> if owner_of scoped_id \<noteq> Some me then None else Some (unscoped, of_nat count)) entries"

record space_row =
  sp_space :: string
  sp_entry_count :: u64
  sp_owner :: node_id

definition space_rows_of :: "node_id \<Rightarrow> (string \<times> u64) list \<Rightarrow> space_row list" where
  "space_rows_of o' rows = map (\<lambda>(space, n). \<lparr>sp_space = space, sp_entry_count = n, sp_owner = o'\<rparr>) rows"

definition merge_space_rows ::
  "(string \<times> u64) list \<Rightarrow> node_id \<Rightarrow> (node_id \<times> (string \<times> u64) list option) list \<Rightarrow> bool \<Rightarrow> space_row list \<times> bool" where
  "merge_space_rows local me peers timed_out =
     (space_rows_of me local @ concat (map (\<lambda>(peer, answer). case answer of None \<Rightarrow> [] | Some rows \<Rightarrow> space_rows_of peer rows) peers),
      timed_out \<or> list_ex (\<lambda>(peer, answer). answer = None) peers)"

definition serve_spaces ::
  "(u8 list \<Rightarrow> u64 \<Rightarrow> u64) \<Rightarrow> u64 \<Rightarrow> u16 \<Rightarrow> string \<Rightarrow> u64 \<Rightarrow> flow_node \<Rightarrow> rpc_error + (string \<times> u64) list" where
  "serve_spaces xxh64 now port prefix m_idx node =
     (case flow_view (fn_handle node) of
        Inl reason \<Rightarrow> Inl (HandlerError reason)
      | Inr (me, r) \<Rightarrow>
          if m_idx \<noteq> rg_m_idx r
          then Inl (HandlerError (''flow/spaces: ring diverged for port '' @ show_word port @ '' (caller m_idx '' @ show_word m_idx @
                 '', this node '' @ show_word (rg_m_idx r) @ '')''))
          else Inr (owned_spaces (entries_by_flow now (fn_shard node)) prefix (\<lambda>i. owner xxh64 r (flow_key i)) me))"

text \<open>The answers within the budget; a peer without one is lost to the budget or to a failed call.\<close>

definition fleet_spaces ::
  "(u8 list \<Rightarrow> u64 \<Rightarrow> u64) \<Rightarrow> u64 \<Rightarrow> (node_id \<Rightarrow> (string \<times> u64) list option) \<Rightarrow> bool \<Rightarrow> string \<Rightarrow> flow_node \<Rightarrow> space_row list \<times> bool" where
  "fleet_spaces xxh64 now answers timed_out prefix node =
     (case flow_view (fn_handle node) of
        Inl _ \<Rightarrow> ([], True)
      | Inr (me, r) \<Rightarrow>
          (let local = owned_spaces (entries_by_flow now (fn_shard node)) prefix (\<lambda>i. owner xxh64 r (flow_key i)) me;
               peers = filter (\<lambda>i. i \<noteq> me) (rg_members r)
           in if peers = [] then merge_space_rows local me [] False
              else merge_space_rows local me (map (\<lambda>peer. (peer, answers peer)) peers) timed_out))"

section \<open>A fleet with copies\<close>

text \<open>Every member of the sample fleet holds a copy of one flow.\<close>

definition copied_fleet :: "node_id \<Rightarrow> flow_node" where
  "copied_fleet n = (sample_node n)\<lparr>fn_shard := sample_copy (sample_entry_at 1 0)\<rparr>"

definition copied_answers :: "node_id \<Rightarrow> (string \<times> u64) list option" where
  "copied_answers n = (case serve_spaces flat_hash 10 0 [] 7 (copied_fleet n) of Inl _ \<Rightarrow> None | Inr rows \<Rightarrow> Some rows)"

section \<open>Lemmas: spaces\<close>

text \<open>A flow that some member holds is listed once, whoever else holds a copy.\<close>

lemma owned_spaces_iff:
  "(space, n) \<in> set (owned_spaces entries prefix owner_of me) \<longleftrightarrow>
     (\<exists>count. (prefix @ space, count) \<in> set entries \<and> owner_of (prefix @ space) = Some me \<and> n = of_nat count)"
  by (force simp: owned_spaces_def map_filter_def strip_prefix_Some strip_prefix_append split: option.splits if_splits)

lemma spaces_answered:
  assumes "flow_view (fn_handle node) = Inr (me, r)" and "list_all (\<lambda>p. answers p \<noteq> None) (filter (\<lambda>p. p \<noteq> me) (rg_members r))"
  shows "fleet_spaces xxh64 now answers False prefix node =
    (space_rows_of me (owned_spaces (entries_by_flow now (fn_shard node)) prefix (\<lambda>i. owner xxh64 r (flow_key i)) me) @
     concat (map (\<lambda>p. space_rows_of p (the (answers p))) (filter (\<lambda>p. p \<noteq> me) (rg_members r))), False)"
proof -
  let ?peers = "filter (\<lambda>p. p \<noteq> me) (rg_members r)"
  have "map (\<lambda>p. case answers p of None \<Rightarrow> [] | Some rows \<Rightarrow> space_rows_of p rows) ?peers =
      map (\<lambda>p. space_rows_of p (the (answers p))) ?peers"
    using assms(2) by (intro map_cong) (auto simp: list_all_iff)
  moreover have "\<not> list_ex (\<lambda>(peer, answer). answer = None) (map (\<lambda>p. (p, answers p)) ?peers)"
    using assms(2) by (auto simp: list_ex_iff list_all_iff)
  ultimately show ?thesis using assms(1)
    by (simp add: fleet_spaces_def Let_def merge_space_rows_def o_def del: map_eq_conv)
qed

lemma entries_distinct: "roomy F sh \<Longrightarrow> distinct (map fst (entries_by_flow now sh))"
  by (simp add: roomy_def entries_by_flow_def o_def case_prod_beta twf_distinct)

lemma owned_spaces_distinct: "distinct (map fst entries) \<Longrightarrow> distinct (map fst (owned_spaces entries prefix owner_of me))"
proof (induction entries)
  case (Cons e entries)
  have "owned_spaces (e # entries) prefix owner_of me = owned_spaces [e] prefix owner_of me @ owned_spaces entries prefix owner_of me"
    by (simp add: owned_spaces_def List.map_filter_simps split: option.split)
  moreover have "space \<notin> fst ` set (owned_spaces entries prefix owner_of me)" if "space \<in> fst ` set (owned_spaces [e] prefix owner_of me)" for space
    using that Cons.prems by (force simp: owned_spaces_iff)
  moreover have "distinct (map fst (owned_spaces [e] prefix owner_of me))"
    by (simp add: owned_spaces_def List.map_filter_simps split: option.split)
  ultimately show ?case using Cons by auto
qed (simp add: owned_spaces_def List.map_filter_simps)

lemma distinct_concat_parts:
  assumes "distinct ps" and "\<And>p. p \<in> set ps \<Longrightarrow> distinct (f p)"
    and "\<And>p q. p \<in> set ps \<Longrightarrow> q \<in> set ps \<Longrightarrow> p \<noteq> q \<Longrightarrow> set (f p) \<inter> set (f q) = {}"
  shows "distinct (concat (map f ps))"
  using assms
proof (induction ps)
  case (Cons p ps)
  have "distinct (concat (map f ps))" using Cons.prems by (intro Cons.IH) auto
  moreover have "set (f p) \<inter> set (f q) = {}" if "q \<in> set ps" for q using Cons.prems(1,3) that by auto
  ultimately show ?case using Cons.prems(2) [of p] by auto
qed simp

text \<open>C20. The listing of spaces counts each flow once: when every peer answers, the rows are exactly the flows
  under the prefix that their own owners hold, each with its owner's count and name and no space
  twice, however many members hold copies; and the answer is not marked partial.\<close>

theorem spaces_listed_once:
  assumes ready: "\<And>n. n \<in> set (rg_members r) \<Longrightarrow> fn_handle (fleet n) = HandleLive n r"
    and members: "distinct (rg_members r)" "me \<in> set (rg_members r)"
    and rooms: "\<And>n. n \<in> set (rg_members r) \<Longrightarrow> roomy (F n) (fn_shard (fleet n))"
    and answers: "\<And>n. n \<in> set (rg_members r) \<Longrightarrow> n \<noteq> me \<Longrightarrow>
        answers n = (case serve_spaces xxh64 now port prefix (rg_m_idx r) (fleet n) of Inl _ \<Rightarrow> None | Inr rows \<Rightarrow> Some rows)"
    and result: "fleet_spaces xxh64 now answers False prefix (fleet me) = (rows, partial)"
  shows "\<not> partial \<and> distinct (map sp_space rows) \<and>
    (\<forall>row. row \<in> set rows \<longleftrightarrow>
       (\<exists>o' count. owner xxh64 r (flow_key (prefix @ sp_space row)) = Some o' \<and> o' \<in> set (rg_members r) \<and>
          (prefix @ sp_space row, count) \<in> set (entries_by_flow now (fn_shard (fleet o'))) \<and>
          row = \<lparr>sp_space = sp_space row, sp_entry_count = of_nat count, sp_owner = o'\<rparr>))"
proof -
  let ?owner = "\<lambda>i. owner xxh64 r (flow_key i)"
  let ?rows = "\<lambda>n. owned_spaces (entries_by_flow now (fn_shard (fleet n))) prefix ?owner n"
  let ?peers = "filter (\<lambda>p. p \<noteq> me) (rg_members r)"
  have view: "flow_view (fn_handle (fleet n)) = Inr (n, r)" if "n \<in> set (rg_members r)" for n
    using ready [OF that] that by auto
  have peer: "answers n = Some (?rows n)" if "n \<in> set ?peers" for n
    using answers [of n] view [of n] that by (simp add: serve_spaces_def)
  have "fleet_spaces xxh64 now answers False prefix (fleet me) =
      (space_rows_of me (?rows me) @ concat (map (\<lambda>p. space_rows_of p (the (answers p))) ?peers), False)"
    by (rule spaces_answered [OF view [OF members(2)]]) (simp add: list_all_iff peer)
  moreover have "map (\<lambda>p. space_rows_of p (the (answers p))) ?peers = map (\<lambda>p. space_rows_of p (?rows p)) ?peers"
    using peer by (intro map_cong) auto
  ultimately have rows: "rows = concat (map (\<lambda>p. space_rows_of p (?rows p)) (me # ?peers))" and "\<not> partial"
    using result by auto
  have who: "set (me # ?peers) = set (rg_members r)" "distinct (me # ?peers)" using members by auto
  have "map sp_space rows = concat (map (\<lambda>p. map fst (?rows p)) (me # ?peers))"
    by (simp add: rows map_concat space_rows_of_def o_def case_prod_beta)
  moreover have "distinct (concat (map (\<lambda>p. map fst (?rows p)) (me # ?peers)))"
  proof (rule distinct_concat_parts [OF who(2)])
    show "distinct (map fst (?rows p))" if "p \<in> set (me # ?peers)" for p
      using that who(1) by (intro owned_spaces_distinct entries_distinct [OF rooms]) auto
    show "set (map fst (?rows p)) \<inter> set (map fst (?rows q)) = {}" if "p \<noteq> q" for p q
      using that by (auto simp: owned_spaces_iff)
  qed
  moreover have "row \<in> set rows \<longleftrightarrow>
       (\<exists>o' count. ?owner (prefix @ sp_space row) = Some o' \<and> o' \<in> set (rg_members r) \<and>
          (prefix @ sp_space row, count) \<in> set (entries_by_flow now (fn_shard (fleet o'))) \<and>
          row = \<lparr>sp_space = sp_space row, sp_entry_count = of_nat count, sp_owner = o'\<rparr>)" for row
  proof -
    have "row \<in> set rows \<longleftrightarrow> (\<exists>p \<in> set (rg_members r). row \<in> set (space_rows_of p (?rows p)))"
      unfolding rows who(1) [symmetric] by auto
    then show ?thesis by (cases row) (auto simp: space_rows_of_def owned_spaces_iff image_iff Bex_def)
  qed
  ultimately show ?thesis using \<open>\<not> partial\<close> by simp
qed

theorem spaces_listed_once_witness:
  "fleet_spaces flat_hash 10 copied_answers False [] (copied_fleet 1) = ([\<lparr>sp_space = ''f'', sp_entry_count = 1, sp_owner = 3\<rparr>], False) \<and>
   (\<exists>o' count. owner flat_hash sample_ring (flow_key ''f'') = Some o' \<and> o' \<in> set (rg_members sample_ring) \<and>
      (''f'', count) \<in> set (entries_by_flow 10 (fn_shard (copied_fleet o'))))"
proof
  show rows: "fleet_spaces flat_hash 10 copied_answers False [] (copied_fleet 1) = ([\<lparr>sp_space = ''f'', sp_entry_count = 1, sp_owner = 3\<rparr>], False)"
    by code_simp
  have ring: "rg_m_idx sample_ring = 7" "rg_members sample_ring = [1, 2, 3]" by code_simp+
  let ?row = "\<lparr>sp_space = ''f'', sp_entry_count = 1, sp_owner = 3\<rparr>"
  have all: "\<not> False \<and> distinct (map sp_space [?row]) \<and> (\<forall>row. row \<in> set [?row] \<longleftrightarrow>
       (\<exists>o' count. owner flat_hash sample_ring (flow_key ([] @ sp_space row)) = Some o' \<and> o' \<in> set (rg_members sample_ring) \<and>
          ([] @ sp_space row, count) \<in> set (entries_by_flow 10 (fn_shard (copied_fleet o'))) \<and>
          row = \<lparr>sp_space = sp_space row, sp_entry_count = of_nat count, sp_owner = o'\<rparr>))"
    by (rule spaces_listed_once [where fleet = copied_fleet and me = 1 and F = "\<lambda>_. {''f''}" and answers = copied_answers and port = 0, OF _ _ _ _ _ rows])
      (simp_all add: ring sample_rooms copied_answers_def, simp_all add: copied_fleet_def sample_node_def sample_rooms)
  show "\<exists>o' count. owner flat_hash sample_ring (flow_key ''f'') = Some o' \<and> o' \<in> set (rg_members sample_ring) \<and>
      (''f'', count) \<in> set (entries_by_flow 10 (fn_shard (copied_fleet o')))"
    using all [THEN conjunct2, THEN conjunct2, THEN spec, of ?row] by auto
qed

end
