(* ===== verification/Spec2Isabelle.thy ===== *)
theory Spec2Isabelle
  imports FleetSpec Ring Shard LogStore Snapshot Sequencer InStep RpcClient FlowFleet FlowSpaces
begin

text \<open>
  A verification development of rift-cluster, the clustering layer of the Rift service
  virtualizer.
\<close>

end
